(* ===== verification/Prelude.thy ===== *)
theory Prelude
  imports "HOL-Library.Word" "HOL-Library.Code_Target_Nat" "HOL-Library.Monad_Syntax" "HOL-Library.Sublist"
begin

text \<open>
  Types and generic facts shared by the models of the components.

  The C++ integer types are machine words of their width.  A model operation
  whose execution may have no defined continuation (an index outside a
  \<^verbatim>\<open>std::vector\<close>, a failing \<^verbatim>\<open>assert\<close>, an uncaught exception, a division by
  zero) returns an option; \<^const>\<open>None\<close> is that outcome, and the sequencing of
  statements is the bind of the option monad.  Signals that a component raises on
  the messenger are returned as lists of events in the order in which the code
  emits them.
\<close>

unbundle bit_operations_syntax

section \<open>Machine types\<close>

type_synonym u8 = "8 word"
type_synonym u16 = "16 word"
type_synonym u32 = "32 word"
type_synonym u64 = "64 word"
type_synonym data_t = "u8 list"
type_synonym strb_t = "bool list"

section \<open>Collections of rewrite rules\<close>

named_theorems byte_simps \<open>closed forms of the byte level routines\<close>
named_theorems addr_simps \<open>address arithmetic on 64 bit words, read as natural numbers\<close>

section \<open>Vectors\<close>

definition vec_get :: "'a list \<Rightarrow> nat \<Rightarrow> 'a option" where
  "vec_get xs i = (if i < length xs then Some (xs ! i) else None)"

definition vec_set :: "'a list \<Rightarrow> nat \<Rightarrow> 'a \<Rightarrow> 'a list option" where
  "vec_set xs i x = (if i < length xs then Some (xs[i := x]) else None)"

definition resize :: "nat \<Rightarrow> 'a \<Rightarrow> 'a list \<Rightarrow> 'a list" where
  "resize n x xs = take n xs @ replicate (n - length xs) x"

definition rotate_right :: "nat \<Rightarrow> 'a list \<Rightarrow> 'a list" where
  "rotate_right n xs = rotate (length xs - n mod length xs) xs"

text \<open>
  Shifts by a run time count.  C++ leaves a count of at least the width undefined; the
  definitions give what the x86-64 shift instructions do, which read the count
  modulo the width.
\<close>

definition shl64 :: "u64 \<Rightarrow> nat \<Rightarrow> u64" where
  "shl64 x n = push_bit (n mod 64) x"

definition shr64 :: "u64 \<Rightarrow> nat \<Rightarrow> u64" where
  "shr64 x n = drop_bit (n mod 64) x"

definition shl32 :: "u32 \<Rightarrow> nat \<Rightarrow> u32" where
  "shl32 x n = push_bit (n mod 32) x"

definition shr32 :: "u32 \<Rightarrow> nat \<Rightarrow> u32" where
  "shr32 x n = drop_bit (n mod 32) x"

lemma vec_get_Some [simp]: "i < length xs \<Longrightarrow> vec_get xs i = Some (xs ! i)"
  by (simp add: vec_get_def)

lemma vec_get_None [simp]: "\<not> i < length xs \<Longrightarrow> vec_get xs i = None"
  by (simp add: vec_get_def)

lemma vec_set_Some [simp]: "i < length xs \<Longrightarrow> vec_set xs i x = Some (xs[i := x])"
  by (simp add: vec_set_def)

lemma vec_set_None [simp]: "\<not> i < length xs \<Longrightarrow> vec_set xs i x = None"
  by (simp add: vec_set_def)

lemma vec_set_length: "vec_set xs i x = Some ys \<Longrightarrow> length ys = length xs"
  by (auto simp: vec_set_def split: if_splits)

lemma length_resize [simp]: "length (resize n x xs) = n"
  by (simp add: resize_def)

lemma nth_resize:
  "i < n \<Longrightarrow> resize n x xs ! i = (if i < length xs then xs ! i else x)"
  by (auto simp: resize_def nth_append)

lemma resize_id [simp]: "resize (length xs) x xs = xs"
  by (simp add: resize_def)

lemma length_rotate_right [simp]: "length (rotate_right n xs) = length xs"
  by (simp add: rotate_right_def)

lemma nth_rotate_right:
  assumes "i < length xs" and "n < length xs"
  shows "rotate_right n xs ! ((i + n) mod length xs) = xs ! i"
proof -
  let ?L = "length xs"
  have "(?L - n + (i + n) mod ?L) mod ?L = (?L - n + (i + n)) mod ?L"
    by (simp add: mod_add_right_eq)
  also have "\<dots> = i"
    using assms by simp
  finally have *: "(?L - n + (i + n) mod ?L) mod ?L = i" .
  have "(i + n) mod ?L < ?L"
    using assms by (intro mod_less_divisor) linarith
  then show ?thesis
    using assms * by (simp only: rotate_right_def nth_rotate mod_less)
qed

lemma those_map_Some [simp]: "those (map (\<lambda>x. Some (f x)) xs) = Some (map f xs)"
  by (induction xs) auto

section \<open>Words read as numbers\<close>

lemma unat_less_u64: "unat (x :: u64) < 18446744073709551616"
  by (rule order_less_le_trans [OF unsigned_less]) simp

lemma unat_less_u32: "unat (x :: u32) < 4294967296"
  by (rule order_less_le_trans [OF unsigned_less]) simp

lemma unat_less_u8: "unat (x :: u8) < 256"
  by (rule order_less_le_trans [OF unsigned_less]) simp

lemma unat_ucast_u32_u64 [simp]: "unat (ucast (x :: u32) :: u64) = unat x"
  using unat_less_u32 [of x] by (simp add: unsigned_ucast_eq take_bit_nat_eq_self_iff)

lemma unat_ucast_u8_u64 [simp]: "unat (ucast (x :: u8) :: u64) = unat x"
  using unat_less_u8 [of x] by (simp add: unsigned_ucast_eq take_bit_nat_eq_self_iff)

lemma unat_ucast_u8_u32 [simp]: "unat (ucast (x :: u8) :: u32) = unat x"
  using unat_less_u8 [of x] by (simp add: unsigned_ucast_eq take_bit_nat_eq_self_iff)

lemma unat_add_less:
  fixes a b :: "'a::len word"
  assumes "unat a + unat b < 2 ^ LENGTH('a)"
  shows "unat (a + b) = unat a + unat b"
  using assms by (simp only: unat_word_ariths mod_less)

lemma unat_mult_less:
  fixes a b :: "'a::len word"
  assumes "unat a * unat b < 2 ^ LENGTH('a)"
  shows "unat (a * b) = unat a * unat b"
  using assms by (simp only: unat_word_ariths mod_less)

lemma unat_align_down [addr_simps]:
  fixes a n :: "'a::len word"
  shows "unat (a div n * n) = unat a div unat n * unat n"
proof -
  have "unat a div unat n * unat n \<le> unat a"
    by simp
  also have "unat a < 2 ^ LENGTH('a)"
    by (rule unsigned_less)
  finally have "unat (a div n) * unat n < 2 ^ LENGTH('a)"
    by (simp add: unat_div_distrib)
  then show ?thesis
    by (simp only: unat_mult_less unat_div_distrib)
qed

lemma unat_of_nat_less:
  "n < 2 ^ LENGTH('a) \<Longrightarrow> unat (of_nat n :: 'a::len word) = n"
  by (simp only: unat_of_nat mod_less)

lemma unat_pow2:
  "k < LENGTH('a) \<Longrightarrow> unat (2 ^ k :: 'a::len word) = 2 ^ k"
  using unat_of_nat_less [of "2 ^ k", where 'a = 'a] by simp

end
