(* ===== verification/AxiTypes.thy ===== *)
theory AxiTypes
  imports Prelude
begin

text \<open>
  The transaction types of \<^verbatim>\<open>common/transactor.h\<close> and \<^verbatim>\<open>transactors/axi_sw/axi.h\<close>.
\<close>

section \<open>Enumerations\<close>

text \<open>
  \<^verbatim>\<open>BURST_OTHER\<close> is the encoding without an enumerator, which the code treats like no
  other kind.  A response keeps its byte, since the code combines responses bitwise.
\<close>

datatype burst_t = BURST_FIXED | BURST_INCR | BURST_WRAP | BURST_OTHER

type_synonym resp_t = u8

definition RESP_OKAY :: resp_t where
  "RESP_OKAY = 0"

definition RESP_EXOKAY :: resp_t where
  "RESP_EXOKAY = 1"

definition RESP_SLVERR :: resp_t where
  "RESP_SLVERR = 2"

definition RESP_DECERR :: resp_t where
  "RESP_DECERR = 3"

lemmas resp_defs = RESP_OKAY_def RESP_EXOKAY_def RESP_SLVERR_def RESP_DECERR_def

datatype atop_transaction =
  NON_ATOMIC | ATOMIC_STORE | ATOMIC_LOAD | ATOMIC_SWAP | ATOMIC_COMPARE | ATOMIC_OTHER nat

datatype atop_operation =
  ATOP_ADD | ATOP_CLR | ATOP_EOR | ATOP_SET | ATOP_SMAX | ATOP_SMIN | ATOP_UMAX | ATOP_UMIN
| ATOP_INVALID nat

definition atop_transaction_of :: "nat \<Rightarrow> atop_transaction" where
  "atop_transaction_of n =
     (if n < 5 then [NON_ATOMIC, ATOMIC_STORE, ATOMIC_LOAD, ATOMIC_SWAP, ATOMIC_COMPARE] ! n
      else ATOMIC_OTHER n)"

definition atop_operation_of :: "nat \<Rightarrow> atop_operation" where
  "atop_operation_of n =
     (if n < 8 then [ATOP_ADD, ATOP_CLR, ATOP_EOR, ATOP_SET, ATOP_SMAX, ATOP_SMIN, ATOP_UMAX, ATOP_UMIN] ! n
      else ATOP_INVALID n)"

record atop_t =
  transaction :: atop_transaction
  operation :: atop_operation

definition atop_decode :: "u8 \<Rightarrow> atop_t" where
  "atop_decode raw =
     (let hi = unat raw div 16 in
      \<lparr> transaction = atop_transaction_of (if hi = 3 then hi + unat raw mod 2 else hi),
        operation = atop_operation_of (unat raw mod 16) \<rparr>)"

definition DEV_BUF :: u8 where
  "DEV_BUF = 1"

section \<open>Channels\<close>

record a_base =
  a_w :: bool
  a_addr :: u64
  a_size :: u8
  a_len :: u8
  a_burst :: burst_t
  a_lock :: bool
  a_cache :: u8
  a_prot :: u8
  a_qos :: u8
  a_region :: u8
  a_atop :: atop_t
  a_user :: u8
  a_exp_err_rsp :: bool
  a_allow_decerr_resp :: bool
  a_allow_slverr_resp :: bool
  a_seqid :: u32

record a_no_id_t = a_base +
  is_manual_id :: bool
  manual_id :: u32

record a_t = a_base +
  a_id :: u32

definition a_no_id_new :: "bool \<Rightarrow> u64 \<Rightarrow> u8 \<Rightarrow> a_no_id_t" where
  "a_no_id_new w addr sz = \<lparr> a_w = w, a_addr = addr, a_size = sz, a_len = 0, a_burst = BURST_INCR,
     a_lock = False, a_cache = 0, a_prot = 0, a_qos = 0, a_region = 0, a_atop = atop_decode 0,
     a_user = 0, a_exp_err_rsp = False, a_allow_decerr_resp = False, a_allow_slverr_resp = False,
     a_seqid = 0, is_manual_id = False, manual_id = 0 \<rparr>"

definition a_of_no_id :: "u32 \<Rightarrow> a_no_id_t \<Rightarrow> a_t" where
  "a_of_no_id i a = a_base.extend (a_base.truncate a) \<lparr> a_id = i \<rparr>"

record w_t =
  w_data :: data_t
  w_strb :: strb_t
  w_last :: bool

record r_t =
  r_id :: u32
  r_resp :: resp_t
  r_data :: data_t
  r_last :: bool

record b_t =
  b_id :: u32
  b_resp :: resp_t

section \<open>Transactor requests\<close>

record write_t =
  wr_addr :: u64
  wr_length :: nat
  wr_data :: data_t
  wr_strb :: strb_t
  wr_id :: u32

record read_t =
  rd_id :: u32
  rd_addr :: u64
  rd_length :: nat

record read_response_t =
  rr_id :: u32
  rr_data :: data_t
  rr_resp :: resp_t

record write_response_t =
  wp_id :: u32
  wp_resp :: resp_t

record axi_attr_t =
  at_cache :: u8
  at_prot :: u8
  at_qos :: u8
  at_region :: u8
  at_user :: u8
  at_is_manual_id :: bool
  at_manual_id :: u32

record read_request_t =
  rq_addr :: u64
  rq_length :: nat
  rq_exp_err_rsp :: bool
  rq_attr :: axi_attr_t

record write_request_t =
  wq_addr :: u64
  wq_length :: nat
  wq_data :: data_t
  wq_strb :: strb_t
  wq_exp_err_rsp :: bool
  wq_allow_decerr_resp :: bool
  wq_attr :: axi_attr_t
  wq_size_override :: u8

definition attr_default :: axi_attr_t where
  "attr_default = \<lparr> at_cache = 0, at_prot = 0, at_qos = 0, at_region = 0, at_user = 0,
     at_is_manual_id = False, at_manual_id = 0 \<rparr>"

definition write_request :: "u64 \<Rightarrow> nat \<Rightarrow> data_t \<Rightarrow> strb_t \<Rightarrow> bool \<Rightarrow> write_request_t" where
  "write_request addr len data strb exp_err = \<lparr> wq_addr = addr, wq_length = len, wq_data = data,
     wq_strb = strb, wq_exp_err_rsp = exp_err, wq_allow_decerr_resp = False, wq_attr = attr_default,
     wq_size_override = 0 \<rparr>"

definition read_request :: "u64 \<Rightarrow> nat \<Rightarrow> bool \<Rightarrow> read_request_t" where
  "read_request addr len exp_err = \<lparr> rq_addr = addr, rq_length = len, rq_exp_err_rsp = exp_err,
     rq_attr = attr_default \<rparr>"

end
