(* ===== verification/DeviceAddressMap.thy ===== *)
theory DeviceAddressMap
  imports Prelude
begin

text \<open>
  The device address map of \<^verbatim>\<open>common/device_address_map\<close>: how the address of a cluster
  device is composed from its identifiers, and how the cluster is read back from an
  address.  The plusargs that give the layout are the fields of a record.
\<close>

section \<open>Model\<close>

record device_address_map =
  mmr_base_addr :: u64
  sp_base_addr :: u64
  sp_size :: u64
  die_id_width :: u32
  cluster_id_width :: u32
  die_id_start_bit :: u32
  priv_level_width :: u32
  priv_level_start_bit :: u32
  mmr_cluster_id_start_bit :: u32
  mmr_device_id_width :: u32
  mmr_device_id_start_bit :: u32
  imsic_cluster_id_start_bit :: u32
  imsic_core_id_start_bit :: u32
  tr_device_id :: u32
  cpl_device_id_start :: u32
  cpl_sram_device_id :: u32
  acl_device_id :: u32
  dm_device_id :: u32
  sc_device_id :: u32
  axisw_device_id :: u32
  imsic_m :: u32
  imsic_s :: u32
  mmr_m :: u32

definition device_address_map_default :: device_address_map where
  "device_address_map_default = \<lparr> mmr_base_addr = 0, sp_base_addr = 0, sp_size = 0, die_id_width = 0,
     cluster_id_width = 0, die_id_start_bit = 0, priv_level_width = 0, priv_level_start_bit = 0,
     mmr_cluster_id_start_bit = 0, mmr_device_id_width = 0, mmr_device_id_start_bit = 0,
     imsic_cluster_id_start_bit = 0, imsic_core_id_start_bit = 0, tr_device_id = 0,
     cpl_device_id_start = 0, cpl_sram_device_id = 0, acl_device_id = 0, dm_device_id = 0,
     sc_device_id = 0, axisw_device_id = 0, imsic_m = 0, imsic_s = 0, mmr_m = 0 \<rparr>"

definition generate_device_addr :: "device_address_map \<Rightarrow> u32 \<Rightarrow> u32 \<Rightarrow> u32 \<Rightarrow> u64" where
  "generate_device_addr m device_id cluster_id priv_level =
     (let is_imsic = (priv_level = imsic_m m \<or> priv_level = imsic_s m);
          res = mmr_base_addr m;
          cluster_id_lower = cluster_id AND (shl32 1 (unat (cluster_id_width m)) - 1);
          cluster_id_upper = shr32 cluster_id (unat (cluster_id_width m));
          res = (if 0 < die_id_width m
                 then res OR shl64 (ucast cluster_id_upper) (unat (die_id_start_bit m)) else res);
          res = (if is_imsic
                 then res OR shl64 (ucast device_id) (unat (imsic_core_id_start_bit m))
                          OR shl64 (ucast cluster_id_lower) (unat (imsic_cluster_id_start_bit m))
                 else res OR shl64 (ucast device_id) (unat (mmr_device_id_start_bit m))
                          OR shl64 (ucast cluster_id_lower) (unat (mmr_cluster_id_start_bit m)))
      in res OR shl64 (ucast priv_level) (unat (priv_level_start_bit m)))"

definition generate_imsic_m_addr :: "device_address_map \<Rightarrow> u32 \<Rightarrow> u32 \<Rightarrow> u64" where
  "generate_imsic_m_addr m cluster_id core_id = generate_device_addr m core_id cluster_id (imsic_m m)"

definition generate_imsic_s_addr :: "device_address_map \<Rightarrow> u32 \<Rightarrow> u32 \<Rightarrow> u64" where
  "generate_imsic_s_addr m cluster_id core_id = generate_device_addr m core_id cluster_id (imsic_s m)"

definition generate_cr_device_addr :: "device_address_map \<Rightarrow> u32 \<Rightarrow> u32 \<Rightarrow> u64" where
  "generate_cr_device_addr m cluster_id core_id = generate_device_addr m core_id cluster_id (mmr_m m)"

definition generate_tr_device_addr :: "device_address_map \<Rightarrow> u32 \<Rightarrow> u64" where
  "generate_tr_device_addr m cluster_id = generate_device_addr m (tr_device_id m) cluster_id (mmr_m m)"

definition generate_cpl_device_addr :: "device_address_map \<Rightarrow> u32 \<Rightarrow> u64" where
  "generate_cpl_device_addr m cluster_id = generate_device_addr m (cpl_device_id_start m) cluster_id (mmr_m m)"

definition generate_cpl_sram_device_addr :: "device_address_map \<Rightarrow> u32 \<Rightarrow> u64" where
  "generate_cpl_sram_device_addr m cluster_id = generate_device_addr m (cpl_sram_device_id m) cluster_id (mmr_m m)"

definition generate_acl_device_addr :: "device_address_map \<Rightarrow> u32 \<Rightarrow> u64" where
  "generate_acl_device_addr m cluster_id = generate_device_addr m (acl_device_id m) cluster_id (mmr_m m)"

definition generate_dm_device_addr :: "device_address_map \<Rightarrow> u32 \<Rightarrow> u64" where
  "generate_dm_device_addr m cluster_id = generate_device_addr m (dm_device_id m) cluster_id (mmr_m m)"

definition generate_sc_device_addr :: "device_address_map \<Rightarrow> u32 \<Rightarrow> u64" where
  "generate_sc_device_addr m cluster_id = generate_device_addr m (sc_device_id m) cluster_id (mmr_m m)"

definition generate_axisw_device_addr :: "device_address_map \<Rightarrow> u32 \<Rightarrow> u64" where
  "generate_axisw_device_addr m cluster_id = generate_device_addr m (axisw_device_id m) cluster_id (mmr_m m)"

definition extract_mmr_offset :: "device_address_map \<Rightarrow> u64 \<Rightarrow> u64" where
  "extract_mmr_offset m addr =
     addr AND scast (shl32 1 (unat (mmr_device_id_width m)) - 1)"

definition low_mask32 :: "u32 \<Rightarrow> u32" where
  "low_mask32 w = (if 32 \<le> w then NOT 0 else shl32 1 (unat w) - 1)"

definition privilege_level_from_addr :: "device_address_map \<Rightarrow> u64 \<Rightarrow> u32" where
  "privilege_level_from_addr m addr =
     (if priv_level_width m = 0 then 0
      else ucast (shr64 addr (unat (priv_level_start_bit m)) AND ucast (low_mask32 (priv_level_width m))))"

definition pl_is_imsic_space :: "device_address_map \<Rightarrow> u32 \<Rightarrow> bool" where
  "pl_is_imsic_space m pl \<longleftrightarrow> pl = imsic_m m \<or> pl = imsic_s m"

definition extract_cluster_id_from_address :: "device_address_map \<Rightarrow> u64 \<Rightarrow> u32" where
  "extract_cluster_id_from_address m addr =
     (let pl = privilege_level_from_addr m addr;
          cw = cluster_id_width m;
          start = (if pl_is_imsic_space m pl then imsic_cluster_id_start_bit m else mmr_cluster_id_start_bit m);
          cluster_lower = (ucast (shr64 addr (unat start) AND ucast (low_mask32 cw)) :: u32);
          cluster_upper = (if 0 < die_id_width m
            then (ucast (shr64 addr (unat (die_id_start_bit m)) AND ucast (low_mask32 (die_id_width m))) :: u32)
            else 0)
      in shl32 cluster_upper (unat cw) OR cluster_lower)"

definition is_internal_device :: "device_address_map \<Rightarrow> u64 \<Rightarrow> u32 \<Rightarrow> bool" where
  "is_internal_device m addr cluster_id =
     (let low_bits = priv_level_start_bit m + priv_level_width m;
          mmr_base_mask = (if low_bits = 0 then NOT 0 else if 64 \<le> low_bits then 0
                           else NOT (shl64 1 (unat low_bits) - 1))
      in addr AND mmr_base_mask = mmr_base_addr m AND mmr_base_mask \<and>
         cluster_id = extract_cluster_id_from_address m addr)"

section \<open>The layout\<close>

definition field :: "nat \<Rightarrow> nat \<Rightarrow> u64 \<Rightarrow> bool" where
  "field s w x \<longleftrightarrow> (\<forall>n. bit x n \<longrightarrow> s \<le> n \<and> n < s + w)"

definition clear_of :: "nat \<Rightarrow> nat \<Rightarrow> u64 \<Rightarrow> bool" where
  "clear_of s w x \<longleftrightarrow> (\<forall>n. s \<le> n \<and> n < s + w \<longrightarrow> \<not> bit x n)"

end
