(* ===== verification/Strings.thy ===== *)
theory Strings
  imports Prelude "HOL-Library.AList"
begin

text \<open>
  The string handling of the configuration parsers: the pieces of the C++
  standard library they use (\<^verbatim>\<open>std::getline\<close>, \<^verbatim>\<open>find_first_not_of\<close>, \<^verbatim>\<open>std::stoull\<close>,
  \<^verbatim>\<open>std::stoul\<close>, \<^verbatim>\<open>std::stoi\<close>) and the generic list and map parsers of
  \<^verbatim>\<open>common/parser.hpp\<close>.  An exception of a conversion is \<^const>\<open>None\<close>.
\<close>

section \<open>Standard library\<close>

definition is_space :: "char \<Rightarrow> bool" where
  "is_space c \<longleftrightarrow> c = CHR '' '' \<or> (9 \<le> (of_char c :: nat) \<and> (of_char c :: nat) \<le> 13)"

definition digit_value :: "char \<Rightarrow> nat" where
  "digit_value c = (let n = of_char c in
     if 48 \<le> n \<and> n \<le> 57 then n - 48
     else if 97 \<le> n \<and> n \<le> 122 then n - 87
     else if 65 \<le> n \<and> n \<le> 90 then n - 55
     else 36)"

definition digits_value :: "nat \<Rightarrow> string \<Rightarrow> nat" where
  "digits_value base s = foldl (\<lambda>v c. v * base + digit_value c) 0 s"

definition strip_sign :: "string \<Rightarrow> bool \<times> string" where
  "strip_sign s = (case s of
     [] \<Rightarrow> (False, [])
   | c # r \<Rightarrow> if c = CHR ''-'' then (True, r) else if c = CHR ''+'' then (False, r) else (False, s))"

definition has_hex_prefix :: "string \<Rightarrow> bool" where
  "has_hex_prefix s \<longleftrightarrow> 3 \<le> length s \<and> s ! 0 = CHR ''0'' \<and>
     (s ! 1 = CHR ''x'' \<or> s ! 1 = CHR ''X'') \<and> digit_value (s ! 2) < 16"

definition base_and_digits :: "nat \<Rightarrow> string \<Rightarrow> nat \<times> string" where
  "base_and_digits base s =
     (if (base = 0 \<or> base = 16) \<and> has_hex_prefix s then (16, drop 2 s)
      else if base = 0 then (if s \<noteq> [] \<and> hd s = CHR ''0'' then 8 else 10, s)
      else (base, s))"

definition strto :: "nat \<Rightarrow> string \<Rightarrow> (bool \<times> nat) option" where
  "strto base s =
     (let (neg, s1) = strip_sign (dropWhile is_space s);
          (b, s2) = base_and_digits base s1;
          ds = takeWhile (\<lambda>c. digit_value c < b) s2
      in if ds = [] then None else Some (neg, digits_value b ds))"

definition stoull :: "nat \<Rightarrow> string \<Rightarrow> u64 option" where
  "stoull base s = (case strto base s of
     None \<Rightarrow> None
   | Some (neg, v) \<Rightarrow> if v < 2 ^ 64 then Some (if neg then - of_nat v else of_nat v) else None)"

definition stoi :: "string \<Rightarrow> int option" where
  "stoi s = (case strto 10 s of
     None \<Rightarrow> None
   | Some (neg, v) \<Rightarrow>
       let i = (if neg then - int v else int v)
       in if - (2 ^ 31) \<le> i \<and> i < 2 ^ 31 then Some i else None)"

definition break_at :: "char \<Rightarrow> string \<Rightarrow> string \<times> string option" where
  "break_at d s = (takeWhile (\<lambda>c. c \<noteq> d) s,
     case dropWhile (\<lambda>c. c \<noteq> d) s of [] \<Rightarrow> None | _ # r \<Rightarrow> Some r)"

lemma after_shorter:
  assumes "s \<noteq> []"
  shows "length (dropWhile p s) - Suc 0 < length s"
proof -
  from assms have "0 < length s"
    by simp
  with length_dropWhile_le [of p s] show ?thesis
    by linarith
qed

function getline_tokens :: "char \<Rightarrow> string \<Rightarrow> string list" where
  "getline_tokens d s =
     (if s = [] then []
      else takeWhile (\<lambda>c. c \<noteq> d) s # getline_tokens d (tl (dropWhile (\<lambda>c. c \<noteq> d) s)))"
  by pat_completeness auto
termination
  by (relation "measure (\<lambda>(d, s). length s)") (auto intro!: after_shorter)

declare getline_tokens.simps [simp del]

definition ltrim :: "(char \<Rightarrow> bool) \<Rightarrow> string \<Rightarrow> string" where
  "ltrim p s = dropWhile p s"

definition rtrim :: "(char \<Rightarrow> bool) \<Rightarrow> string \<Rightarrow> string" where
  "rtrim p s = rev (dropWhile p (rev s))"

definition blank :: "char \<Rightarrow> bool" where
  "blank c \<longleftrightarrow> c = CHR '' '' \<or> c = CHR 0x09"

section \<open>The parsers of parser.hpp\<close>

definition trim_ws :: "char \<Rightarrow> bool" where
  "trim_ws c \<longleftrightarrow> c = CHR '' '' \<or> c = CHR 0x09 \<or> c = CHR 0x0D \<or> c = CHR 0x0A"

definition trim :: "string \<Rightarrow> string" where
  "trim s = rtrim trim_ws (ltrim trim_ws s)"

definition is_hex_string :: "string \<Rightarrow> bool" where
  "is_hex_string s \<longleftrightarrow> 3 \<le> length s \<and> s ! 0 = CHR ''0'' \<and> (s ! 1 = CHR ''x'' \<or> s ! 1 = CHR ''X'')"

definition parse_hex :: "string \<Rightarrow> u64 option" where
  "parse_hex s = (if is_hex_string s then stoull 0 s else None)"

definition parse_integral :: "string \<Rightarrow> u64 option" where
  "parse_integral s = (if is_hex_string s then parse_hex s else stoull 10 s)"

function split_from :: "char \<Rightarrow> string \<Rightarrow> string list" where
  "split_from d s =
     (if d \<in> set s
      then takeWhile (\<lambda>c. c \<noteq> d) s # split_from d (tl (dropWhile (\<lambda>c. c \<noteq> d) s))
      else [s])"
  by pat_completeness auto
termination
  by (relation "measure (\<lambda>(d, s). length s)") (auto intro!: after_shorter)

declare split_from.simps [simp del]

definition split_str :: "char \<Rightarrow> string \<Rightarrow> string list" where
  "split_str d s = (if s = [] then [] else split_from d s)"

definition blank_trim :: "string \<Rightarrow> string" where
  "blank_trim s = rtrim blank (ltrim blank s)"

definition parse_list :: "(string \<Rightarrow> 'a option) \<Rightarrow> string \<Rightarrow> 'a list option" where
  "parse_list conv input =
     those (map conv (filter (\<lambda>t. t \<noteq> []) (map blank_trim (getline_tokens CHR '','' input))))"

definition parse_pair_entry :: "string \<Rightarrow> (u64 \<times> u64 \<times> u64) option" where
  "parse_pair_entry entry = (case break_at CHR '':'' entry of
     (_, None) \<Rightarrow> None
   | (k, Some v) \<Rightarrow>
       let key_str = trim k; value_part = trim v in
       if key_str = [] then None
       else do {
         key \<leftarrow> parse_integral key_str;
         if value_part = [] then None
         else case break_at CHR ''-'' value_part of
           (_, None) \<Rightarrow> do { x \<leftarrow> parse_integral value_part; Some (key, x, x) }
         | (a, Some b) \<Rightarrow>
             if trim a = [] \<or> trim b = [] then None
             else do { x \<leftarrow> parse_integral (trim a); y \<leftarrow> parse_integral (trim b); Some (key, x, y) }
       })"

fun push_range :: "u64 \<Rightarrow> u64 \<times> u64 \<Rightarrow> (u64 \<times> (u64 \<times> u64) list) list \<Rightarrow> (u64 \<times> (u64 \<times> u64) list) list" where
  "push_range k r [] = [(k, [r])]"
| "push_range k r ((k', rs) # m) = (if k = k' then (k', rs @ [r]) # m else (k', rs) # push_range k r m)"

definition parse_pair_map :: "string \<Rightarrow> (u64 \<times> (u64 \<times> u64) list) list option" where
  "parse_pair_map input = do {
     es \<leftarrow> those (map parse_pair_entry (filter (\<lambda>t. t \<noteq> []) (map trim (split_str CHR '','' input))));
     Some (fold (\<lambda>(k, r). push_range k r) es [])
   }"

definition parse_map_entry :: "string \<Rightarrow> (u64 \<times> u64) option" where
  "parse_map_entry entry = (case break_at CHR '':'' entry of
     (_, None) \<Rightarrow> None
   | (k, Some v) \<Rightarrow>
       let old_str = trim k; new_str = trim v in
       if old_str = [] \<or> new_str = [] then None
       else do {
         x \<leftarrow> parse_integral old_str;
         y \<leftarrow> parse_integral new_str;
         Some (x, y)
       })"

definition parse_map :: "string \<Rightarrow> (u64 \<times> u64) list option" where
  "parse_map input = do {
     es \<leftarrow> those (map parse_map_entry (filter (\<lambda>t. t \<noteq> []) (map trim (split_str CHR '','' input))));
     Some (fold (\<lambda>(x, y). AList.update x y) es [])
   }"

definition find_pair :: "(u64 \<times> (u64 \<times> u64) list) list \<Rightarrow> u64 \<Rightarrow> u64 \<Rightarrow> bool" where
  "find_pair m key v = (case map_of m key of
     None \<Rightarrow> False
   | Some rs \<Rightarrow> list_ex (\<lambda>(a, b). a \<le> v \<and> v \<le> b) rs)"

section \<open>Tokens\<close>

fun join :: "char \<Rightarrow> string list \<Rightarrow> string" where
  "join d [] = []"
| "join d [t] = t"
| "join d (t # u # ts) = t @ d # join d (u # ts)"

definition is_token :: "char \<Rightarrow> string \<Rightarrow> bool" where
  "is_token d t \<longleftrightarrow> t \<noteq> [] \<and> d \<notin> set t \<and> \<not> blank (hd t) \<and> \<not> blank (last t)"

lemma takeWhile_notin [simp]: "d \<notin> set t \<Longrightarrow> takeWhile (\<lambda>c. c \<noteq> d) (t @ d # r) = t"
  by (induction t) auto

lemma dropWhile_notin [simp]: "d \<notin> set t \<Longrightarrow> dropWhile (\<lambda>c. c \<noteq> d) (t @ d # r) = d # r"
  by (induction t) auto

lemma getline_tokens_join:
  "\<forall>t \<in> set ts. is_token d t \<Longrightarrow> getline_tokens d (join d ts) = ts"
proof (induction d ts rule: join.induct)
  case (2 d t)
  then have "takeWhile (\<lambda>c. c \<noteq> d) t = t" "dropWhile (\<lambda>c. c \<noteq> d) t = []"
    by (auto simp: is_token_def)
  with 2 show ?case
    by (simp only: is_token_def getline_tokens.simps [of d t] getline_tokens.simps [of d "[]"] join.simps)
      (simp add: getline_tokens.simps)
qed (auto simp: is_token_def getline_tokens.simps [of _ "[]"] getline_tokens.simps [of _ "_ @ _ # _"])

lemma blank_trim_token:
  assumes "is_token d t"
  shows "blank_trim t = t"
proof -
  have "dropWhile blank t = t" "dropWhile blank (rev t) = rev t"
    using assms by (auto simp: is_token_def dropWhile_eq_self_iff hd_rev)
  then show ?thesis
    by (simp add: blank_trim_def ltrim_def rtrim_def)
qed

lemma parse_list_join:
  assumes "\<forall>t \<in> set ts. is_token CHR '','' t"
  shows "parse_list conv (join CHR '','' ts) = those (map conv ts)"
proof -
  have "filter (\<lambda>t. t \<noteq> []) (map blank_trim ts) = ts"
    using assms by (induction ts) (auto simp: blank_trim_token is_token_def)
  with assms show ?thesis
    by (simp add: parse_list_def getline_tokens_join)
qed

section \<open>Decimal numbers\<close>

text \<open>
  The decimal output of the standard streams and \<^verbatim>\<open>strtoull\<close> with base detection, as the
  device snapshots use them; a word that a stream extraction does not find leaves the
  target as it was.
\<close>

fun dec :: "nat \<Rightarrow> string" where
  "dec n = (if n < 10 then [char_of (48 + n)] else dec (n div 10) @ [char_of (48 + n mod 10)])"

declare dec.simps [simp del]

definition strtoull :: "string \<Rightarrow> u64" where
  "strtoull s = (case strto 0 s of
     None \<Rightarrow> 0
   | Some (neg, v) \<Rightarrow>
       if v < 2 ^ 64 then (if neg then - of_nat v else of_nat v) else 0xFFFFFFFFFFFFFFFF)"

definition word_at :: "string list \<Rightarrow> nat \<Rightarrow> string \<Rightarrow> string" where
  "word_at ws i old = (if i < length ws then ws ! i else old)"

definition decimal :: "char \<Rightarrow> bool" where
  "decimal c \<longleftrightarrow> 48 \<le> (of_char c :: nat) \<and> (of_char c :: nat) \<le> 57"

lemma decimal_digit:
  assumes "d < 10"
  shows "decimal (char_of (48 + d))" "digit_value (char_of (48 + d)) = d"
  using assms by (simp_all add: decimal_def digit_value_def Let_def)

lemma decimal_plain:
  assumes "decimal c"
  shows "\<not> is_space c" "c \<noteq> CHR ''-''" "c \<noteq> CHR ''+''" "c \<noteq> CHR ''x''" "c \<noteq> CHR ''X''" "digit_value c < 10"
  using assms by (auto simp: decimal_def is_space_def digit_value_def Let_def)

lemma dec_digits: "\<forall>c \<in> set (dec n). decimal c"
proof (induction n rule: dec.induct)
  case (1 n)
  then show ?case
    by (subst dec.simps) (auto simp: decimal_digit)
qed

lemma dec_value: "digits_value 10 (dec n) = n"
proof (induction n rule: dec.induct)
  case (1 n)
  show ?case
  proof (cases "n < 10")
    case True
    then show ?thesis
      by (subst dec.simps) (simp add: digits_value_def decimal_digit)
  next
    case False
    then show ?thesis
      using 1 by (subst dec.simps) (simp add: digits_value_def decimal_digit)
  qed
qed

lemma char_of_zero: "char_of (48 :: nat) = CHR ''0''" "digit_value (CHR ''0'') = 0"
  by code_simp+

lemma dec_hd: "dec n \<noteq> [] \<and> (n \<noteq> 0 \<longrightarrow> hd (dec n) \<noteq> CHR ''0'')"
proof (induction n rule: dec.induct)
  case (1 n)
  show ?case
  proof (cases "n < 10")
    case True
    then have "n \<noteq> 0 \<longrightarrow> char_of (48 + n) \<noteq> CHR ''0''"
      using decimal_digit(2) [of n] char_of_zero(2) by metis
    with True show ?thesis
      by (subst (1 2) dec.simps) simp
  next
    case False
    then show ?thesis
      using 1 by (subst (1 2) dec.simps) (simp add: hd_append)
  qed
qed

lemma strtoull_dec:
  assumes "n < 2 ^ 64"
  shows "strtoull (dec n) = of_nat n"
proof -
  let ?s = "dec n"
  obtain c cs where s: "?s = c # cs"
    using dec_hd [of n] by (cases ?s) auto
  note d = dec_digits [of n]
  have "decimal c"
    using d by (simp add: s)
  then have plain: "dropWhile is_space ?s = ?s" "strip_sign ?s = (False, ?s)"
    by (simp_all add: s strip_sign_def decimal_plain)
  have hex: "\<not> has_hex_prefix ?s"
    using d by (cases cs) (auto simp: s has_hex_prefix_def decimal_plain)
  have "strto 0 ?s = Some (False, n)"
  proof (cases "n = 0")
    case True
    then have "?s = ''0''"
      by (subst dec.simps) (simp add: char_of_zero)
    then show ?thesis
      using True by (simp add: strto_def plain hex base_and_digits_def digits_value_def digit_value_def
          strip_sign_def is_space_def has_hex_prefix_def)
  next
    case False
    have tw: "takeWhile (\<lambda>c. digit_value c < 10) ?s = ?s"
      using d by (simp add: decimal_plain)
    show ?thesis
      using False dec_hd [of n] by (simp add: strto_def plain hex base_and_digits_def dec_value tw Let_def)
  qed
  with assms show ?thesis
    by (simp add: strtoull_def)
qed

end
