(* ===== verification/Eam.thy ===== *)
theory Eam
  imports AxiTypes DeviceAddressMap Strings
begin

text \<open>
  The exclusive access monitor of \<^verbatim>\<open>transactors/axi_sw/eam.cpp\<close>: sixteen reservations,
  indexed by \<^verbatim>\<open>AxUSER[3:0]\<close>, consulted once per AXI transaction.  The random draw and the
  clock reading that a call consumes are its inputs; the errors it logs are part of
  its result.  \<^verbatim>\<open>AxSIZE\<close> is a three bit field of the bus, so the container size of a
  wrapping burst is not zero and the divisions of \<^verbatim>\<open>span\<close> are defined.
\<close>

section \<open>Model\<close>

record eam_entry =
  valid :: bool
  hart :: u32
  e_id :: u32
  rsv_addr :: u64
  e_len :: u8
  e_burst :: burst_t
  e_size :: u8
  e_prot :: u8
  e_cache :: u8
  rsv_cycle :: u64

record eam_verdict =
  allow_write :: bool
  override_resp :: bool
  v_resp :: resp_t

record eam_flags =
  disable_excl_mon :: bool
  decline_excl_pct :: int
  reservation_ttl :: u64
  pass_invalidate_ratio :: string
  unsupported_addr :: string

definition eam_flags_default :: eam_flags where
  "eam_flags_default = \<lparr> disable_excl_mon = False, decline_excl_pct = 0, reservation_ttl = 0,
     pass_invalidate_ratio = ''1:0'', unsupported_addr = [] \<rparr>"

record eam =
  t :: "eam_entry list"
  pattern_pass :: u32
  pattern_fail :: u32
  excl_wr_count :: u32
  unsupported_ranges :: "(u64 \<times> u64) list"
  tb_fail_addr :: u64
  tb_fail_cnt :: u64
  tb_fail_en :: bool
  tb_fail_injected :: u64
  cycle_source_set :: bool
  declined_excl_read_count :: u64
  forced_fail_excl_write_count :: u64
  tb_fail_excl_write_count :: u64
  ttl_fail_excl_write_count :: u64

record eam_inputs =
  lcg :: u64
  clocks :: u64

datatype eam_error = Excl_with_atomic | Excl_unsupported_addr

definition RSV_BYTES :: u64 where
  "RSV_BYTES = 64"

definition NUM_ENTRIES :: nat where
  "NUM_ENTRIES = 16"

definition entry_new :: eam_entry where
  "entry_new = \<lparr> valid = False, hart = 0, e_id = 0, rsv_addr = 0, e_len = 0, e_burst = BURST_INCR,
     e_size = 0, e_prot = 0, e_cache = 0, rsv_cycle = 0 \<rparr>"

definition verdict_new :: eam_verdict where
  "verdict_new = \<lparr> allow_write = True, override_resp = False, v_resp = RESP_OKAY \<rparr>"

definition hart_of :: "a_t \<Rightarrow> u32" where
  "hart_of a = ucast (a_user a) AND of_nat (NUM_ENTRIES - 1)"

definition index :: "u32 \<Rightarrow> nat" where
  "index h = unat h mod NUM_ENTRIES"

definition rsv_base :: "u64 \<Rightarrow> u64" where
  "rsv_base addr = addr AND NOT (RSV_BYTES - 1)"

definition parse_unsupported_range :: "string \<Rightarrow> (u64 \<times> u64) option" where
  "parse_unsupported_range r = (case break_at CHR ''-'' r of
     (_, None) \<Rightarrow> None
   | (a, Some b) \<Rightarrow>
       (case (stoull 0 a, stoull 0 b) of
          (Some x, Some y) \<Rightarrow> if y < x then None else Some (x, y)
        | _ \<Rightarrow> None))"

definition parse_unsupported_addr :: "string \<Rightarrow> (u64 \<times> u64) list" where
  "parse_unsupported_addr s =
     List.map_filter parse_unsupported_range (filter (\<lambda>r. r \<noteq> []) (getline_tokens CHR '','' s))"

definition eam_default :: eam where
  "eam_default = \<lparr> t = replicate NUM_ENTRIES entry_new, pattern_pass = 1, pattern_fail = 0,
     excl_wr_count = 0, unsupported_ranges = [], tb_fail_addr = 0, tb_fail_cnt = 0,
     tb_fail_en = False, tb_fail_injected = 0, cycle_source_set = False,
     declined_excl_read_count = 0, forced_fail_excl_write_count = 0,
     tb_fail_excl_write_count = 0, ttl_fail_excl_write_count = 0 \<rparr>"

definition eam_new :: "eam_flags \<Rightarrow> eam" where
  "eam_new f = (case break_at CHR '':'' (pass_invalidate_ratio f) of
     (_, None) \<Rightarrow> eam_default
   | (n, Some e) \<Rightarrow>
       (case (stoull 10 n, stoull 10 e) of
          (Some x, Some y) \<Rightarrow>
            let p = ucast x; q = ucast y in
            eam_default
              \<lparr> pattern_pass := (if p + q = 0 then 1 else p),
                pattern_fail := (if p + q = 0 then 0 else q),
                unsupported_ranges := parse_unsupported_addr (unsupported_addr f) \<rparr>
        | _ \<Rightarrow> eam_default))"

definition addr_in_mmr_or_sp :: "device_address_map \<Rightarrow> u64 \<Rightarrow> bool" where
  "addr_in_mmr_or_sp m addr =
     (let a = (if die_id_width m \<noteq> 0
               then addr AND NOT (shl64 (shl64 1 (unat (die_id_width m)) - 1) (unat (die_id_start_bit m)))
               else addr);
          mmr_base = mmr_base_addr m;
          mmr_mask = NOT (shl64 1 (unat mmr_base) - 1)
      in a AND mmr_mask = mmr_base \<or>
         (sp_size m \<noteq> 0 \<and> sp_base_addr m \<le> a \<and> a \<le> sp_base_addr m + sp_size m - 1))"

definition addr_unsupported_by_arg :: "eam \<Rightarrow> u64 \<Rightarrow> bool" where
  "addr_unsupported_by_arg s addr = list_ex (\<lambda>(first, last). first \<le> addr \<and> addr \<le> last) (unsupported_ranges s)"

definition set_tb_fail_addr :: "u64 \<Rightarrow> eam \<Rightarrow> eam" where
  "set_tb_fail_addr addr s = s\<lparr> tb_fail_addr := addr, tb_fail_injected := 0 \<rparr>"

definition set_tb_fail_cnt :: "u64 \<Rightarrow> eam \<Rightarrow> eam" where
  "set_tb_fail_cnt cnt s = s\<lparr> tb_fail_cnt := cnt, tb_fail_injected := 0 \<rparr>"

definition set_tb_fail_en :: "bool \<Rightarrow> eam \<Rightarrow> eam" where
  "set_tb_fail_en en s =
     (let s = s\<lparr> tb_fail_en := en \<rparr> in if en then s\<lparr> tb_fail_injected := 0 \<rparr> else s)"

definition tb_fail_excl_write :: "a_t \<Rightarrow> eam \<Rightarrow> bool \<times> eam" where
  "tb_fail_excl_write a s =
     (if \<not> tb_fail_en s \<or> tb_fail_cnt s = 0 then (False, s)
      else if rsv_base (a_addr a) \<noteq> rsv_base (tb_fail_addr s) then (False, s)
      else if tb_fail_cnt s \<le> tb_fail_injected s then (False, s)
      else (True, s\<lparr> tb_fail_injected := tb_fail_injected s + 1,
                     tb_fail_excl_write_count := tb_fail_excl_write_count s + 1 \<rparr>))"

definition decline_excl_read :: "eam_flags \<Rightarrow> eam_inputs \<Rightarrow> bool" where
  "decline_excl_read f i =
     (if decline_excl_pct f \<le> 0 then False
      else sint (ucast (lcg i) :: u32) < decline_excl_pct f)"

definition pattern_fail_excl_write :: "eam \<Rightarrow> bool \<times> eam" where
  "pattern_fail_excl_write s =
     (let period = pattern_pass s + pattern_fail s;
          phase = excl_wr_count s mod period
      in (pattern_pass s \<le> phase, s\<lparr> excl_wr_count := (excl_wr_count s + 1) mod period \<rparr>))"

definition set_cycle_source :: "bool \<Rightarrow> eam \<Rightarrow> eam" where
  "set_cycle_source src s = s\<lparr> cycle_source_set := src \<rparr>"

definition current_cycles :: "eam_flags \<Rightarrow> eam_inputs \<Rightarrow> eam \<Rightarrow> u64" where
  "current_cycles f i s =
     (if reservation_ttl f = 0 \<or> \<not> cycle_source_set s then 0 else clocks i)"

definition ttl_expired :: "eam_flags \<Rightarrow> eam_entry \<Rightarrow> u64 \<Rightarrow> eam \<Rightarrow> bool \<times> eam" where
  "ttl_expired f e now s =
     (if reservation_ttl f = 0 \<or> \<not> valid e then (False, s)
      else if now - rsv_cycle e < reservation_ttl f then (False, s)
      else (True, s\<lparr> ttl_fail_excl_write_count := ttl_fail_excl_write_count s + 1 \<rparr>))"

definition fields_match :: "eam_entry \<Rightarrow> a_t \<Rightarrow> bool" where
  "fields_match e a \<longleftrightarrow> rsv_addr e = a_addr a \<and> e_size e = a_size a \<and> e_len e = a_len a \<and>
     e_burst e = a_burst a \<and> e_prot e = a_prot a"

definition span :: "a_t \<Rightarrow> u64 \<times> u64" where
  "span a =
     (let num_bytes = shl64 1 (unat (a_size a));
          aligned_addr = a_addr a div num_bytes * num_bytes;
          burst_len = ucast (a_len a) + 1;
          dtsize = num_bytes * burst_len
      in case a_burst a of
           BURST_FIXED \<Rightarrow> (aligned_addr, aligned_addr + num_bytes - 1)
         | BURST_WRAP \<Rightarrow> (let first = a_addr a div dtsize * dtsize in (first, first + dtsize - 1))
         | _ \<Rightarrow> (aligned_addr, aligned_addr + dtsize - 1))"

definition overlaps_granule :: "a_t \<Rightarrow> u64 \<Rightarrow> bool" where
  "overlaps_granule a addr =
     (let (first, last) = span a;
          rsv_first = rsv_base addr;
          rsv_last = rsv_first + RSV_BYTES - 1
      in first \<le> rsv_last \<and> rsv_first \<le> last)"

definition invalidate_overlaps :: "a_t \<Rightarrow> eam \<Rightarrow> eam" where
  "invalidate_overlaps a s =
     (let own = index (hart_of a) in
      s\<lparr> t := map (\<lambda>(i, e).
             if \<not> valid e then e
             else if a_lock a \<and> i = own then e
             else if overlaps_granule a (rsv_addr e) then e\<lparr> valid := False \<rparr>
             else e) (enumerate 0 (t s)) \<rparr>)"

definition excl_errors :: "device_address_map \<Rightarrow> a_t \<Rightarrow> eam \<Rightarrow> eam_error list" where
  "excl_errors m a s =
     (if a_lock a \<and> transaction (a_atop a) \<noteq> NON_ATOMIC then [Excl_with_atomic] else []) @
     (if a_lock a \<and> (addr_in_mmr_or_sp m (a_addr a) \<or> addr_unsupported_by_arg s (a_addr a))
      then [Excl_unsupported_addr] else [])"

definition on_excl_read :: "eam_flags \<Rightarrow> eam_inputs \<Rightarrow> a_t \<Rightarrow> eam \<Rightarrow> eam_verdict \<times> eam" where
  "on_excl_read f i a s =
     (let k = index (hart_of a) in
      if decline_excl_read f i then
        (verdict_new\<lparr> override_resp := True, v_resp := RESP_OKAY \<rparr>,
         s\<lparr> declined_excl_read_count := declined_excl_read_count s + 1,
            t := (t s)[k := (t s ! k)\<lparr> valid := False \<rparr>] \<rparr>)
      else
        (verdict_new\<lparr> override_resp := True, v_resp := RESP_EXOKAY \<rparr>,
         s\<lparr> t := (t s)[k := \<lparr> valid = True, hart = hart_of a, e_id = a_id a, rsv_addr = a_addr a,
              e_len = a_len a, e_burst = a_burst a, e_size = a_size a, e_prot = a_prot a,
              e_cache = a_cache a, rsv_cycle = current_cycles f i s \<rparr>] \<rparr>))"

definition on_excl_write :: "eam_flags \<Rightarrow> eam_inputs \<Rightarrow> a_t \<Rightarrow> eam \<Rightarrow> eam_verdict \<times> eam" where
  "on_excl_write f i a s =
     (let k = index (hart_of a);
          e = t s ! k;
          was_valid = valid e;
          (forced_fail, s) = pattern_fail_excl_write s;
          (tb_fail, s) = tb_fail_excl_write a s;
          (ttl_fail, s) = ttl_expired f e (current_cycles f i s) s;
          pass = (was_valid \<and> fields_match e a \<and> \<not> forced_fail \<and> \<not> tb_fail \<and> \<not> ttl_fail);
          s = (if forced_fail \<and> \<not> ttl_fail \<and> was_valid \<and> fields_match e a
               then s\<lparr> forced_fail_excl_write_count := forced_fail_excl_write_count s + 1 \<rparr> else s);
          s = s\<lparr> t := (t s)[k := e\<lparr> valid := False \<rparr>] \<rparr>
      in if pass then (verdict_new\<lparr> override_resp := True, v_resp := RESP_EXOKAY \<rparr>, s)
         else (verdict_new\<lparr> override_resp := True, allow_write := False, v_resp := RESP_OKAY \<rparr>, s))"

definition on_addr :: "eam_flags \<Rightarrow> device_address_map \<Rightarrow> eam_inputs \<Rightarrow> a_t \<Rightarrow> eam \<Rightarrow> eam_verdict \<times> eam_error list \<times> eam" where
  "on_addr f m i a s =
     (if disable_excl_mon f then (verdict_new, [], s)
      else let errs = excl_errors m a s in
        if \<not> a_w a then
          if \<not> a_lock a then (verdict_new, errs, s)
          else (let (v, s) = on_excl_read f i a s in (v, errs, s))
        else
          let s = invalidate_overlaps a s in
          if \<not> a_lock a then (verdict_new, errs, s)
          else (let (v, s) = on_excl_write f i a s in (v, errs, s)))"

section \<open>Exclusive monitors\<close>

text \<open>
  What the burst engine and the harts rely on, for any monitor: the reservation of an
  owner changes only by the owner's exclusive accesses and by overlapping writes, and
  an exclusive write that passes had a matching reservation.
\<close>

locale excl_monitor =
  fixes step :: "'i \<Rightarrow> a_t \<Rightarrow> 's \<Rightarrow> eam_verdict \<times> 's"
    and res :: "'s \<Rightarrow> nat \<Rightarrow> eam_entry option"
    and owner :: "a_t \<Rightarrow> nat"
    and kills :: "a_t \<Rightarrow> eam_entry \<Rightarrow> bool"
    and inv :: "'s \<Rightarrow> bool"
  assumes inv_step: "inv s \<Longrightarrow> inv (snd (step i a s))"
    and keep: "inv s \<Longrightarrow> \<not> (a_lock a \<and> owner a = k) \<Longrightarrow>
      res (snd (step i a s)) k =
        (case res s k of None \<Rightarrow> None | Some e \<Rightarrow> if a_w a \<and> kills a e then None else Some e)"
    and pass: "inv s \<Longrightarrow> a_w a \<Longrightarrow> a_lock a \<Longrightarrow> allow_write (fst (step i a s)) \<Longrightarrow>
      \<exists>e. res s (owner a) = Some e \<and> fields_match e a"
    and plain: "inv s \<Longrightarrow> \<not> a_lock a \<Longrightarrow> fst (step i a s) = verdict_new"
begin

fun run :: "('i \<times> a_t) list \<Rightarrow> 's \<Rightarrow> 's" where
  "run [] s = s"
| "run ((i, a) # xs) s = run xs (snd (step i a s))"

lemma inv_run: "inv s \<Longrightarrow> inv (run xs s)"
  by (induction xs s rule: run.induct) (auto simp: inv_step)

lemma res_run:
  assumes "inv s" and "\<forall>(i, a) \<in> set xs. \<not> (a_lock a \<and> owner a = k)"
  shows "res (run xs s) k =
    (case res s k of None \<Rightarrow> None
     | Some e \<Rightarrow> if \<exists>(i, a) \<in> set xs. a_w a \<and> kills a e then None else Some e)"
  using assms
proof (induction xs s rule: run.induct)
  case (1 s)
  then show ?case
    by (simp split: option.split)
next
  case (2 i a xs s)
  then have "inv (snd (step i a s))" "\<not> (a_lock a \<and> owner a = k)"
    by (auto simp: inv_step)
  with 2 show ?case
    by (auto simp: keep split: option.splits if_splits)
qed

lemma pass_run:
  assumes "inv s" and "\<forall>(i, a) \<in> set xs. \<not> (a_lock a \<and> owner a = owner b)"
    and "a_w b" and "a_lock b" and "allow_write (fst (step i b (run xs s)))"
  shows "\<exists>e. res s (owner b) = Some e \<and> fields_match e b \<and> (\<forall>(i, a) \<in> set xs. \<not> (a_w a \<and> kills a e))"
proof -
  from pass [OF inv_run [OF assms(1)] assms(3-5)] obtain e where
    "res (run xs s) (owner b) = Some e" "fields_match e b"
    by blast
  with res_run [OF assms(1,2)] show ?thesis
    by (auto split: option.splits if_splits)
qed

end

section \<open>The monitor implements the contract\<close>

definition eam_inv :: "eam \<Rightarrow> bool" where
  "eam_inv s \<longleftrightarrow> length (t s) = NUM_ENTRIES \<and> pattern_pass s + pattern_fail s \<noteq> 0"

definition eam_step :: "eam_flags \<Rightarrow> device_address_map \<Rightarrow> eam_inputs \<Rightarrow> a_t \<Rightarrow> eam \<Rightarrow> eam_verdict \<times> eam" where
  "eam_step f m i a s = (let (v, errs, s') = on_addr f m i a s in (v, s'))"

definition eam_res :: "eam \<Rightarrow> nat \<Rightarrow> eam_entry option" where
  "eam_res s k = (if k < length (t s) \<and> valid (t s ! k) then Some (t s ! k) else None)"

definition eam_owner :: "a_t \<Rightarrow> nat" where
  "eam_owner a = index (hart_of a)"

definition eam_kills :: "a_t \<Rightarrow> eam_entry \<Rightarrow> bool" where
  "eam_kills a e = overlaps_granule a (rsv_addr e)"

lemma eam_inv_new: "eam_inv (eam_new f)"
  by (auto simp: eam_new_def eam_inv_def eam_default_def Let_def split: prod.splits option.splits)

lemma index_less [simp]: "index h < NUM_ENTRIES"
  by (simp add: index_def NUM_ENTRIES_def)

lemma eam_owner_less [simp]: "eam_owner a < NUM_ENTRIES"
  by (simp add: eam_owner_def)

lemma t_invalidate:
  "k < length (t s) \<Longrightarrow> t (invalidate_overlaps a s) ! k =
     (if valid (t s ! k) \<and> \<not> (a_lock a \<and> k = eam_owner a) \<and> eam_kills a (t s ! k)
      then (t s ! k)\<lparr> valid := False \<rparr> else t s ! k)"
  by (auto simp: invalidate_overlaps_def Let_def nth_enumerate_eq eam_owner_def eam_kills_def)

lemma invalidate_keep [simp]:
  "length (t (invalidate_overlaps a s)) = length (t s)"
  "pattern_pass (invalidate_overlaps a s) = pattern_pass s"
  "pattern_fail (invalidate_overlaps a s) = pattern_fail s"
  "excl_wr_count (invalidate_overlaps a s) = excl_wr_count s"
  "tb_fail_en (invalidate_overlaps a s) = tb_fail_en s"
  "tb_fail_cnt (invalidate_overlaps a s) = tb_fail_cnt s"
  "tb_fail_addr (invalidate_overlaps a s) = tb_fail_addr s"
  "tb_fail_injected (invalidate_overlaps a s) = tb_fail_injected s"
  by (simp_all add: invalidate_overlaps_def Let_def)

lemma excl_read_t:
  "\<exists>e. t (snd (on_excl_read f i a s)) = (t s)[eam_owner a := e]"
  "pattern_pass (snd (on_excl_read f i a s)) = pattern_pass s"
  "pattern_fail (snd (on_excl_read f i a s)) = pattern_fail s"
  by (auto simp: on_excl_read_def Let_def eam_owner_def)

lemma pattern_fail_keep [simp]:
  "t (snd (pattern_fail_excl_write s)) = t s"
  "pattern_pass (snd (pattern_fail_excl_write s)) = pattern_pass s"
  "pattern_fail (snd (pattern_fail_excl_write s)) = pattern_fail s"
  "cycle_source_set (snd (pattern_fail_excl_write s)) = cycle_source_set s"
  "fst (tb_fail_excl_write a (snd (pattern_fail_excl_write s))) = fst (tb_fail_excl_write a s)"
  by (simp_all add: pattern_fail_excl_write_def Let_def tb_fail_excl_write_def)

lemma tb_fail_keep [simp]:
  "t (snd (tb_fail_excl_write a s)) = t s"
  "pattern_pass (snd (tb_fail_excl_write a s)) = pattern_pass s"
  "pattern_fail (snd (tb_fail_excl_write a s)) = pattern_fail s"
  "excl_wr_count (snd (tb_fail_excl_write a s)) = excl_wr_count s"
  "cycle_source_set (snd (tb_fail_excl_write a s)) = cycle_source_set s"
  by (simp_all add: tb_fail_excl_write_def)

lemma ttl_expired_keep [simp]:
  "t (snd (ttl_expired f e now s)) = t s"
  "pattern_pass (snd (ttl_expired f e now s)) = pattern_pass s"
  "pattern_fail (snd (ttl_expired f e now s)) = pattern_fail s"
  "excl_wr_count (snd (ttl_expired f e now s)) = excl_wr_count s"
  by (simp_all add: ttl_expired_def)

definition ttl_fails :: "eam_flags \<Rightarrow> eam_inputs \<Rightarrow> a_t \<Rightarrow> eam \<Rightarrow> bool" where
  "ttl_fails f i a s \<longleftrightarrow> fst (ttl_expired f (t s ! eam_owner a) (current_cycles f i s) s)"

lemma ttl_expired_fst:
  "fst (ttl_expired f e now s') = fst (ttl_expired f e now s)"
  by (simp add: ttl_expired_def)

lemma excl_write_t:
  "t (snd (on_excl_write f i a s)) = (t s)[eam_owner a := (t s ! eam_owner a)\<lparr> valid := False \<rparr>]"
  "pattern_pass (snd (on_excl_write f i a s)) = pattern_pass s"
  "pattern_fail (snd (on_excl_write f i a s)) = pattern_fail s"
  by (simp_all add: on_excl_write_def Let_def eam_owner_def case_prod_beta)

lemma excl_write_pass:
  "fst (on_excl_write f i a s) =
     (let pass = (valid (t s ! eam_owner a) \<and> fields_match (t s ! eam_owner a) a \<and>
        \<not> fst (pattern_fail_excl_write s) \<and> \<not> fst (tb_fail_excl_write a s) \<and> \<not> ttl_fails f i a s)
      in \<lparr> allow_write = pass, override_resp = True, v_resp = if pass then RESP_EXOKAY else RESP_OKAY \<rparr>)"
proof -
  have "fst (ttl_expired f e (current_cycles f i (snd (tb_fail_excl_write a (snd (pattern_fail_excl_write s))))) s') =
        fst (ttl_expired f e (current_cycles f i s) s)" for e s'
    by (simp add: current_cycles_def ttl_expired_fst [of f e _ s' s])
  then show ?thesis
    by (simp add: on_excl_write_def Let_def eam_owner_def case_prod_beta verdict_new_def ttl_fails_def)
qed

lemma eam_step_cases:
  assumes "\<not> disable_excl_mon f"
  shows "eam_step f m i a s =
    (if a_w a then if a_lock a then on_excl_write f i a (invalidate_overlaps a s)
                   else (verdict_new, invalidate_overlaps a s)
     else if a_lock a then on_excl_read f i a s else (verdict_new, s))"
  using assms by (simp add: eam_step_def on_addr_def Let_def split: prod.split)

lemma eam_step_disabled: "disable_excl_mon f \<Longrightarrow> eam_step f m i a s = (verdict_new, s)"
  by (simp add: eam_step_def on_addr_def)

lemma eam_inv_step: "eam_inv s \<Longrightarrow> eam_inv (snd (eam_step f m i a s))"
  using excl_read_t [of f i a s] excl_write_t [of f i a "invalidate_overlaps a s"]
  by (cases "disable_excl_mon f") (auto simp: eam_inv_def eam_step_cases eam_step_disabled)

lemma eam_step_plain: "\<not> a_lock a \<Longrightarrow> fst (eam_step f m i a s) = verdict_new"
  by (simp add: eam_step_def on_addr_def Let_def)

lemma eam_res_update_other: "eam_owner a \<noteq> k \<Longrightarrow> t s' = (t s)[eam_owner a := e] \<Longrightarrow> eam_res s' k = eam_res s k"
  by (simp add: eam_res_def)

lemma eam_res_invalidate:
  assumes "\<not> (a_lock a \<and> eam_owner a = k)"
  shows "eam_res (invalidate_overlaps a s) k =
    (case eam_res s k of None \<Rightarrow> None | Some e \<Rightarrow> if eam_kills a e then None else Some e)"
  using assms by (auto simp: eam_res_def t_invalidate)

lemma eam_step_keep:
  assumes "\<not> disable_excl_mon f" and "\<not> (a_lock a \<and> eam_owner a = k)"
  shows "eam_res (snd (eam_step f m i a s)) k =
    (case eam_res s k of None \<Rightarrow> None | Some e \<Rightarrow> if a_w a \<and> eam_kills a e then None else Some e)"
proof (cases "a_lock a")
  case True
  obtain e where read: "t (snd (on_excl_read f i a s)) = (t s)[eam_owner a := e]"
    using excl_read_t(1) by blast
  have "eam_owner a \<noteq> k"
    using assms True by simp
  note other = eam_res_update_other [OF this]
  show ?thesis
    using assms True other [OF excl_write_t(1)] other [OF read]
    by (simp add: eam_step_cases eam_res_invalidate split: option.split)
next
  case False
  then show ?thesis
    using assms by (simp add: eam_step_cases eam_res_invalidate split: option.split)
qed

lemma eam_step_pass:
  assumes "\<not> disable_excl_mon f" and "eam_inv s" and "a_w a" and "a_lock a"
    and "allow_write (fst (eam_step f m i a s))"
  shows "\<exists>e. eam_res s (eam_owner a) = Some e \<and> fields_match e a"
  using assms by (auto simp: eam_step_cases excl_write_pass t_invalidate eam_res_def eam_inv_def Let_def split: if_splits)

abbreviation monitored :: "eam_flags \<Rightarrow> eam_flags" where
  "monitored f \<equiv> f\<lparr> disable_excl_mon := False \<rparr>"

interpretation eam_mon: excl_monitor "\<lambda>i a s. eam_step (monitored f) m i a s"
  eam_res eam_owner eam_kills eam_inv for f m
  by unfold_locales
    (simp_all add: eam_inv_step eam_step_keep eam_step_plain, erule (3) eam_step_pass [rotated], simp)

section \<open>Uncontended LR/SC loops\<close>

text \<open>
  A hart that repeats an exclusive read and the matching exclusive write, alone on the
  bus: \<^verbatim>\<open>lrsc_run\<close> lists which of its exclusive writes pass.
\<close>

fun lrsc_run :: "eam_flags \<Rightarrow> device_address_map \<Rightarrow> a_t \<Rightarrow> (eam_inputs \<times> eam_inputs) list \<Rightarrow> eam \<Rightarrow> bool list" where
  "lrsc_run f m a [] s = []"
| "lrsc_run f m a ((i, j) # ins) s =
     (let s1 = snd (eam_step f m i (a\<lparr> a_w := False \<rparr>) s);
          (v, s2) = eam_step f m j a s1
      in allow_write v # lrsc_run f m a ins s2)"

definition no_random_fail :: "eam_flags \<Rightarrow> bool" where
  "no_random_fail f \<longleftrightarrow> \<not> disable_excl_mon f \<and> decline_excl_pct f \<le> 0 \<and> reservation_ttl f = 0"

definition tb_armed :: "a_t \<Rightarrow> eam \<Rightarrow> bool" where
  "tb_armed a s \<longleftrightarrow> tb_fail_en s \<and> rsv_base (a_addr a) = rsv_base (tb_fail_addr s)"

lemma owner_read [simp]: "eam_owner (a\<lparr> a_w := w \<rparr>) = eam_owner a"
  by (simp add: eam_owner_def hart_of_def)

lemma on_excl_write_counts:
  assumes "reservation_ttl f = 0"
  shows "excl_wr_count (snd (on_excl_write f i a s)) = (excl_wr_count s + 1) mod (pattern_pass s + pattern_fail s)"
    and "tb_fail_injected (snd (on_excl_write f i a s)) =
      tb_fail_injected s + (if tb_armed a s \<and> tb_fail_injected s < tb_fail_cnt s then 1 else 0)"
    and "tb_fail_cnt (snd (on_excl_write f i a s)) = tb_fail_cnt s"
    and "tb_armed b (snd (on_excl_write f i a s)) = tb_armed b s"
proof -
  have z: "\<not> c < (0 :: u64)" for c
    by simp
  show "excl_wr_count (snd (on_excl_write f i a s)) = (excl_wr_count s + 1) mod (pattern_pass s + pattern_fail s)"
    by (simp add: on_excl_write_def Let_def case_prod_beta pattern_fail_excl_write_def)
  show "tb_fail_injected (snd (on_excl_write f i a s)) =
      tb_fail_injected s + (if tb_armed a s \<and> tb_fail_injected s < tb_fail_cnt s then 1 else 0)"
    using assms z by (auto simp: on_excl_write_def Let_def case_prod_beta pattern_fail_excl_write_def
        tb_fail_excl_write_def ttl_expired_def tb_armed_def not_le)
  show "tb_fail_cnt (snd (on_excl_write f i a s)) = tb_fail_cnt s"
    "tb_armed b (snd (on_excl_write f i a s)) = tb_armed b s"
    using assms by (auto simp: on_excl_write_def Let_def case_prod_beta pattern_fail_excl_write_def
        tb_fail_excl_write_def ttl_expired_def tb_armed_def)
qed

lemma lrsc_pair:
  assumes nr: "no_random_fail f" and inv: "eam_inv s" and a: "a_w a" "a_lock a"
    and s1: "s1 = snd (eam_step f m i (a\<lparr> a_w := False \<rparr>) s)"
    and s2: "eam_step f m j a s1 = (v, s2)"
  shows "allow_write v \<longleftrightarrow> \<not> fst (pattern_fail_excl_write s) \<and> \<not> (tb_armed a s \<and> tb_fail_injected s < tb_fail_cnt s)"
    and "eam_inv s2"
    and "excl_wr_count s2 = (excl_wr_count s + 1) mod (pattern_pass s + pattern_fail s)"
    and "pattern_pass s2 = pattern_pass s" and "pattern_fail s2 = pattern_fail s"
    and "tb_fail_injected s2 = tb_fail_injected s + (if tb_armed a s \<and> tb_fail_injected s < tb_fail_cnt s then 1 else 0)"
    and "tb_fail_cnt s2 = tb_fail_cnt s" and "tb_armed a s2 = tb_armed a s"
proof -
  let ?s = "invalidate_overlaps a s1"
  have off: "\<not> disable_excl_mon f" "\<not> decline_excl_read f i" "reservation_ttl f = 0"
    using nr by (auto simp: no_random_fail_def decline_excl_read_def)
  have s1': "s1 = snd (on_excl_read f i (a\<lparr> a_w := False \<rparr>) s)"
    using off a s1 by (simp add: eam_step_cases)
  have own: "valid (t s1 ! eam_owner a)" "fields_match (t s1 ! eam_owner a) a"
    using inv off unfolding s1'
    by (simp_all add: on_excl_read_def Let_def fields_match_def eam_inv_def eam_owner_def hart_of_def)
  have keep: "pattern_pass s1 = pattern_pass s" "pattern_fail s1 = pattern_fail s" "excl_wr_count s1 = excl_wr_count s"
    "tb_fail_injected s1 = tb_fail_injected s" "tb_fail_cnt s1 = tb_fail_cnt s" "tb_armed a s1 = tb_armed a s"
    using off by (simp_all add: s1' on_excl_read_def Let_def tb_armed_def)
  have inv1: "eam_inv s1"
    using inv s1 by (simp add: eam_inv_step)
  have "t ?s ! eam_owner a = t s1 ! eam_owner a"
    using inv1 a by (simp add: t_invalidate eam_inv_def)
  moreover have vs: "(v, s2) = on_excl_write f j a ?s"
    using off a s2 by (simp add: eam_step_cases)
  moreover have "\<not> ttl_fails f j a ?s"
    using off by (simp add: ttl_fails_def ttl_expired_def)
  moreover have "fst (pattern_fail_excl_write ?s) = fst (pattern_fail_excl_write s)"
    using keep by (simp add: pattern_fail_excl_write_def Let_def)
  moreover have ta: "tb_armed a ?s = tb_armed a s"
    using keep by (simp add: tb_armed_def)
  then have "fst (tb_fail_excl_write a ?s) = (tb_armed a s \<and> tb_fail_injected s < tb_fail_cnt s)"
    using keep by (auto simp: tb_fail_excl_write_def tb_armed_def not_le)
  ultimately show "allow_write v \<longleftrightarrow> \<not> fst (pattern_fail_excl_write s) \<and>
      \<not> (tb_armed a s \<and> tb_fail_injected s < tb_fail_cnt s)"
    using own excl_write_pass [of f j a ?s] by (simp add: Let_def flip: vs)
  show "eam_inv s2"
    using eam_inv_step [OF inv1, of f m j a] s2 by simp
  show "excl_wr_count s2 = (excl_wr_count s + 1) mod (pattern_pass s + pattern_fail s)"
    "pattern_pass s2 = pattern_pass s" "pattern_fail s2 = pattern_fail s"
    "tb_fail_injected s2 = tb_fail_injected s + (if tb_armed a s \<and> tb_fail_injected s < tb_fail_cnt s then 1 else 0)"
    "tb_fail_cnt s2 = tb_fail_cnt s" "tb_armed a s2 = tb_armed a s"
    using on_excl_write_counts [OF off(3), where i = j and a = a and s = ?s] excl_write_t [of f j a ?s] keep ta
    by (simp_all flip: vs)
qed

lemma lrsc_run_eq:
  assumes "no_random_fail f" "eam_inv s" "a_w a" "a_lock a"
    and "unat (pattern_pass s) + unat (pattern_fail s) < 2 ^ 32"
    and "unat (excl_wr_count s) = n mod (unat (pattern_pass s) + unat (pattern_fail s))"
    and "tb_armed a s \<Longrightarrow> unat (tb_fail_injected s) = min n (unat (tb_fail_cnt s))"
  shows "lrsc_run f m a ins s =
    map (\<lambda>j. j mod (unat (pattern_pass s) + unat (pattern_fail s)) < unat (pattern_pass s) \<and>
             (tb_armed a s \<longrightarrow> unat (tb_fail_cnt s) \<le> j)) [n..<n + length ins]"
  using assms
proof (induction f m a ins s arbitrary: n rule: lrsc_run.induct)
  case (1 f m a s)
  then show ?case
    by simp
next
  case (2 f m a i j ins s)
  let ?s1 = "snd (eam_step f m i (a\<lparr> a_w := False \<rparr>) s)"
  obtain v s2 where v: "eam_step f m j a ?s1 = (v, s2)"
    by fastforce
  note pair = lrsc_pair [OF "2.prems"(1-4) refl v]
  let ?p = "unat (pattern_pass s) + unat (pattern_fail s)"
  have period: "unat (pattern_pass s + pattern_fail s) = ?p"
    using "2.prems"(5) by (intro unat_add_less) simp
  have pos: "0 < ?p"
    using "2.prems"(2) by (simp add: eam_inv_def unat_gt_0 flip: period)
  have less: "unat (excl_wr_count s) < ?p"
    using "2.prems"(6) pos by simp
  have first: "fst (pattern_fail_excl_write s) = (\<not> n mod ?p < unat (pattern_pass s))"
    using "2.prems"(6) period less
    by (simp add: pattern_fail_excl_write_def Let_def word_le_nat_alt unat_mod_distrib not_less)
  have count: "unat (excl_wr_count s2) = Suc n mod ?p"
  proof -
    have "unat (excl_wr_count s + 1) = Suc (unat (excl_wr_count s))"
      using less "2.prems"(5) by (subst unat_add_less) simp_all
    then show ?thesis
      using pair(3) "2.prems"(6) period by (simp add: unat_mod_distrib mod_Suc_eq)
  qed
  have inj: "unat (tb_fail_injected s2) = min (Suc n) (unat (tb_fail_cnt s2))" if "tb_armed a s2"
  proof (cases "tb_fail_injected s < tb_fail_cnt s")
    case True
    then have "unat (tb_fail_injected s + 1) = Suc (unat (tb_fail_injected s))"
      using unat_less_u64 [of "tb_fail_cnt s"] by (subst unat_add_less) (auto simp: word_less_nat_alt)
    then show ?thesis
      using True that pair "2.prems"(7) by (auto simp: word_less_nat_alt min_def split: if_splits)
  next
    case False
    then show ?thesis
      using that pair "2.prems"(7) by (auto simp: word_less_nat_alt min_def split: if_splits)
  qed
  have tb: "(tb_armed a s \<and> tb_fail_injected s < tb_fail_cnt s) = (tb_armed a s \<and> n < unat (tb_fail_cnt s))"
    using "2.prems"(7) by (auto simp: word_less_nat_alt min_def split: if_splits)
  have "lrsc_run f m a ins s2 = map (\<lambda>j. j mod ?p < unat (pattern_pass s) \<and>
             (tb_armed a s \<longrightarrow> unat (tb_fail_cnt s) \<le> j)) [Suc n..<Suc n + length ins]"
    using "2.IH" [OF refl refl v [symmetric] "2.prems"(1) pair(2) "2.prems"(3,4), of "Suc n"]
      "2.prems"(5) pair(4,5,7,8) count inj by simp
  moreover have "allow_write v = (n mod ?p < unat (pattern_pass s) \<and> (tb_armed a s \<longrightarrow> unat (tb_fail_cnt s) \<le> n))"
    unfolding pair(1) first tb by auto
  moreover have "[n..<n + length ((i, j) # ins)] = n # [Suc n..<Suc n + length ins]"
    using upt_conv_Cons [of n "n + Suc (length ins)"] by (simp del: upt_Suc)
  ultimately show ?case
    by (simp only: lrsc_run.simps Let_def v prod.case list.map)
qed

section \<open>Properties\<close>

definition traffic :: "eam_flags \<Rightarrow> device_address_map \<Rightarrow> (eam_inputs \<times> a_t) list \<Rightarrow> eam \<Rightarrow> eam" where
  "traffic f m xs s = fold (\<lambda>(i, a) s. snd (snd (on_addr f m i a s))) xs s"

lemma on_addr_step:
  "fst (on_addr f m i a s) = fst (eam_step f m i a s)"
  "snd (snd (on_addr f m i a s)) = snd (eam_step f m i a s)"
  by (simp_all add: eam_step_def case_prod_beta)

lemma traffic_run: "traffic (monitored f) m xs s = eam_mon.run f m xs s"
  unfolding traffic_def
  by (induction xs arbitrary: s) (auto simp: on_addr_step)

lemma res_after_excl_read:
  assumes "eam_inv s" and "\<not> decline_excl_read f i" and "\<not> a_w a" and "a_lock a"
  shows "\<exists>e. eam_res (snd (snd (on_addr (monitored f) m i a s))) (eam_owner a) = Some e \<and>
    rsv_addr e = a_addr a \<and> (\<forall>b. fields_match e b \<longleftrightarrow> a_addr b = a_addr a \<and> a_size b = a_size a \<and>
      a_len b = a_len a \<and> a_burst b = a_burst a \<and> a_prot b = a_prot a)"
  using assms by (auto simp: on_addr_def on_excl_read_def Let_def decline_excl_read_def eam_res_def eam_inv_def
      eam_owner_def fields_match_def)

definition undisturbed :: "(eam_inputs \<times> a_t) list \<Rightarrow> u64 \<Rightarrow> bool" where
  "undisturbed xs addr \<longleftrightarrow> (\<forall>(i, c) \<in> set xs. \<not> (a_w c \<and> overlaps_granule c addr))"

definition no_injection :: "eam_flags \<Rightarrow> eam \<Rightarrow> bool" where
  "no_injection f s \<longleftrightarrow> reservation_ttl f = 0 \<and> pattern_fail s = 0 \<and> \<not> tb_fail_en s"

definition same_control :: "a_t \<Rightarrow> a_t \<Rightarrow> bool" where
  "same_control a b \<longleftrightarrow> a_addr b = a_addr a \<and> a_size b = a_size a \<and> a_len b = a_len a \<and>
     a_burst b = a_burst a \<and> a_prot b = a_prot a"

lemma excl_write_verdict:
  assumes "eam_inv s" and "a_w b" and "a_lock b"
  shows "v_resp (fst (on_addr (monitored f) m j b s)) =
      (if allow_write (fst (on_addr (monitored f) m j b s)) then RESP_EXOKAY else RESP_OKAY)"
    and "no_injection f s \<Longrightarrow> allow_write (fst (on_addr (monitored f) m j b s)) \<longleftrightarrow>
      (\<exists>e. eam_res s (eam_owner b) = Some e \<and> fields_match e b)"
proof -
  let ?s = "invalidate_overlaps b s"
  have v: "fst (on_addr (monitored f) m j b s) = fst (on_excl_write (monitored f) j b ?s)"
    using assms by (simp add: on_addr_step eam_step_cases)
  show "v_resp (fst (on_addr (monitored f) m j b s)) =
      (if allow_write (fst (on_addr (monitored f) m j b s)) then RESP_EXOKAY else RESP_OKAY)"
    unfolding v excl_write_pass by (simp add: Let_def)
  assume off: "no_injection f s"
  have pass0: "pattern_pass s \<noteq> 0"
    using off assms(1) by (simp add: no_injection_def eam_inv_def)
  have "\<not> pattern_pass s \<le> excl_wr_count s mod pattern_pass s"
    using pass0 by (simp add: word_le_nat_alt unat_mod_distrib not_le unat_gt_0)
  then have "\<not> fst (pattern_fail_excl_write ?s)" "\<not> fst (tb_fail_excl_write b ?s)" "\<not> ttl_fails (monitored f) j b ?s"
    using off by (simp_all add: no_injection_def pattern_fail_excl_write_def Let_def tb_fail_excl_write_def
        ttl_fails_def ttl_expired_def)
  then show "allow_write (fst (on_addr (monitored f) m j b s)) \<longleftrightarrow>
      (\<exists>e. eam_res s (eam_owner b) = Some e \<and> fields_match e b)"
    unfolding v excl_write_pass using assms
    by (auto simp: Let_def t_invalidate eam_res_def eam_inv_def)
qed

text \<open>
  C1: an accepted exclusive read takes a reservation, and the next exclusive write of the
  same owner is performed only if no write of the traffic in between overlaps the
  reserved granule; with the failure injection knobs off and equal control fields it
  is performed exactly then.  It is answered EXOKAY when performed and OKAY when
  squashed.
\<close>

theorem lr_sc_atomic:
  assumes inv: "eam_inv s"
    and lr: "\<not> a_w a" "a_lock a" "\<not> decline_excl_read f i"
    and sc: "a_w b" "a_lock b" "eam_owner b = eam_owner a"
    and other: "\<forall>(i', c) \<in> set xs. \<not> (a_lock c \<and> eam_owner c = eam_owner a)"
    and s1: "s1 = traffic (monitored f) m xs (snd (snd (on_addr (monitored f) m i a s)))"
    and v: "v = fst (on_addr (monitored f) m j b s1)"
  shows "(allow_write v \<longrightarrow> same_control a b \<and> undisturbed xs (a_addr a)) \<and>
         (no_injection f s1 \<longrightarrow> (allow_write v \<longleftrightarrow> same_control a b \<and> undisturbed xs (a_addr a))) \<and>
         v_resp v = (if allow_write v then RESP_EXOKAY else RESP_OKAY)"
proof -
  let ?s0 = "snd (snd (on_addr (monitored f) m i a s))"
  have inv0: "eam_inv ?s0" and inv1: "eam_inv s1"
    using inv by (simp_all add: s1 traffic_run on_addr_step eam_mon.inv_run eam_inv_step)
  obtain e where e: "eam_res ?s0 (eam_owner b) = Some e" "rsv_addr e = a_addr a"
    "\<And>c. fields_match e c = same_control a c"
    using res_after_excl_read [OF inv lr(3,1,2), of m] sc(3) by (auto simp: same_control_def)
  have res1: "eam_res s1 (eam_owner b) = (if undisturbed xs (a_addr a) then Some e else None)"
    using eam_mon.res_run [OF inv0, of xs "eam_owner b" f m] other sc(3) e
    by (simp add: s1 traffic_run undisturbed_def eam_kills_def case_prod_beta)
  have "allow_write v \<Longrightarrow> \<exists>e. eam_res s1 (eam_owner b) = Some e \<and> fields_match e b"
    using eam_step_pass [OF _ inv1 sc(1,2), of "monitored f" m j] by (simp add: v on_addr_step)
  with res1 excl_write_verdict [OF inv1 sc(1,2), of f m j] e(3) show ?thesis
    by (auto simp: v split: if_splits)
qed

definition sample_lr :: a_t where
  "sample_lr = (a_of_no_id 5 (a_no_id_new False 0x80001000 3))\<lparr> a_lock := True, a_user := 2 \<rparr>"

definition sample_store :: "u64 \<Rightarrow> a_t" where
  "sample_store addr = (a_of_no_id 6 (a_no_id_new True addr 3))\<lparr> a_user := 1 \<rparr>"

definition sample_inputs :: eam_inputs where
  "sample_inputs = \<lparr> lcg = 0, clocks = 0 \<rparr>"

lemmas sample_defs = sample_lr_def sample_store_def sample_inputs_def a_of_no_id_def a_no_id_new_def

theorem lr_sc_atomic_witness:
  "let f = eam_flags_default; m = device_address_map_default; i = sample_inputs;
       s = snd (snd (on_addr (monitored f) m i sample_lr (eam_new f)));
       sc = sample_lr\<lparr> a_w := True \<rparr>
   in allow_write (fst (on_addr (monitored f) m i sc (traffic (monitored f) m [(i, sample_store 0x80001040)] s))) \<and>
      \<not> allow_write (fst (on_addr (monitored f) m i sc (traffic (monitored f) m [(i, sample_store 0x80001038)] s)))"
proof -
  let ?f = eam_flags_default and ?m = device_address_map_default and ?i = sample_inputs
  let ?s = "snd (snd (on_addr (monitored ?f) ?m ?i sample_lr (eam_new ?f)))"
  have "\<not> a_w sample_lr" "a_lock sample_lr" "\<not> decline_excl_read ?f ?i"
    "a_w (sample_lr\<lparr> a_w := True \<rparr>)" "a_lock (sample_lr\<lparr> a_w := True \<rparr>)"
    "eam_owner (sample_lr\<lparr> a_w := True \<rparr>) = eam_owner sample_lr"
    "\<forall>(i', c) \<in> set [(?i, sample_store x)]. \<not> (a_lock c \<and> eam_owner c = eam_owner sample_lr)" for x
    by (simp_all only: owner_read) (simp_all add: sample_defs a_base.defs decline_excl_read_def eam_flags_default_def)
  note inst = lr_sc_atomic [OF eam_inv_new [of ?f] this refl refl, where m = ?m and j = ?i]
  have "same_control sample_lr (sample_lr\<lparr> a_w := True \<rparr>)"
    by (simp add: same_control_def)
  moreover have "undisturbed [(?i, sample_store 0x80001040)] (a_addr sample_lr)"
    "\<not> undisturbed [(?i, sample_store 0x80001038)] (a_addr sample_lr)"
    by code_simp+
  moreover have "no_injection ?f (traffic (monitored ?f) ?m [(?i, sample_store 0x80001040)] ?s)"
    "no_injection ?f (traffic (monitored ?f) ?m [(?i, sample_store 0x80001038)] ?s)"
    by code_simp+
  ultimately show ?thesis
    unfolding Let_def using inst by blast
qed

text \<open>
  C25: alone on the bus and with the random knobs off, the k-th exclusive write of an
  LR/SC loop passes exactly when k falls in the pass phase of the configured n:e
  pattern and the armed trickbox injection has already failed its programmed number
  of writes to the granule.  The trickbox knobs thus take part in the verdict; the comment
  at their declaration (\<^verbatim>\<open>eam.hpp\<close>, line 74) still says that they have no effect.
\<close>

theorem lrsc_loop_pattern:
  assumes "no_random_fail f" "eam_inv s" "a_w a" "a_lock a"
    and "unat (pattern_pass s) + unat (pattern_fail s) < 2 ^ 32"
    and "excl_wr_count s = 0" and "tb_fail_injected s = 0"
  shows "lrsc_run f m a ins s =
    map (\<lambda>k. k mod (unat (pattern_pass s) + unat (pattern_fail s)) < unat (pattern_pass s) \<and>
             (tb_armed a s \<longrightarrow> unat (tb_fail_cnt s) \<le> k)) [0..<length ins]"
  using lrsc_run_eq [of f s a 0 m ins] assms by simp

theorem lrsc_loop_pattern_witness:
  "lrsc_run eam_flags_default device_address_map_default (sample_lr\<lparr> a_w := True \<rparr>)
     (replicate 6 (sample_inputs, sample_inputs))
     (set_tb_fail_cnt 1 (set_tb_fail_addr 0x80001010 (set_tb_fail_en True
        (eam_new (eam_flags_default\<lparr> pass_invalidate_ratio := ''3:1'' \<rparr>))))) =
   [False, True, True, False, True, True]"
proof -
  let ?f = "eam_flags_default\<lparr> pass_invalidate_ratio := ''3:1'' \<rparr>"
  let ?s = "set_tb_fail_cnt 1 (set_tb_fail_addr 0x80001010 (set_tb_fail_en True (eam_new ?f)))"
  let ?a = "sample_lr\<lparr> a_w := True \<rparr>"
  have "no_random_fail eam_flags_default" "a_w ?a" "a_lock ?a"
    by code_simp+
  moreover have "eam_inv ?s"
    by code_simp
  moreover have "pattern_pass ?s = 3" "pattern_fail ?s = 1" "excl_wr_count ?s = 0" "tb_fail_injected ?s = 0"
    "tb_fail_cnt ?s = 1" "tb_armed ?a ?s"
    by code_simp+
  ultimately show ?thesis
    by (simp add: lrsc_loop_pattern upt_rec)
qed

end
