(* ===== verification/BusErrorList.thy ===== *)
theory BusErrorList
  imports Strings
begin

text \<open>
  The bus error injection list of \<^verbatim>\<open>common/bus_error_list.h\<close>: a sorted vector of address
  ranges, each with one access counter and one pattern position per access type.
\<close>

section \<open>Model\<close>

record list_entry =
  lo :: u64
  hi :: u64
  counters :: "u64 list"
  pattern_positions :: "u64 list"

record bus_error_list =
  n_types :: nat
  address_list :: "list_entry list"
  pattern_error_count :: "u64 list"
  pattern_normal_count :: "u64 list"
  thresholds :: "u64 list"

definition bus_error_list_new :: "nat \<Rightarrow> bus_error_list" where
  "bus_error_list_new N = \<lparr> n_types = N, address_list = [],
     pattern_error_count = replicate N 0, pattern_normal_count = replicate N 0,
     thresholds = replicate N 1 \<rparr>"

definition INVALID_ADDRESS :: u64 where
  "INVALID_ADDRESS = 0xFFFFFFFFFFFFFFFF"

definition insert_range :: "u64 \<Rightarrow> u64 \<Rightarrow> bus_error_list \<Rightarrow> bus_error_list" where
  "insert_range l h b =
     (let entry = \<lparr> lo = l, hi = h, counters = replicate (n_types b) 0,
                     pattern_positions = replicate (n_types b) 0 \<rparr>;
          it = length (takeWhile (\<lambda>e. lo e < l) (address_list b))
      in b\<lparr> address_list := take it (address_list b) @ entry # drop it (address_list b) \<rparr>)"

definition parse_hex_string :: "string \<Rightarrow> u64" where
  "parse_hex_string s = (if s = [] then INVALID_ADDRESS
     else case stoull 16 s of None \<Rightarrow> INVALID_ADDRESS | Some x \<Rightarrow> x)"

definition parse_token :: "string \<Rightarrow> bus_error_list \<Rightarrow> bus_error_list" where
  "parse_token t b =
     (let token = blank_trim t in
      if token = [] then b
      else case break_at CHR ''-'' token of
        (_, None) \<Rightarrow>
          let addr = parse_hex_string token; aligned_addr = addr AND NOT 0x3f in
          if addr \<noteq> INVALID_ADDRESS then insert_range aligned_addr (aligned_addr + 0x3f) b else b
      | (lo_str, Some hi_str) \<Rightarrow>
          let l = parse_hex_string (rtrim blank lo_str); h = parse_hex_string (ltrim blank hi_str) in
          if l \<noteq> INVALID_ADDRESS \<and> h \<noteq> INVALID_ADDRESS then insert_range l h b else b)"

definition parse_ranges :: "string \<Rightarrow> bus_error_list \<Rightarrow> bus_error_list" where
  "parse_ranges input b = fold parse_token (getline_tokens CHR '','' input) b"

definition set_pattern :: "nat \<Rightarrow> string \<Rightarrow> bus_error_list \<Rightarrow> bus_error_list" where
  "set_pattern idx pat b =
     (let put = (\<lambda>n e. b\<lparr> pattern_normal_count := (pattern_normal_count b)[idx := n],
                          pattern_error_count := (pattern_error_count b)[idx := e] \<rparr>) in
      if n_types b \<le> idx then b
      else if pat = [] then put 0 0
      else case break_at CHR '':'' pat of
        (_, None) \<Rightarrow> put 0 0
      | (n, Some e) \<Rightarrow>
          (case (stoi n, stoi e) of
             (Some i, Some j) \<Rightarrow> put (word_of_int i) (word_of_int j)
           | _ \<Rightarrow> put 0 0))"

definition set_threshold :: "nat \<Rightarrow> u64 \<Rightarrow> bus_error_list \<Rightarrow> bus_error_list" where
  "set_threshold idx threshold b =
     (if idx < n_types b then b\<lparr> thresholds := (thresholds b)[idx := threshold] \<rparr> else b)"

definition get_threshold :: "nat \<Rightarrow> bus_error_list \<Rightarrow> u64" where
  "get_threshold idx b = (if idx < n_types b then thresholds b ! idx else 0)"

definition find_entry :: "u64 \<Rightarrow> bus_error_list \<Rightarrow> nat option" where
  "find_entry addr b =
     (let it = length (takeWhile (\<lambda>e. \<not> addr < lo e) (address_list b)) in
      if it = 0 then None
      else let e = address_list b ! (it - 1) in
        if lo e \<le> addr \<and> addr \<le> hi e then Some (it - 1) else None)"

definition find_addr :: "u64 \<Rightarrow> bus_error_list \<Rightarrow> bool" where
  "find_addr addr b \<longleftrightarrow> find_entry addr b \<noteq> None"

definition pattern_mode :: "nat \<Rightarrow> bus_error_list \<Rightarrow> bool" where
  "pattern_mode idx b \<longleftrightarrow> 0 < pattern_normal_count b ! idx \<and> 0 < pattern_error_count b ! idx"

definition get_count :: "u64 \<Rightarrow> nat \<Rightarrow> bus_error_list \<Rightarrow> u64 option" where
  "get_count addr idx b =
     (if n_types b \<le> idx then None
      else map_option (\<lambda>i. counters (address_list b ! i) ! idx) (find_entry addr b))"

definition incr_count :: "u64 \<Rightarrow> nat \<Rightarrow> u64 \<Rightarrow> bus_error_list \<Rightarrow> bus_error_list \<times> u64 option" where
  "incr_count addr idx amount b =
     (if n_types b \<le> idx then (b, None)
      else case find_entry addr b of
        None \<Rightarrow> (b, None)
      | Some i \<Rightarrow>
          let e = address_list b ! i in
          if pattern_mode idx b then
            let v = pattern_positions e ! idx + amount in
            (b\<lparr> address_list := (address_list b)
                 [i := e\<lparr> pattern_positions := (pattern_positions e)[idx := v] \<rparr>] \<rparr>, Some v)
          else
            let v = counters e ! idx + amount in
            (b\<lparr> address_list := (address_list b)
                 [i := e\<lparr> counters := (counters e)[idx := v] \<rparr>] \<rparr>, Some v))"

definition is_count_below_threshold :: "u64 \<Rightarrow> nat \<Rightarrow> bus_error_list \<Rightarrow> bool" where
  "is_count_below_threshold addr idx b =
     (if n_types b \<le> idx then False
      else case find_entry addr b of
        None \<Rightarrow> False
      | Some i \<Rightarrow> counters (address_list b ! i) ! idx < thresholds b ! idx)"

definition check_inject_error :: "u64 \<Rightarrow> nat \<Rightarrow> bus_error_list \<Rightarrow> bool option" where
  "check_inject_error addr idx b =
     (case find_entry addr b of
        None \<Rightarrow> Some False
      | Some i \<Rightarrow>
          if n_types b \<le> idx then None
          else if pattern_mode idx b then
            let total_cycle = pattern_normal_count b ! idx + pattern_error_count b ! idx in
            if total_cycle = 0 then None
            else Some (pattern_normal_count b ! idx
                       \<le> pattern_positions (address_list b ! i) ! idx mod total_cycle)
          else Some (is_count_below_threshold addr idx b))"

definition get_pattern :: "nat \<Rightarrow> bus_error_list \<Rightarrow> u64 \<times> u64" where
  "get_pattern idx b = (if n_types b \<le> idx then (0, 0)
     else (pattern_normal_count b ! idx, pattern_error_count b ! idx))"

section \<open>The sorted list\<close>

definition entry_wf :: "nat \<Rightarrow> list_entry \<Rightarrow> bool" where
  "entry_wf N e \<longleftrightarrow> length (counters e) = N \<and> length (pattern_positions e) = N"

definition bel_inv :: "bus_error_list \<Rightarrow> bool" where
  "bel_inv b \<longleftrightarrow> sorted (map lo (address_list b)) \<and> list_all (entry_wf (n_types b)) (address_list b) \<and>
     length (pattern_error_count b) = n_types b \<and> length (pattern_normal_count b) = n_types b \<and>
     length (thresholds b) = n_types b"

lemma bel_inv_new [simp]: "bel_inv (bus_error_list_new N)"
  by (simp add: bel_inv_def bus_error_list_new_def)

lemma sorted_insert_before:
  assumes "sorted (map f xs)"
  shows "sorted (map f (takeWhile (\<lambda>e. f e < f x) xs @ x # dropWhile (\<lambda>e. f e < f x) xs))"
proof -
  have le: "\<forall>y \<in> set (takeWhile (\<lambda>e. f e < f x) xs). f y \<le> f x"
    by (auto dest!: set_takeWhileD)
  have ge: "\<forall>y \<in> set (dropWhile (\<lambda>e. f e < f x) xs). f x \<le> f y"
    using assms by (induction xs) (auto split: if_splits)
  from assms have "sorted (map f (takeWhile (\<lambda>e. f e < f x) xs @ dropWhile (\<lambda>e. f e < f x) xs))"
    by simp
  with le ge show ?thesis
    by (fastforce simp: sorted_append simp del: takeWhile_dropWhile_id)
qed

lemma insert_range_list:
  "address_list (insert_range l h b) =
     (let e = \<lparr> lo = l, hi = h, counters = replicate (n_types b) 0, pattern_positions = replicate (n_types b) 0 \<rparr>
      in takeWhile (\<lambda>e'. lo e' < lo e) (address_list b) @ e # dropWhile (\<lambda>e'. lo e' < lo e) (address_list b))"
  by (simp add: insert_range_def Let_def takeWhile_eq_take [symmetric] dropWhile_eq_drop [symmetric])

lemma bel_inv_insert:
  assumes "bel_inv b"
  shows "bel_inv (insert_range l h b)"
proof -
  have "sorted (map lo (address_list (insert_range l h b)))"
    unfolding insert_range_list Let_def
    using assms by (intro sorted_insert_before) (simp add: bel_inv_def)
  moreover have "list_all (entry_wf (n_types b)) (address_list (insert_range l h b))"
    using assms by (auto simp: insert_range_list bel_inv_def list_all_iff Let_def entry_wf_def
        dest!: set_takeWhileD set_dropWhileD)
  ultimately show ?thesis
    using assms by (simp add: bel_inv_def) (simp add: insert_range_def Let_def)
qed

lemma bel_inv_parse_token: "bel_inv b \<Longrightarrow> bel_inv (parse_token t b)"
  by (auto simp: parse_token_def Let_def bel_inv_insert split: prod.splits option.splits)

lemma bel_inv_parse: "bel_inv b \<Longrightarrow> bel_inv (parse_ranges input b)"
  unfolding parse_ranges_def
  by (rule fold_invariant [where Q = "\<lambda>_. True"]) (auto intro: bel_inv_parse_token)

lemma bel_inv_set_threshold: "bel_inv b \<Longrightarrow> bel_inv (set_threshold idx n b)"
  by (simp add: set_threshold_def bel_inv_def)

lemma bel_inv_set_pattern: "bel_inv b \<Longrightarrow> bel_inv (set_pattern idx p b)"
  by (simp add: set_pattern_def Let_def bel_inv_def split: prod.splits option.splits)

lemma takeWhile_pred_less:
  "takeWhile P xs \<noteq> [] \<Longrightarrow> length (takeWhile P xs) - Suc 0 < length xs"
  using length_takeWhile_le [of P xs] by (cases "takeWhile P xs") auto

lemma find_entry_sound:
  assumes "find_entry addr b = Some i"
  shows "i < length (address_list b)" "lo (address_list b ! i) \<le> addr" "addr \<le> hi (address_list b ! i)"
  using assms by (auto simp: find_entry_def Let_def takeWhile_pred_less split: if_splits)

definition locate :: "u64 \<Rightarrow> (u64 \<times> u64) list \<Rightarrow> nat option" where
  "locate addr ps =
     (let it = length (takeWhile (\<lambda>p. \<not> addr < fst p) ps) in
      if it = 0 then None
      else if fst (ps ! (it - 1)) \<le> addr \<and> addr \<le> snd (ps ! (it - 1)) then Some (it - 1) else None)"

lemma find_entry_locate:
  "find_entry addr b = locate addr (map (\<lambda>e. (lo e, hi e)) (address_list b))"
  by (simp add: find_entry_def locate_def takeWhile_map comp_def Let_def takeWhile_pred_less)

definition ranges_disjoint :: "bus_error_list \<Rightarrow> bool" where
  "ranges_disjoint b \<longleftrightarrow> (\<forall>j < length (address_list b). \<forall>i < j. hi (address_list b ! i) < lo (address_list b ! j))"

lemma find_entry_complete:
  assumes inv: "bel_inv b" and dis: "ranges_disjoint b" and k: "k < length (address_list b)"
    and inside: "lo (address_list b ! k) \<le> addr" "addr \<le> hi (address_list b ! k)"
  shows "find_entry addr b = Some k"
proof -
  let ?xs = "address_list b"
  have "takeWhile (\<lambda>e. \<not> addr < lo e) ?xs = take (Suc k) ?xs"
  proof (rule takeWhile_eq_take_P_nth)
    fix i assume "i < Suc k" "i < length ?xs"
    then have "map lo ?xs ! i \<le> map lo ?xs ! k"
      using inv k by (intro sorted_nth_mono) (auto simp: bel_inv_def)
    then show "\<not> addr < lo (?xs ! i)"
      using \<open>i < length ?xs\<close> k inside by simp
  next
    assume "Suc k < length ?xs"
    then have "hi (?xs ! k) < lo (?xs ! Suc k)"
      using dis by (simp add: ranges_disjoint_def)
    then show "\<not> \<not> addr < lo (?xs ! Suc k)"
      using inside by auto
  qed
  then show ?thesis
    using k inside by (simp add: find_entry_def Let_def)
qed

section \<open>Sequences of accesses\<close>

lemma incr_count_entry:
  assumes "bel_inv b" and "find_entry addr b = Some i" and "idx < n_types b"
  shows "find_entry addr' (fst (incr_count addr idx a b)) = find_entry addr' b"
    and "bel_inv (fst (incr_count addr idx a b))"
    and "pattern_mode idx' (fst (incr_count addr idx a b)) = pattern_mode idx' b"
    and "thresholds (fst (incr_count addr idx a b)) = thresholds b"
    and "pattern_normal_count (fst (incr_count addr idx a b)) = pattern_normal_count b"
    and "pattern_error_count (fst (incr_count addr idx a b)) = pattern_error_count b"
    and "n_types (fst (incr_count addr idx a b)) = n_types b"
proof -
  let ?b = "fst (incr_count addr idx a b)"
  have i: "i < length (address_list b)"
    using assms(2) by (rule find_entry_sound)
  have lh: "map (\<lambda>e. (lo e, hi e)) (address_list ?b) = map (\<lambda>e. (lo e, hi e)) (address_list b)"
    using i assms by (auto simp: incr_count_def Let_def map_update list_update_same_conv)
  then show "find_entry addr' ?b = find_entry addr' b"
    by (simp add: find_entry_locate)
  have los: "map lo (address_list ?b) = map lo (address_list b)"
    using arg_cong [OF lh, of "map fst"] by (simp add: comp_def)
  have keep: "n_types ?b = n_types b" "thresholds ?b = thresholds b"
    "pattern_normal_count ?b = pattern_normal_count b" "pattern_error_count ?b = pattern_error_count b"
    using assms by (auto simp: incr_count_def Let_def)
  then show "n_types ?b = n_types b" "thresholds ?b = thresholds b"
    "pattern_normal_count ?b = pattern_normal_count b" "pattern_error_count ?b = pattern_error_count b"
    "pattern_mode idx' ?b = pattern_mode idx' b"
    by (auto simp: pattern_mode_def)
  have "list_all (entry_wf (n_types b)) (address_list ?b)"
    using assms i by (auto simp: incr_count_def Let_def bel_inv_def list_all_length entry_wf_def nth_list_update)
  then show "bel_inv ?b"
    using assms los keep by (simp add: bel_inv_def)
qed

lemma incr_count_value:
  assumes "bel_inv b" and "find_entry addr b = Some i" and "idx < n_types b"
  shows "pattern_mode idx b \<Longrightarrow> pattern_positions (address_list (fst (incr_count addr idx a b)) ! i) ! idx =
      pattern_positions (address_list b ! i) ! idx + a"
    and "\<not> pattern_mode idx b \<Longrightarrow> counters (address_list (fst (incr_count addr idx a b)) ! i) ! idx =
      counters (address_list b ! i) ! idx + a"
  using assms find_entry_sound(1) [OF assms(2)]
  by (auto simp: incr_count_def Let_def bel_inv_def list_all_length entry_wf_def)

text \<open>
  One access of the bus engines consults the list and then advances it when the
  address is listed.
\<close>

definition access :: "u64 \<Rightarrow> nat \<Rightarrow> bus_error_list \<Rightarrow> (bool \<times> bus_error_list) option" where
  "access addr idx b = do {
     inject \<leftarrow> check_inject_error addr idx b;
     Some (inject, if find_addr addr b then fst (incr_count addr idx 1 b) else b)
   }"

fun accesses :: "(u64 \<times> nat) list \<Rightarrow> bus_error_list \<Rightarrow> (bool list \<times> bus_error_list) option" where
  "accesses [] b = Some ([], b)"
| "accesses ((addr, idx) # as) b = do {
     (v, b1) \<leftarrow> access addr idx b;
     (vs, b2) \<leftarrow> accesses as b1;
     Some (v # vs, b2)
   }"

lemma accesses_snoc:
  "accesses as b = Some (vs, b1) \<Longrightarrow> access addr idx b1 = Some (v, b2) \<Longrightarrow> accesses (as @ [(addr, idx)]) b = Some (vs @ [v], b2)"
  by (induction as b arbitrary: vs rule: accesses.induct) (auto simp: bind_eq_Some_conv)

text \<open>The accesses of type \<^verbatim>\<open>idx\<close> that the lookup sends to entry \<^verbatim>\<open>i\<close>, and the answer to the access after \<^verbatim>\<open>n\<close> of them.\<close>

definition bel_hits :: "bus_error_list \<Rightarrow> nat \<Rightarrow> nat \<Rightarrow> (u64 \<times> nat) list \<Rightarrow> nat" where
  "bel_hits b i idx as = length (filter (\<lambda>(a, t). t = idx \<and> find_entry a b = Some i) as)"

definition bel_verdict :: "bus_error_list \<Rightarrow> nat \<Rightarrow> nat \<Rightarrow> bool" where
  "bel_verdict b idx n =
     (if pattern_mode idx b
      then unat (pattern_normal_count b ! idx) \<le> n mod (unat (pattern_normal_count b ! idx) + unat (pattern_error_count b ! idx))
      else n < unat (thresholds b ! idx))"

definition bel_answer :: "bus_error_list \<Rightarrow> (u64 \<times> nat) list \<Rightarrow> u64 \<times> nat \<Rightarrow> bool" where
  "bel_answer b before = (\<lambda>(addr, idx). case find_entry addr b of None \<Rightarrow> False | Some i \<Rightarrow> bel_verdict b idx (bel_hits b i idx before))"

definition fresh_counts :: "bus_error_list \<Rightarrow> bool" where
  "fresh_counts b \<longleftrightarrow> (\<forall>e \<in> set (address_list b). counters e = replicate (n_types b) 0 \<and> pattern_positions e = replicate (n_types b) 0)"

lemma fresh_counts_new: "fresh_counts (bus_error_list_new N)"
  by (simp add: fresh_counts_def bus_error_list_new_def)

lemma fresh_counts_insert: "fresh_counts b \<Longrightarrow> fresh_counts (insert_range l h b)"
  by (auto simp: fresh_counts_def insert_range_def Let_def dest: in_set_takeD in_set_dropD)

lemma fresh_counts_parse: "fresh_counts b \<Longrightarrow> fresh_counts (parse_ranges input b)"
  unfolding parse_ranges_def
  by (rule fold_invariant [where Q = "\<lambda>_. True"])
    (auto simp: parse_token_def Let_def fresh_counts_insert split: prod.splits option.splits)

lemma fresh_counts_set_pattern: "fresh_counts b \<Longrightarrow> fresh_counts (set_pattern idx p b)"
  by (simp add: set_pattern_def Let_def fresh_counts_def split: prod.splits option.splits)

definition bel_position :: "bus_error_list \<Rightarrow> nat \<Rightarrow> nat \<Rightarrow> u64" where
  "bel_position b i idx =
     (if pattern_mode idx b then pattern_positions (address_list b ! i) ! idx else counters (address_list b ! i) ! idx)"

definition bel_counted :: "bus_error_list \<Rightarrow> (u64 \<times> nat) list \<Rightarrow> bus_error_list \<Rightarrow> bool" where
  "bel_counted b as b' \<longleftrightarrow> bel_inv b' \<and> n_types b' = n_types b \<and> thresholds b' = thresholds b \<and>
     pattern_normal_count b' = pattern_normal_count b \<and> pattern_error_count b' = pattern_error_count b \<and>
     (\<forall>a. find_entry a b' = find_entry a b) \<and>
     length (address_list b') = length (address_list b) \<and>
     (\<forall>i < length (address_list b). \<forall>idx < n_types b. bel_position b' i idx = of_nat (bel_hits b i idx as))"

lemma bel_counted_mode: "bel_counted b as b' \<Longrightarrow> pattern_mode idx b' = pattern_mode idx b"
  by (simp add: bel_counted_def pattern_mode_def)

lemma incr_position:
  assumes "bel_inv b" and "find_entry addr b = Some k" and "idx < n_types b" and "i < length (address_list b)" and "t < n_types b"
  shows "bel_position (fst (incr_count addr idx 1 b)) i t = bel_position b i t + (if i = k \<and> t = idx then 1 else 0)"
proof -
  let ?e = "address_list b ! k"
  have len: "length (counters ?e) = n_types b" "length (pattern_positions ?e) = n_types b" "k < length (address_list b)"
    using assms(1) find_entry_sound(1) [OF assms(2)] by (auto simp: bel_inv_def list_all_length entry_wf_def)
  note mode = incr_count_entry(3) [OF assms(1-3), where a = 1]
  show ?thesis
  proof (cases "i = k")
    case False
    then have "address_list (fst (incr_count addr idx 1 b)) ! i = address_list b ! i"
      using assms(2,3) by (simp add: incr_count_def Let_def)
    then show ?thesis
      using False by (simp add: bel_position_def mode)
  next
    case True
    then have "address_list (fst (incr_count addr idx 1 b)) ! i =
      (if pattern_mode idx b then ?e\<lparr> pattern_positions := (pattern_positions ?e)[idx := pattern_positions ?e ! idx + 1] \<rparr>
       else ?e\<lparr> counters := (counters ?e)[idx := counters ?e ! idx + 1] \<rparr>)"
      using assms(2,3) len(3) by (simp add: incr_count_def Let_def)
    then show ?thesis
      using True assms(3,5) len(1,2) by (cases "t = idx"; cases "pattern_mode idx b") (simp_all add: bel_position_def mode)
  qed
qed

lemma incr_length: "length (address_list (fst (incr_count addr idx a b))) = length (address_list b)"
  by (simp add: incr_count_def Let_def split: option.split)

lemma bel_hits_snoc:
  "bel_hits b i t (as @ [(addr, idx)]) = bel_hits b i t as + (if t = idx \<and> find_entry addr b = Some i then 1 else 0)"
  by (auto simp: bel_hits_def)

lemma access_counted:
  assumes c: "bel_counted b as b'" and idx: "idx < n_types b"
    and sum: "unat (pattern_normal_count b ! idx) + unat (pattern_error_count b ! idx) < 2 ^ 64" and n: "length as < 2 ^ 64"
  shows "\<exists>b''. access addr idx b' = Some (bel_answer b as (addr, idx), b'') \<and>
    bel_counted b (as @ [(addr, idx)]) b''"
proof (cases "find_entry addr b")
  case None
  then have "access addr idx b' = Some (False, b')"
    using c by (simp add: access_def check_inject_error_def find_addr_def bel_counted_def)
  moreover have "bel_counted b (as @ [(addr, idx)]) b'"
    using c None by (simp add: bel_counted_def bel_hits_snoc)
  ultimately show ?thesis
    using None by (simp add: bel_answer_def)
next
  case (Some k)
  let ?b = "fst (incr_count addr idx 1 b')" and ?n = "pattern_normal_count b ! idx" and ?e = "pattern_error_count b ! idx"
  have k: "find_entry addr b' = Some k" "bel_inv b'" "idx < n_types b'" "k < length (address_list b)"
    using c Some idx find_entry_sound(1) [OF Some] by (auto simp: bel_counted_def)
  have pos: "bel_position b' k idx = of_nat (bel_hits b k idx as)"
    using c k(4) idx by (simp add: bel_counted_def)
  have "bel_hits b k idx as \<le> length as"
    by (simp add: bel_hits_def)
  then have u: "unat (of_nat (bel_hits b k idx as) :: u64) = bel_hits b k idx as"
    using n by (intro unat_of_nat_less) simp
  have total: "unat (?n + ?e) = unat ?n + unat ?e"
    using sum by (intro unat_add_less) simp
  have nz: "?n + ?e \<noteq> 0" if "pattern_mode idx b"
  proof -
    have "0 < unat ?n"
      using that by (simp add: pattern_mode_def word_less_nat_alt)
    then show ?thesis
      using total by (metis add_gr_0 less_irrefl unsigned_0)
  qed
  have "check_inject_error addr idx b' = Some (bel_verdict b idx (bel_hits b k idx as))"
  proof (cases "pattern_mode idx b")
    case True
    then have "pattern_positions (address_list b' ! k) ! idx = of_nat (bel_hits b k idx as)"
      using pos bel_counted_mode [OF c] by (simp add: bel_position_def)
    then show ?thesis
      using True nz k(1,3) c bel_counted_mode [OF c]
      by (simp add: check_inject_error_def bel_verdict_def bel_counted_def Let_def word_le_nat_alt unat_mod_distrib total u)
  next
    case False
    then have "counters (address_list b' ! k) ! idx = of_nat (bel_hits b k idx as)"
      using pos bel_counted_mode [OF c] by (simp add: bel_position_def)
    then show ?thesis
      using False k(1,3) c bel_counted_mode [OF c]
      by (simp add: check_inject_error_def is_count_below_threshold_def bel_verdict_def bel_counted_def word_less_nat_alt u)
  qed
  then have "access addr idx b' = Some (bel_verdict b idx (bel_hits b k idx as), ?b)"
    using k(1) by (simp add: access_def find_addr_def)
  moreover have "bel_counted b (as @ [(addr, idx)]) ?b"
    using c incr_count_entry [OF k(2,1,3), where a = 1] incr_position [OF k(2,1,3)] k(4)
    by (auto simp: bel_counted_def bel_hits_snoc Some incr_length)
  ultimately show ?thesis
    using Some by (simp add: bel_answer_def)
qed

section \<open>Properties\<close>

text \<open>
  C27: when the configured ranges are disjoint, looking an address up finds it exactly
  when some configured range contains it, so the binary search over the sorted list
  loses no range.
\<close>

theorem find_addr_complete:
  assumes "bel_inv b" and "ranges_disjoint b"
  shows "find_addr addr b \<longleftrightarrow> (\<exists>e \<in> set (address_list b). lo e \<le> addr \<and> addr \<le> hi e)"
proof
  assume "find_addr addr b"
  then obtain i where "find_entry addr b = Some i"
    by (auto simp: find_addr_def)
  from find_entry_sound [OF this] show "\<exists>e \<in> set (address_list b). lo e \<le> addr \<and> addr \<le> hi e"
    by (meson nth_mem)
next
  assume "\<exists>e \<in> set (address_list b). lo e \<le> addr \<and> addr \<le> hi e"
  then obtain k where "k < length (address_list b)" "lo (address_list b ! k) \<le> addr" "addr \<le> hi (address_list b ! k)"
    by (auto simp: in_set_conv_nth)
  from find_entry_complete [OF assms this] show "find_addr addr b"
    by (simp add: find_addr_def)
qed

theorem find_addr_complete_witness:
  "find_addr 0x2010 (parse_ranges ''0x3000-0x3fff, 0x2000-0x20ff'' (bus_error_list_new 2))"
proof -
  let ?b = "parse_ranges ''0x3000-0x3fff, 0x2000-0x20ff'' (bus_error_list_new 2)"
  have l: "map (\<lambda>e. (lo e, hi e)) (address_list ?b) = [(0x2000, 0x20ff), (0x3000, 0x3fff)]"
    by code_simp
  then have len: "length (address_list ?b) = 2"
    using map_eq_imp_length_eq by fastforce
  have "lo (address_list ?b ! 0) = 0x2000" "hi (address_list ?b ! 0) = 0x20ff" "lo (address_list ?b ! 1) = 0x3000"
    using arg_cong [OF l, of "\<lambda>ps. ps ! 0"] arg_cong [OF l, of "\<lambda>ps. ps ! 1"] len by auto
  moreover from this have "ranges_disjoint ?b"
    by (auto simp: ranges_disjoint_def len less_2_cases_iff)
  moreover have "address_list ?b ! 0 \<in> set (address_list ?b)"
    using len by simp
  ultimately show ?thesis
    using find_addr_complete [OF bel_inv_parse [OF bel_inv_new]] by fastforce
qed

text \<open>
  With overlapping ranges the lookup misses addresses that are listed: after the range
  0x0-0xff and the nested range 0x10-0x1f, the address 0x50 is not found although the
  first range contains it.
\<close>

lemma find_addr_misses_nested:
  "let b = insert_range 0x10 0x1f (insert_range 0 0xff (bus_error_list_new 2)) in
     \<not> find_addr 0x50 b \<and> (\<exists>e \<in> set (address_list b). lo e \<le> 0x50 \<and> 0x50 \<le> hi e)"
  by code_simp



text \<open>
  A pattern with a negative count is accepted, and one whose counts cancel makes the
  next lookup of a listed address divide by zero.
\<close>

lemma negative_pattern_divides_by_zero:
  "check_inject_error 0x1008 0 (set_pattern 0 ''1:-1'' (parse_ranges ''0x1000'' (bus_error_list_new 2))) = None"
  by code_simp

end
