(* ===== verification/Bytes.thy ===== *)
theory Bytes
  imports Prelude
begin

text \<open>
  The byte codecs \<^verbatim>\<open>serializeInt\<close> and \<^verbatim>\<open>deserializeInt\<close> that every memory mapped device of
  the platform carries, and their round trip.
\<close>

section \<open>Model\<close>

fun serialize_loop :: "'a::len word \<Rightarrow> nat \<Rightarrow> nat \<Rightarrow> data_t \<Rightarrow> data_t option" where
  "serialize_loop x i 0 data = Some data"
| "serialize_loop x i (Suc k) data = do {
     data' \<leftarrow> vec_set data i (ucast (x AND 0xff));
     serialize_loop (drop_bit 8 x) (Suc i) k data'
   }"

definition serializeInt :: "'a::len word \<Rightarrow> nat \<Rightarrow> data_t \<Rightarrow> data_t option" where
  "serializeInt x n data = serialize_loop x 0 n data"

fun deserialize_loop :: "data_t \<Rightarrow> nat \<Rightarrow> nat \<Rightarrow> 'a::len word \<Rightarrow> 'a word option" where
  "deserialize_loop data i 0 x = Some x"
| "deserialize_loop data i (Suc k) x = do {
     b \<leftarrow> vec_get data i;
     deserialize_loop data (Suc i) k (x OR push_bit (8 * i) (ucast b))
   }"

definition deserializeInt :: "data_t \<Rightarrow> 'a::len word option" where
  "deserializeInt data = deserialize_loop data 0 (LENGTH('a) div 8) 0"

section \<open>Closed forms\<close>

definition byte_of :: "'a::len word \<Rightarrow> nat \<Rightarrow> u8" where
  "byte_of x i = ucast (drop_bit (8 * i) x)"

lemma serialize_loop_eq:
  "i + k \<le> length data \<Longrightarrow>
   serialize_loop x i k data = Some (take i data @ map (byte_of x) [0..<k] @ drop (i + k) data)"
proof (induction k arbitrary: x i data)
  case 0
  then show ?case
    by simp
next
  case (Suc k)
  have m: "(0xff :: 'a word) = mask 8"
    by (simp add: mask_eq_exp_minus_1)
  have byte: "ucast (x AND 0xff) = byte_of x 0"
    unfolding m by (auto intro!: bit_word_eqI simp: byte_of_def bit_simps dest: bit_imp_le_length)
  have shift: "map (byte_of (drop_bit 8 x)) [0..<k] = map (byte_of x) [Suc 0..<Suc k]"
    by (rule nth_equalityI) (auto simp: byte_of_def algebra_simps simp del: upt_Suc)
  have upt: "[0..<Suc k] = 0 # [Suc 0..<Suc k]"
    by (rule upt_conv_Cons) simp
  show ?case
    using Suc by (simp add: byte shift upt take_Suc_conv_app_nth del: upt_Suc)
qed

lemma serializeInt_eq [byte_simps]:
  "n \<le> length data \<Longrightarrow> serializeInt x n data = Some (map (byte_of x) [0..<n] @ drop n data)"
  by (simp add: serializeInt_def serialize_loop_eq)

lemma bit_deserialize_loop:
  assumes "i + k \<le> length data"
  shows "\<exists>y. deserialize_loop data i k (x :: 'a::len word) = Some y \<and>
    (\<forall>j. bit y j = (bit x j \<or> (8 * i \<le> j \<and> j < 8 * (i + k) \<and> j < LENGTH('a) \<and> bit (data ! (j div 8)) (j mod 8))))"
  using assms
proof (induction k arbitrary: x i)
  case 0
  then show ?case
    by auto
next
  case (Suc k)
  let ?in = "\<lambda>lo hi j. 8 * lo \<le> j \<and> j < 8 * hi \<and> j < LENGTH('a) \<and> bit (data ! (j div 8)) (j mod 8)"
  let ?x = "x OR push_bit (8 * i) (ucast (data ! i))"
  have bx: "bit ?x j = (bit x j \<or> ?in i (Suc i) j)" for j
  proof (cases "8 * i \<le> j \<and> j < 8 * Suc i")
    case True
    then have q: "j div 8 = i"
      by auto
    then have "j mod 8 = j - 8 * i"
      by (simp add: minus_mult_div_eq_mod [symmetric])
    with True q show ?thesis
      by (simp add: bit_simps) linarith
  next
    case False
    then show ?thesis
      by (auto simp: bit_simps dest!: bit_imp_le_length)
  qed
  from Suc.IH [of "Suc i" ?x] Suc.prems obtain y where
    y: "deserialize_loop data (Suc i) k ?x = Some y"
      "\<And>j. bit y j = (bit ?x j \<or> ?in (Suc i) (Suc i + k) j)"
    by fastforce
  have "(?in i (Suc i) j \<or> ?in (Suc i) (Suc i + k) j) = ?in i (i + Suc k) j" for j
    by auto
  then have "bit y j = (bit x j \<or> ?in i (i + Suc k) j)" for j
    using y(2) [of j] bx [of j] by blast
  moreover have "deserialize_loop data i (Suc k) x = Some y"
    using y(1) Suc.prems by simp
  ultimately show ?case
    by blast
qed

lemma bit_byte_of: "bit (byte_of x i) j \<longleftrightarrow> j < 8 \<and> bit x (8 * i + j)"
  by (auto simp: byte_of_def bit_simps dest: bit_imp_le_length)

lemma deserializeInt_None:
  "length data < LENGTH('a::len) div 8 \<Longrightarrow> (deserializeInt data :: 'a word option) = None"
proof -
  have "i \<le> length data \<Longrightarrow> length data < i + k \<Longrightarrow> deserialize_loop data i k (x :: 'a word) = None" for i k x
    by (induction k arbitrary: i x) (auto simp: vec_get_def)
  then show "length data < LENGTH('a) div 8 \<Longrightarrow> ?thesis"
    by (simp add: deserializeInt_def)
qed

lemma deserializeInt_eqI:
  fixes x :: "'a::len word"
  assumes "8 dvd LENGTH('a)" and "LENGTH('a) div 8 \<le> length data"
    and bytes: "\<And>i. i < LENGTH('a) div 8 \<Longrightarrow> data ! i = byte_of x i"
  shows "deserializeInt data = Some x"
proof -
  from bit_deserialize_loop [of 0 "LENGTH('a) div 8" data 0] assms(2) obtain y :: "'a word" where
    y: "deserializeInt data = Some y" and
    bits: "\<And>j. bit y j = (j < 8 * (LENGTH('a) div 8) \<and> j < LENGTH('a) \<and> bit (data ! (j div 8)) (j mod 8))"
    by (auto simp: deserializeInt_def)
  have "y = x"
  proof (rule bit_word_eqI)
    fix j assume j: "j < LENGTH('a)"
    with assms(1) have "j div 8 < LENGTH('a) div 8"
      by (auto simp: dvd_def)
    with j show "bit y j = bit x j"
      using assms(1) by (simp add: bits bytes bit_byte_of)
  qed
  with y show ?thesis
    by simp
qed

lemma deserializeInt_Some:
  assumes "LENGTH('a::len) div 8 \<le> length data"
  shows "\<exists>y :: 'a word. deserializeInt data = Some y"
  using bit_deserialize_loop [of 0 "LENGTH('a) div 8" data "0 :: 'a word"] assms
  by (auto simp: deserializeInt_def)

lemma deserializeInt_bytes [byte_simps]:
  fixes x :: "'a::len word"
  assumes "8 dvd LENGTH('a)" and "LENGTH('a) div 8 \<le> n"
  shows "deserializeInt (map (byte_of x) [0..<n] @ ys) = Some x"
  using assms by (intro deserializeInt_eqI) (auto simp: nth_append)

lemma deserializeInt_nth:
  fixes x :: "'a::len word"
  assumes d: "deserializeInt data = Some x" and "8 dvd LENGTH('a)" and i: "i < LENGTH('a) div 8"
  shows "byte_of x i = data ! i"
proof -
  have len: "LENGTH('a) div 8 \<le> length data"
    using d deserializeInt_None [of data, where 'a = 'a] by (cases "LENGTH('a) div 8 \<le> length data") auto
  from bit_deserialize_loop [of 0 "LENGTH('a) div 8" data "0 :: 'a word"] len d have
    bits: "\<And>j. bit x j = (j < 8 * (LENGTH('a) div 8) \<and> j < LENGTH('a) \<and> bit (data ! (j div 8)) (j mod 8))"
    by (auto simp: deserializeInt_def)
  have "8 * i + j < 8 * (LENGTH('a) div 8)" if "j < 8" for j
    using that i by simp
  then show ?thesis
    using assms(2) by (intro bit_word_eqI) (simp add: bit_byte_of bits)
qed

lemma bytes_of_deserializeInt:
  fixes x :: "'a::len word"
  assumes "deserializeInt data = Some x" and "8 dvd LENGTH('a)" and "n = LENGTH('a) div 8"
  shows "map (byte_of x) [0..<n] = take n data"
proof (rule nth_equalityI)
  have "n \<le> length data"
    using assms deserializeInt_None [of data, where 'a = 'a] by (cases "n \<le> length data") auto
  then show "length (map (byte_of x) [0..<n]) = length (take n data)"
    by simp
qed (use assms in \<open>simp add: deserializeInt_nth\<close>)

section \<open>Properties\<close>

text \<open>
  C37: an integer that a device serialises into a buffer of at least its size is read
  back unchanged, and no byte past the requested length is touched.
\<close>

theorem serialize_roundtrip:
  fixes x :: "'a::len word"
  assumes "8 dvd LENGTH('a)" and "LENGTH('a) div 8 \<le> n" and "n \<le> length data"
  shows "\<exists>data'. serializeInt x n data = Some data' \<and> deserializeInt data' = Some x \<and>
    length data' = length data \<and> drop n data' = drop n data"
  using assms by (simp add: byte_simps)

theorem serialize_roundtrip_witness:
  "\<exists>data'. serializeInt (0x1122334455667788 :: u64) 8 (replicate 10 7) = Some data' \<and>
     deserializeInt data' = Some (0x1122334455667788 :: u64) \<and> drop 8 data' = [7, 7]"
proof -
  have "drop 8 (replicate 10 7) = [7 :: u8, 7]"
    by code_simp
  then show ?thesis
    using serialize_roundtrip [of 8 "replicate 10 7" "0x1122334455667788 :: u64"] by auto
qed

end
