(* ===== verification/Axi.thy ===== *)
theory Axi
  imports Eam BusErrorList Bytes
begin

text \<open>
  The AXI subordinate of \<^verbatim>\<open>transactors/axi_sw/axi.cpp\<close> and its base class in
  \<^verbatim>\<open>common/transactor.h\<close>: address and write data queues are drained burst by burst,
  every beat is turned into a read or a write of the platform behind the transactor,
  and the responses are queued.  The platform is the environment argument; a
  request that is never answered is \<^const>\<open>None\<close>, since the coroutine then waits forever.
\<close>

section \<open>The transactor\<close>

record 'e axi_env =
  ev_flags :: eam_flags
  ev_map :: device_address_map
  ev_inputs :: "'e \<Rightarrow> eam_inputs \<times> 'e"
  ev_read :: "read_t \<Rightarrow> 'e \<Rightarrow> (read_response_t \<times> 'e) option"
  ev_write :: "write_t \<Rightarrow> 'e \<Rightarrow> (write_response_t \<times> 'e) option"

record axi =
  data_width :: u32
  tr_id :: u32
  a_q :: "a_t list"
  w_q :: "w_t list"
  r_q :: "r_t list"
  b_q :: "b_t list"
  hang_list :: bus_error_list
  slverr_list :: bus_error_list
  decerr_list :: bus_error_list
  num_slverr_resp :: int
  num_decerr_resp :: int
  error_en :: bool
  burst_active :: bool
  device_accesses_in_flight :: int

datatype axi_error = Monitor_error eam_error | W_last_error u64

record 'e bus =
  ax :: axi
  mon :: eam
  env :: 'e
  errors :: "axi_error list"

definition transactor_read :: "'e axi_env \<Rightarrow> u64 \<Rightarrow> nat \<Rightarrow> 'e bus \<Rightarrow> (read_response_t \<times> 'e bus) option" where
  "transactor_read E addr len s =
     (let i = tr_id (ax s) + 1 in do {
        (r, e) \<leftarrow> ev_read E \<lparr> rd_id = i, rd_addr = addr, rd_length = len \<rparr> (env s);
        if rr_id r = i then Some (r, s\<lparr> ax := (ax s)\<lparr> tr_id := i \<rparr>, env := e \<rparr>) else None
      })"

definition transactor_write :: "'e axi_env \<Rightarrow> u64 \<Rightarrow> nat \<Rightarrow> data_t \<Rightarrow> strb_t \<Rightarrow> 'e bus \<Rightarrow> (write_response_t \<times> 'e bus) option" where
  "transactor_write E addr len data strb s =
     (let i = tr_id (ax s) + 1 in do {
        (w, e) \<leftarrow> ev_write E \<lparr> wr_addr = addr, wr_length = len, wr_data = data, wr_strb = strb, wr_id = i \<rparr> (env s);
        if wp_id w = i then Some (w, s\<lparr> ax := (ax s)\<lparr> tr_id := i \<rparr>, env := e \<rparr>) else None
      })"

section \<open>Atomic operations\<close>

text \<open>
  The bytes of the operands are gathered and scattered least significant byte first,
  as by the loops of \<^theory_text>\<open>Bytes\<close>; the signed instances of the template differ in the
  comparison only.
\<close>

definition arith_less :: "bool \<Rightarrow> 'a::len word \<Rightarrow> 'a word \<Rightarrow> bool" where
  "arith_less is_signed x y = (if is_signed then sint x < sint y else x < y)"

definition arith_result :: "bool \<Rightarrow> atop_operation \<Rightarrow> 'a::len word \<Rightarrow> 'a word \<Rightarrow> 'a word option" where
  "arith_result is_signed op rd wr =
     (if op = ATOP_SMAX \<or> op = ATOP_UMAX then Some (if arith_less is_signed rd wr then wr else rd)
      else if op = ATOP_SMIN \<or> op = ATOP_UMIN then Some (if arith_less is_signed wr rd then wr else rd)
      else if op = ATOP_ADD then Some (rd + wr)
      else None)"

definition atop_arithmetic :: "'a::len itself \<Rightarrow> bool \<Rightarrow> data_t \<Rightarrow> data_t \<Rightarrow> atop_operation \<Rightarrow> nat \<Rightarrow> data_t option" where
  "atop_arithmetic T is_signed read_data write_data op len = do {
     rd \<leftarrow> (deserialize_loop read_data 0 len 0 :: 'a word option);
     wr \<leftarrow> deserialize_loop write_data 0 len 0;
     result \<leftarrow> arith_result is_signed op rd wr;
     serialize_loop result 0 len write_data
   }"

definition bitwise_byte :: "atop_operation \<Rightarrow> u8 \<Rightarrow> u8 \<Rightarrow> u8 option" where
  "bitwise_byte op rd wr = (case op of
     ATOP_CLR \<Rightarrow> Some (rd AND NOT wr)
   | ATOP_EOR \<Rightarrow> Some (rd XOR wr)
   | ATOP_SET \<Rightarrow> Some (rd OR wr)
   | _ \<Rightarrow> None)"

fun bitwise_loop :: "atop_operation \<Rightarrow> data_t \<Rightarrow> nat \<Rightarrow> nat \<Rightarrow> data_t \<Rightarrow> data_t option" where
  "bitwise_loop op read_data i 0 write_data = Some write_data"
| "bitwise_loop op read_data i (Suc k) write_data = do {
     rd \<leftarrow> vec_get read_data i;
     wr \<leftarrow> vec_get write_data i;
     b \<leftarrow> bitwise_byte op rd wr;
     bitwise_loop op read_data (Suc i) k (write_data[i := b])
   }"

definition atop_modify_write_data :: "atop_t \<Rightarrow> data_t \<Rightarrow> data_t \<Rightarrow> u8 \<Rightarrow> data_t option" where
  "atop_modify_write_data atop read_data write_data len =
     (if transaction atop = NON_ATOMIC then Some write_data
      else if transaction atop = ATOMIC_SWAP then Some write_data
      else if transaction atop = ATOMIC_COMPARE then None
      else let op = operation atop; is_signed = (op = ATOP_SMIN \<or> op = ATOP_SMAX) in
        if \<not> (op = ATOP_CLR \<or> op = ATOP_EOR \<or> op = ATOP_SET) then
          if len = 1 then atop_arithmetic TYPE(8) is_signed read_data write_data op 1
          else if len = 2 then atop_arithmetic TYPE(16) is_signed read_data write_data op 2
          else if len = 4 then atop_arithmetic TYPE(32) is_signed read_data write_data op 4
          else if len = 8 then atop_arithmetic TYPE(64) is_signed read_data write_data op 8
          else None
        else bitwise_loop op read_data 0 (unat len) write_data)"

definition atop_compare_write_data :: "data_t \<Rightarrow> data_t \<Rightarrow> strb_t \<Rightarrow> nat \<Rightarrow> nat \<Rightarrow> (bool \<times> data_t \<times> data_t \<times> strb_t) option" where
  "atop_compare_write_data read_data write_data write_strb op_bytes swap_index =
     (if length read_data < op_bytes \<or> length write_data < op_bytes then None
      else let match = (take op_bytes read_data = take op_bytes write_data) in
        if match \<and> length write_data < swap_index + op_bytes then None
        else Some (match,
          take op_bytes read_data @ replicate (length read_data - op_bytes) 0,
          if match then take op_bytes (drop swap_index write_data) @ drop op_bytes write_data else write_data,
          map (\<lambda>(i, b). match \<and> i < op_bytes \<and> b) (enumerate 0 write_strb)))"

section \<open>Error lists\<close>

definition READ :: nat where
  "READ = 0"

definition WRITE :: nat where
  "WRITE = 1"

record axi_flags =
  resp_slverr_addr :: string
  resp_decerr_addr :: string
  resp_hang_addr :: string
  resp_slverr_threshold :: int
  resp_decerr_threshold :: int
  resp_slverr_pattern :: string
  resp_decerr_pattern :: string
  err_after_test_start :: bool
  bypass_axi_hang :: bool

definition axi_flags_default :: axi_flags where
  "axi_flags_default = \<lparr> resp_slverr_addr = [], resp_decerr_addr = [], resp_hang_addr = [],
     resp_slverr_threshold = 2, resp_decerr_threshold = 2, resp_slverr_pattern = [], resp_decerr_pattern = [],
     err_after_test_start = False, bypass_axi_hang = False \<rparr>"

definition setup_list :: "string \<Rightarrow> int \<Rightarrow> string \<Rightarrow> bus_error_list \<Rightarrow> bus_error_list" where
  "setup_list addrs threshold pat b =
     set_pattern WRITE pat (set_pattern READ pat
       (set_threshold WRITE (word_of_int threshold) (set_threshold READ (word_of_int threshold)
         (parse_ranges addrs b))))"

definition setup_error_lists :: "axi_flags \<Rightarrow> axi \<Rightarrow> axi" where
  "setup_error_lists f x = x
     \<lparr> slverr_list := setup_list (resp_slverr_addr f) (resp_slverr_threshold f) (resp_slverr_pattern f) (slverr_list x),
       decerr_list := setup_list (resp_decerr_addr f) (resp_decerr_threshold f) (resp_decerr_pattern f) (decerr_list x) \<rparr>"

definition configure_error :: "axi_flags \<Rightarrow> axi \<Rightarrow> axi" where
  "configure_error f x =
     setup_error_lists f (x\<lparr> slverr_list := bus_error_list_new 2, decerr_list := bus_error_list_new 2 \<rparr>)"

definition enable_error :: "axi \<Rightarrow> axi" where
  "enable_error x = x\<lparr> error_en := True \<rparr>"

definition disable_error :: "axi \<Rightarrow> axi" where
  "disable_error x = x\<lparr> error_en := False \<rparr>"

definition axi_new :: "axi_flags \<Rightarrow> u32 \<Rightarrow> axi" where
  "axi_new f width =
     (let x = \<lparr> data_width = width, tr_id = 0, a_q = [], w_q = [], r_q = [], b_q = [],
           hang_list = bus_error_list_new 0, slverr_list = bus_error_list_new 2,
           decerr_list = bus_error_list_new 2, num_slverr_resp = 0, num_decerr_resp = 0,
           error_en = True, burst_active = False, device_accesses_in_flight = 0 \<rparr>;
          x = (if bypass_axi_hang f then x
               else x\<lparr> hang_list := parse_ranges (resp_hang_addr f) (hang_list x) \<rparr>);
          x = setup_error_lists f x
      in if err_after_test_start f then disable_error x else x)"

definition check_error :: "u64 \<Rightarrow> axi \<Rightarrow> (bool \<times> u64) option" where
  "check_error addr x = do {
     has_slverr \<leftarrow> check_inject_error addr READ (slverr_list x);
     has_decerr \<leftarrow> check_inject_error addr READ (decerr_list x);
     let slverr_count = (case get_count addr READ (slverr_list x) of None \<Rightarrow> 0 | Some c \<Rightarrow> c);
         decerr_count = (case get_count addr READ (decerr_list x) of None \<Rightarrow> 0 | Some c \<Rightarrow> c);
         count = (if 0 < slverr_count then slverr_count else if 0 < decerr_count then decerr_count else 0)
     in Some (error_en x \<and> ((has_slverr \<and> 0 < slverr_count) \<or> (has_decerr \<and> 0 < decerr_count)), count)
   }"

section \<open>Beats\<close>

record geometry =
  g_num_bytes :: u64
  g_aligned_addr :: u64
  g_bus_bytes :: u64
  g_lower_wrap :: u64
  g_upper_wrap :: u64

definition geometry_of :: "axi \<Rightarrow> a_t \<Rightarrow> geometry option" where
  "geometry_of x a =
     (let num_bytes = scast (shl32 1 (unat (a_size a))) :: u64;
          aligned_addr = a_addr a div num_bytes * num_bytes;
          bus_bytes = ucast (data_width x div 8) :: u64;
          dtsize = num_bytes * (ucast (a_len a) + 1);
          lower = (if a_burst a = BURST_WRAP then a_addr a div dtsize * dtsize else 0)
      in if bus_bytes = 0 \<or> (a_burst a = BURST_WRAP \<and> dtsize = 0) then None
         else Some \<lparr> g_num_bytes = num_bytes, g_aligned_addr = aligned_addr, g_bus_bytes = bus_bytes,
           g_lower_wrap = lower, g_upper_wrap = lower + dtsize \<rparr>)"

definition lower_byte_lane :: "geometry \<Rightarrow> u64 \<Rightarrow> u64" where
  "lower_byte_lane g addr = addr - addr div g_bus_bytes g * g_bus_bytes g"

definition upper_byte_lane :: "geometry \<Rightarrow> u64 \<Rightarrow> bool \<Rightarrow> u64" where
  "upper_byte_lane g addr aligned =
     (if aligned then lower_byte_lane g addr + g_num_bytes g - 1
      else g_aligned_addr g + g_num_bytes g - 1 - addr div g_bus_bytes g * g_bus_bytes g)"

definition beat_start :: "geometry \<Rightarrow> u64 \<Rightarrow> u64" where
  "beat_start g addr = addr div g_bus_bytes g * g_bus_bytes g + lower_byte_lane g addr"

definition beat_len :: "geometry \<Rightarrow> u64 \<Rightarrow> bool \<Rightarrow> u64" where
  "beat_len g addr aligned = upper_byte_lane g addr aligned - lower_byte_lane g addr + 1"

definition next_beat :: "geometry \<Rightarrow> burst_t \<Rightarrow> u64 \<Rightarrow> bool \<Rightarrow> u64 \<times> bool" where
  "next_beat g burst addr aligned =
     (if burst = BURST_FIXED then (addr, aligned)
      else if aligned then
        (let addr = addr + g_num_bytes g in
         (if burst = BURST_WRAP \<and> g_upper_wrap g \<le> addr then g_lower_wrap g else addr, True))
      else (g_aligned_addr g + g_num_bytes g, True))"

definition rotate_left :: "nat \<Rightarrow> 'a list \<Rightarrow> 'a list option" where
  "rotate_left n xs = (if n \<le> length xs then Some (drop n xs @ take n xs) else None)"

definition inject :: "bool \<Rightarrow> u64 \<Rightarrow> nat \<Rightarrow> bus_error_list \<Rightarrow> (bool \<times> bus_error_list) option" where
  "inject en addr idx b = do {
     inj \<leftarrow> (if en then check_inject_error addr idx b else Some False);
     if en \<and> find_addr addr b then Some (inj, fst (incr_count addr idx 1 b)) else Some (False, b)
   }"

definition write_operands :: "a_t \<Rightarrow> geometry \<Rightarrow> u64 \<Rightarrow> u64 \<Rightarrow> data_t \<Rightarrow> w_t \<Rightarrow> (data_t \<times> data_t \<times> strb_t) option" where
  "write_operands a g addr len read_data w =
     (let lane = unat (lower_byte_lane g addr); bus_bytes = unat (g_bus_bytes g) in do {
        data \<leftarrow> rotate_left lane (w_data w);
        strb \<leftarrow> rotate_left lane (w_strb w);
        if transaction (a_atop a) = ATOMIC_COMPARE then
          if a_len a = 0 then
            let op_bytes = unat (ucast (g_num_bytes g div 2) :: u8);
                swap_index = (unat (lower_byte_lane g addr XOR of_nat op_bytes) + bus_bytes - lane) mod bus_bytes
            in do {
              (match, rd, wd, st) \<leftarrow> atop_compare_write_data read_data data strb op_bytes swap_index;
              Some (rd, wd, st)
            }
          else None
        else do {
          wd \<leftarrow> atop_modify_write_data (a_atop a) read_data data (ucast len);
          Some (read_data, wd, strb)
        }
      })"

definition write_forward :: "'e axi_env \<Rightarrow> eam_verdict \<Rightarrow> u64 \<Rightarrow> u64 \<Rightarrow> data_t \<Rightarrow> strb_t \<Rightarrow> resp_t \<Rightarrow> 'e bus \<Rightarrow> (resp_t \<times> 'e bus) option" where
  "write_forward E v start len data strb write_resp s =
     (if allow_write v then do {
        (wresp, s) \<leftarrow> transactor_write E start (unat len) data strb s;
        Some (write_resp OR wp_resp wresp, s)
      } else Some (write_resp, s))"

definition inject_both :: "bool \<Rightarrow> u64 \<Rightarrow> nat \<Rightarrow> axi \<Rightarrow> (bool \<times> bool \<times> axi) option" where
  "inject_both is_last addr idx x = do {
     (inj_slverr, sl) \<leftarrow> inject (is_last \<and> error_en x) addr idx (slverr_list x);
     (inj_decerr, dl) \<leftarrow> inject (is_last \<and> error_en x) addr idx (decerr_list x);
     Some (inj_slverr, inj_decerr, x\<lparr> slverr_list := sl, decerr_list := dl,
       num_slverr_resp := num_slverr_resp x + (if inj_slverr then 1 else 0),
       num_decerr_resp := num_decerr_resp x + (if inj_decerr then 1 else 0) \<rparr>)
   }"

definition write_beat :: "'e axi_env \<Rightarrow> a_t \<Rightarrow> eam_verdict \<Rightarrow> geometry \<Rightarrow> u64 \<Rightarrow> bool \<Rightarrow> bool \<Rightarrow> data_t \<Rightarrow>
    resp_t \<Rightarrow> 'e bus \<Rightarrow> (data_t \<times> resp_t \<times> 'e bus) option" where
  "write_beat E a v g addr aligned is_last read_data write_resp s =
     (let start = beat_start g addr; len = beat_len g addr aligned
      in case w_q (ax s) of
        [] \<Rightarrow> None
      | w # q \<Rightarrow> do {
          let s = s\<lparr> ax := (ax s)\<lparr> w_q := q \<rparr>,
                     errors := (if w_last w \<noteq> is_last then errors s @ [W_last_error start] else errors s) \<rparr>;
          (read_data, data, strb) \<leftarrow> write_operands a g addr len read_data w;
          (write_resp, s) \<leftarrow> write_forward E v start len data strb write_resp s;
          (inj_slverr, inj_decerr, x) \<leftarrow> inject_both is_last addr WRITE (ax s);
          Some (read_data,
            write_resp OR (if inj_slverr then RESP_SLVERR else 0) OR (if inj_decerr then RESP_DECERR else 0),
            s\<lparr> ax := x \<rparr>)
        })"

definition read_beat :: "a_t \<Rightarrow> eam_verdict \<Rightarrow> geometry \<Rightarrow> u64 \<Rightarrow> bool \<Rightarrow> data_t \<Rightarrow> resp_t \<Rightarrow> axi \<Rightarrow> axi option" where
  "read_beat a v g addr is_last read_data sysmod_resp x = do {
     data \<leftarrow> rotate_left (unat (g_bus_bytes g - lower_byte_lane g addr)) read_data;
     (inj_slverr, inj_decerr, x) \<leftarrow> inject_both is_last addr READ x;
     let resp = (if override_resp v then v_resp v else sysmod_resp);
         resp = (if inj_slverr then RESP_SLVERR else resp);
         resp = (if inj_decerr then RESP_DECERR else resp)
     in Some (if find_addr addr (hang_list x) then x
              else x\<lparr> r_q := r_q x @ [\<lparr> r_id = a_id a, r_resp = resp, r_data = data, r_last = is_last \<rparr>] \<rparr>)
   }"

definition needs_read :: "a_t \<Rightarrow> bool" where
  "needs_read a \<longleftrightarrow> \<not> a_w a \<or> transaction (a_atop a) \<noteq> NON_ATOMIC"

definition returns_data :: "a_t \<Rightarrow> bool" where
  "returns_data a \<longleftrightarrow> \<not> a_w a \<or> (transaction (a_atop a) \<noteq> NON_ATOMIC \<and> transaction (a_atop a) \<noteq> ATOMIC_STORE)"

definition axi_beat :: "'e axi_env \<Rightarrow> a_t \<Rightarrow> eam_verdict \<Rightarrow> geometry \<Rightarrow> u64 \<Rightarrow> bool \<Rightarrow> bool \<Rightarrow> resp_t \<Rightarrow>
    'e bus \<Rightarrow> (resp_t \<times> 'e bus) option" where
  "axi_beat E a v g addr aligned is_last write_resp s = do {
     (read_data, read_resp, s) \<leftarrow>
       (if needs_read a then do {
          (r, s) \<leftarrow> transactor_read E (beat_start g addr) (unat (beat_len g addr aligned)) s;
          Some (resize (unat (g_bus_bytes g)) 0 (rr_data r), rr_resp r, s)
        } else Some ([], RESP_OKAY, s));
     (read_data, write_resp, s) \<leftarrow>
       (if a_w a then write_beat E a v g addr aligned is_last read_data write_resp s
        else Some (read_data, write_resp, s));
     s \<leftarrow>
       (if returns_data a then do {
          x \<leftarrow> read_beat a v g addr is_last read_data read_resp (ax s);
          Some (s\<lparr> ax := x \<rparr>)
        } else Some s);
     Some (write_resp, s)
   }"

fun axi_beats :: "'e axi_env \<Rightarrow> a_t \<Rightarrow> eam_verdict \<Rightarrow> geometry \<Rightarrow> nat \<Rightarrow> u64 \<Rightarrow> bool \<Rightarrow> resp_t \<Rightarrow>
    'e bus \<Rightarrow> (resp_t \<times> 'e bus) option" where
  "axi_beats E a v g 0 addr aligned write_resp s = Some (write_resp, s)"
| "axi_beats E a v g (Suc k) addr aligned write_resp s = do {
     (write_resp, s) \<leftarrow> axi_beat E a v g addr aligned (k = 0) write_resp s;
     let (addr', aligned') = next_beat g (a_burst a) addr aligned;
     axi_beats E a v g k addr' aligned' write_resp s
   }"

section \<open>Transactions\<close>

definition burst_len :: "a_t \<Rightarrow> nat" where
  "burst_len a = unat (a_len a) + 1"

definition axi_transaction :: "'e axi_env \<Rightarrow> a_t \<Rightarrow> 'e bus \<Rightarrow> 'e bus option" where
  "axi_transaction E a s = do {
     let s = s\<lparr> ax := (ax s)\<lparr> burst_active := True, a_q := tl (a_q (ax s)) \<rparr> \<rparr>;
     let (i, e) = ev_inputs E (env s);
     let (v, errs, m) = on_addr (ev_flags E) (ev_map E) i a (mon s);
     let s = s\<lparr> mon := m, env := e, errors := errors s @ map Monitor_error errs \<rparr>;
     g \<leftarrow> geometry_of (ax s) a;
     (write_resp, s) \<leftarrow> axi_beats E a v g (burst_len a) (a_addr a) (a_addr a = g_aligned_addr g) RESP_OKAY s;
     let write_resp = (if override_resp v \<and> write_resp = RESP_OKAY then v_resp v else write_resp);
     Some (s\<lparr> ax := (ax s)
        \<lparr> b_q := (if a_w a then b_q (ax s) @ [\<lparr> b_id = a_id a, b_resp = write_resp \<rparr>] else b_q (ax s)),
          device_accesses_in_flight :=
            (if a_cache a \<le> DEV_BUF then device_accesses_in_flight (ax s) - 1 else device_accesses_in_flight (ax s)),
          burst_active := False \<rparr> \<rparr>)
   }"

fun axi_drain :: "'e axi_env \<Rightarrow> a_t list \<Rightarrow> 'e bus \<Rightarrow> 'e bus option" where
  "axi_drain E [] s = Some s"
| "axi_drain E (a # q) s =
     (if a_w a \<and> length (w_q (ax s)) < burst_len a then Some s
      else do {
        s' \<leftarrow> axi_transaction E a s;
        axi_drain E q s'
      })"

definition axi_process :: "'e axi_env \<Rightarrow> 'e bus \<Rightarrow> 'e bus option" where
  "axi_process E s = (if burst_active (ax s) then Some s else axi_drain E (a_q (ax s)) s)"

definition axi_a :: "'e axi_env \<Rightarrow> a_t \<Rightarrow> 'e bus \<Rightarrow> 'e bus option" where
  "axi_a E p s = axi_process E (s\<lparr> ax := (ax s)
     \<lparr> device_accesses_in_flight :=
         (if a_cache p \<le> DEV_BUF then device_accesses_in_flight (ax s) + 1 else device_accesses_in_flight (ax s)),
       a_q := a_q (ax s) @ [p] \<rparr> \<rparr>)"

definition axi_w :: "'e axi_env \<Rightarrow> w_t \<Rightarrow> 'e bus \<Rightarrow> 'e bus option" where
  "axi_w E p s = axi_process E (s\<lparr> ax := (ax s)\<lparr> w_q := w_q (ax s) @ [p] \<rparr> \<rparr>)"

definition axi_r :: "axi \<Rightarrow> r_t option \<times> axi" where
  "axi_r x = (case r_q x of [] \<Rightarrow> (None, x) | r # q \<Rightarrow> (Some r, x\<lparr> r_q := q \<rparr>))"

definition axi_b :: "axi \<Rightarrow> b_t option \<times> axi" where
  "axi_b x = (case b_q x of [] \<Rightarrow> (None, x) | b # q \<Rightarrow> (Some b, x\<lparr> b_q := q \<rparr>))"

definition axi_reset :: "axi \<Rightarrow> axi" where
  "axi_reset x = x\<lparr> a_q := [], w_q := [], r_q := [], b_q := [], burst_active := False \<rparr>"

section \<open>What a beat leaves alone\<close>

definition frame :: "axi \<Rightarrow> u32 \<times> a_t list \<times> b_t list \<times> bus_error_list \<times> bool \<times> bool \<times> int" where
  "frame x = (data_width x, a_q x, b_q x, hang_list x, error_en x, burst_active x, device_accesses_in_flight x)"

lemma transactor_read_frame:
  assumes "transactor_read E addr n s = Some (r, s')"
  shows "frame (ax s') = frame (ax s)" "w_q (ax s') = w_q (ax s)" "r_q (ax s') = r_q (ax s)"
    "mon s' = mon s" "slverr_list (ax s') = slverr_list (ax s)" "decerr_list (ax s') = decerr_list (ax s)"
  using assms by (auto simp: transactor_read_def Let_def frame_def split: Option.bind_splits if_splits)

lemma transactor_write_frame:
  assumes "transactor_write E addr n d b s = Some (r, s')"
  shows "frame (ax s') = frame (ax s)" "w_q (ax s') = w_q (ax s)" "r_q (ax s') = r_q (ax s)"
    "mon s' = mon s" "slverr_list (ax s') = slverr_list (ax s)" "decerr_list (ax s') = decerr_list (ax s)"
  using assms by (auto simp: transactor_write_def Let_def frame_def split: Option.bind_splits if_splits)

lemma inject_both_frame:
  assumes "inject_both lst addr idx x = Some (p, q, x')"
  shows "frame x' = frame x" "w_q x' = w_q x" "r_q x' = r_q x"
  using assms by (auto simp: inject_both_def frame_def bind_eq_Some_conv)

lemma write_forward_frame:
  assumes "write_forward E v st n d b wr s = Some (wr', s')"
  shows "frame (ax s') = frame (ax s)" "w_q (ax s') = w_q (ax s)" "r_q (ax s') = r_q (ax s)" "mon s' = mon s"
  using assms by (auto simp: write_forward_def bind_eq_Some_conv transactor_write_frame split: if_splits)

lemma write_beat_frame:
  assumes "write_beat E a v g addr al lst rd wr s = Some (rd', wr', s')"
  shows "frame (ax s') = frame (ax s) \<and> w_q (ax s') = tl (w_q (ax s)) \<and> w_q (ax s) \<noteq> [] \<and>
    r_q (ax s') = r_q (ax s) \<and> mon s' = mon s"
proof -
  from assms obtain w q where w: "w_q (ax s) = w # q"
    by (cases "w_q (ax s)") (auto simp: write_beat_def)
  define s0 where "s0 = s\<lparr> ax := (ax s)\<lparr> w_q := q \<rparr>,
    errors := (if w_last w \<noteq> lst then errors s @ [W_last_error (beat_start g addr)] else errors s) \<rparr>"
  from assms w obtain d b wr1 s1 p1 p2 x where
    "write_forward E v (beat_start g addr) (beat_len g addr al) d b wr s0 = Some (wr1, s1)"
    "inject_both lst addr WRITE (ax s1) = Some (p1, p2, x)" "s' = s1\<lparr> ax := x \<rparr>"
    by (fastforce simp: write_beat_def Let_def bind_eq_Some_conv s0_def)
  moreover have "frame (ax s0) = frame (ax s)" "w_q (ax s0) = tl (w_q (ax s))" "r_q (ax s0) = r_q (ax s)" "mon s0 = mon s"
    by (simp_all add: s0_def frame_def w)
  ultimately show ?thesis
    using w by (simp add: write_forward_frame [of E v _ _ d b wr s0] inject_both_frame [of lst addr])
qed



lemma rotate_left_length: "rotate_left n xs = Some ys \<Longrightarrow> length ys = length xs"
  by (auto simp: rotate_left_def split: if_splits)

lemma read_beat_frame:
  assumes "read_beat a v g addr lst rd sr x = Some x'"
  shows "frame x' = frame x \<and> w_q x' = w_q x \<and>
    (\<exists>rs. r_q x' = r_q x @ rs \<and> map (\<lambda>r. (r_id r, r_last r, length (r_data r))) rs =
       (if find_addr addr (hang_list x) then [] else [(a_id a, lst, length rd)]))"
proof -
  from assms obtain p q x1 d where 1: "inject_both lst addr READ x = Some (p, q, x1)"
    "length d = length rd"
    "\<exists>resp. x' = (if find_addr addr (hang_list x1) then x1
              else x1\<lparr> r_q := r_q x1 @ [\<lparr> r_id = a_id a, r_resp = resp, r_data = d, r_last = lst \<rparr>] \<rparr>)"
    by (fastforce simp: read_beat_def Let_def bind_eq_Some_conv dest: rotate_left_length)
  have "hang_list x1 = hang_list x"
    using inject_both_frame(1) [OF 1(1)] by (simp add: frame_def)
  with 1 show ?thesis
    using inject_both_frame [OF 1(1)] by (auto simp: frame_def)
qed

fun beat_seq :: "geometry \<Rightarrow> burst_t \<Rightarrow> nat \<Rightarrow> u64 \<Rightarrow> bool \<Rightarrow> (u64 \<times> bool) list" where
  "beat_seq g burst 0 addr aligned = []"
| "beat_seq g burst (Suc k) addr aligned =
     (addr, aligned) # (case next_beat g burst addr aligned of (addr', aligned') \<Rightarrow> beat_seq g burst k addr' aligned')"

fun r_shape :: "bus_error_list \<Rightarrow> u32 \<Rightarrow> (u64 \<times> bool) list \<Rightarrow> (u32 \<times> bool) list" where
  "r_shape h i [] = []"
| "r_shape h i ((addr, aligned) # bs) = (if find_addr addr h then [] else [(i, bs = [])]) @ r_shape h i bs"

lemma length_beat_seq [simp]: "length (beat_seq g burst k addr aligned) = k"
  by (induction g burst k addr aligned rule: beat_seq.induct) (auto split: prod.splits)

lemma beat_seq_Nil [simp]: "beat_seq g burst k addr aligned = [] \<longleftrightarrow> k = 0"
  by (cases k) auto

abbreviation r_tags :: "r_t list \<Rightarrow> (u32 \<times> bool) list" where
  "r_tags \<equiv> map (\<lambda>r. (r_id r, r_last r))"

lemma axi_beat_frame:
  assumes "axi_beat E a v g addr al lst wr s = Some (wr', s')"
  shows "frame (ax s') = frame (ax s) \<and> mon s' = mon s \<and>
    w_q (ax s') = drop (if a_w a then 1 else 0) (w_q (ax s)) \<and> (a_w a \<longrightarrow> w_q (ax s) \<noteq> []) \<and>
    (\<exists>rs. r_q (ax s') = r_q (ax s) @ rs \<and>
      r_tags rs = (if returns_data a \<and> \<not> find_addr addr (hang_list (ax s)) then [(a_id a, lst)] else []))"
proof -
  from assms obtain rd rr s1 rd2 s2 where
    1: "(if needs_read a then do {
          (r, s) \<leftarrow> transactor_read E (beat_start g addr) (unat (beat_len g addr al)) s;
          Some (resize (unat (g_bus_bytes g)) 0 (rr_data r), rr_resp r, s)
        } else Some ([], RESP_OKAY, s)) = Some (rd, rr, s1)" and
    2: "(if a_w a then write_beat E a v g addr al lst rd wr s1 else Some (rd, wr, s1)) = Some (rd2, wr', s2)" and
    3: "(if returns_data a then do {
          x \<leftarrow> read_beat a v g addr lst rd2 rr (ax s2); Some (s2\<lparr> ax := x \<rparr>) } else Some s2) = Some s'"
    by (auto simp: axi_beat_def bind_eq_Some_conv split: prod.splits)
  have f1: "frame (ax s1) = frame (ax s) \<and> w_q (ax s1) = w_q (ax s) \<and> r_q (ax s1) = r_q (ax s) \<and> mon s1 = mon s"
    using 1 by (auto simp: bind_eq_Some_conv transactor_read_frame split: if_splits)
  have f2: "frame (ax s2) = frame (ax s1) \<and> w_q (ax s2) = drop (if a_w a then 1 else 0) (w_q (ax s1)) \<and>
      (a_w a \<longrightarrow> w_q (ax s1) \<noteq> []) \<and> r_q (ax s2) = r_q (ax s1) \<and> mon s2 = mon s1"
    using 2 write_beat_frame [of E a v g addr al lst rd wr s1 rd2 wr' s2]
    by (auto simp: drop_Suc split: if_splits)
  have "hang_list (ax s2) = hang_list (ax s)"
    using f1 f2 by (simp add: frame_def)
  then have f3: "frame (ax s') = frame (ax s2) \<and> w_q (ax s') = w_q (ax s2) \<and> mon s' = mon s2 \<and>
    (\<exists>rs. r_q (ax s') = r_q (ax s2) @ rs \<and>
      r_tags rs = (if returns_data a \<and> \<not> find_addr addr (hang_list (ax s)) then [(a_id a, lst)] else []))"
    using 3 by (auto simp: bind_eq_Some_conv dest!: read_beat_frame split: if_splits)
  show ?thesis
    using f1 f2 f3 by simp
qed

lemma axi_beats_frame:
  assumes "axi_beats E a v g k addr al wr s = Some (wr', s')"
  shows "frame (ax s') = frame (ax s) \<and> mon s' = mon s \<and>
    w_q (ax s') = drop (if a_w a then k else 0) (w_q (ax s)) \<and> (a_w a \<longrightarrow> k \<le> length (w_q (ax s))) \<and>
    (\<exists>rs. r_q (ax s') = r_q (ax s) @ rs \<and>
      r_tags rs = (if returns_data a then r_shape (hang_list (ax s)) (a_id a) (beat_seq g (a_burst a) k addr al) else []))"
  using assms
proof (induction k arbitrary: addr al wr s)
  case 0
  then show ?case
    by simp
next
  case (Suc k)
  obtain addr' al' where n: "next_beat g (a_burst a) addr al = (addr', al')"
    by fastforce
  from Suc.prems n obtain wr1 s1 where
    1: "axi_beat E a v g addr al (k = 0) wr s = Some (wr1, s1)" and
    2: "axi_beats E a v g k addr' al' wr1 s1 = Some (wr', s')"
    by (auto simp: bind_eq_Some_conv Let_def split: prod.splits)
  note f1 = axi_beat_frame [OF 1] and f2 = Suc.IH [OF 2]
  have h: "hang_list (ax s1) = hang_list (ax s)"
    using f1 by (simp add: frame_def)
  have len: "a_w a \<longrightarrow> Suc k \<le> length (w_q (ax s))"
    using f1 f2 by (cases "w_q (ax s)") simp_all
  from f1 obtain rs1 where rs1: "r_q (ax s1) = r_q (ax s) @ rs1"
    "r_tags rs1 = (if returns_data a \<and> \<not> find_addr addr (hang_list (ax s)) then [(a_id a, k = 0)] else [])"
    by blast
  from f2 obtain rs2 where rs2: "r_q (ax s') = r_q (ax s1) @ rs2"
    "r_tags rs2 = (if returns_data a then r_shape (hang_list (ax s1)) (a_id a) (beat_seq g (a_burst a) k addr' al') else [])"
    by blast
  have "r_q (ax s') = r_q (ax s) @ (rs1 @ rs2)"
    using rs1 rs2 by simp
  moreover have "r_tags (rs1 @ rs2) =
      (if returns_data a then r_shape (hang_list (ax s)) (a_id a) (beat_seq g (a_burst a) (Suc k) addr al) else [])"
    using rs1 rs2 n h by simp
  ultimately have rs: "\<exists>rs. r_q (ax s') = r_q (ax s) @ rs \<and> r_tags rs =
      (if returns_data a then r_shape (hang_list (ax s)) (a_id a) (beat_seq g (a_burst a) (Suc k) addr al) else [])"
    by blast
  have "w_q (ax s') = drop (if a_w a then Suc k else 0) (w_q (ax s))"
    using f1 f2 by simp
  with f1 f2 len rs show ?case
    by simp
qed

section \<open>Every beat completes\<close>

definition list_ok :: "bus_error_list \<Rightarrow> bool" where
  "list_ok b \<longleftrightarrow> bel_inv b \<and> n_types b = 2 \<and>
     (\<forall>idx < 2. pattern_mode idx b \<longrightarrow> pattern_normal_count b ! idx + pattern_error_count b ! idx \<noteq> 0)"

definition axi_wf :: "axi \<Rightarrow> bool" where
  "axi_wf x \<longleftrightarrow> 8 \<le> data_width x \<and> list_ok (slverr_list x) \<and> list_ok (decerr_list x)"

definition responsive :: "'e axi_env \<Rightarrow> bool" where
  "responsive E \<longleftrightarrow>
     (\<forall>r e. \<exists>d p e'. ev_read E r e = Some (\<lparr> rr_id = rd_id r, rr_data = d, rr_resp = p \<rparr>, e')) \<and>
     (\<forall>w e. \<exists>p e'. ev_write E w e = Some (\<lparr> wp_id = wr_id w, wp_resp = p \<rparr>, e'))"

definition w_ok :: "axi \<Rightarrow> w_t \<Rightarrow> bool" where
  "w_ok x w \<longleftrightarrow> length (w_data w) = unat (data_width x div 8) \<and> length (w_strb w) = unat (data_width x div 8)"

lemma inject_total:
  assumes "list_ok b" and "idx < 2"
  shows "\<exists>p b'. inject en addr idx b = Some (p, b') \<and> list_ok b'"
proof (cases "find_entry addr b")
  case None
  then show ?thesis
    using assms by (auto simp: inject_def find_addr_def check_inject_error_def)
next
  case (Some i)
  have "bel_inv b" "idx < n_types b"
    using assms by (simp_all add: list_ok_def)
  note keep = incr_count_entry [OF this(1) Some this(2), where a = 1]
  have "list_ok (fst (incr_count addr idx 1 b))"
    using assms keep by (simp add: list_ok_def)
  moreover have "check_inject_error addr idx b \<noteq> None"
    using assms Some by (simp add: check_inject_error_def list_ok_def Let_def)
  ultimately show ?thesis
    using assms Some by (auto simp: inject_def find_addr_def)
qed

lemma inject_both_total:
  assumes "axi_wf x" and "idx < 2"
  shows "\<exists>p q x'. inject_both lst addr idx x = Some (p, q, x') \<and> axi_wf x'"
  using inject_total [of "slverr_list x" idx "lst \<and> error_en x" addr]
    inject_total [of "decerr_list x" idx "lst \<and> error_en x" addr] assms
  by (auto simp: inject_both_def axi_wf_def)

lemma lane_less:
  assumes "0 < g_bus_bytes g"
  shows "lower_byte_lane g addr < g_bus_bytes g"
proof -
  have "lower_byte_lane g addr = addr mod g_bus_bytes g"
    by (simp add: lower_byte_lane_def minus_div_mult_eq_mod)
  then show ?thesis
    using assms by (simp add: word_less_nat_alt unat_mod_distrib unat_gt_0)
qed

lemma transactor_total:
  assumes "responsive E" and "axi_wf (ax s)"
  shows "\<exists>r s'. transactor_read E addr n s = Some (r, s') \<and> axi_wf (ax s')"
    and "\<exists>w s'. transactor_write E addr n d b s = Some (w, s') \<and> axi_wf (ax s')"
proof -
  let ?i = "tr_id (ax s) + 1"
  from assms(1) obtain d' p e' where "ev_read E \<lparr> rd_id = ?i, rd_addr = addr, rd_length = n \<rparr> (env s) =
      Some (\<lparr> rr_id = ?i, rr_data = d', rr_resp = p \<rparr>, e')"
    unfolding responsive_def by (metis read_t.select_convs(1))
  then show "\<exists>r s'. transactor_read E addr n s = Some (r, s') \<and> axi_wf (ax s')"
    using assms(2) by (simp add: transactor_read_def axi_wf_def Let_def)
  from assms(1) obtain p e' where "ev_write E \<lparr> wr_addr = addr, wr_length = n, wr_data = d, wr_strb = b, wr_id = ?i \<rparr> (env s) =
      Some (\<lparr> wp_id = ?i, wp_resp = p \<rparr>, e')"
    unfolding responsive_def by (metis write_t.select_convs(5))
  then show "\<exists>w s'. transactor_write E addr n d b s = Some (w, s') \<and> axi_wf (ax s')"
    using assms(2) by (simp add: transactor_write_def axi_wf_def Let_def)
qed

lemma write_operands_plain:
  assumes "transaction (a_atop a) = NON_ATOMIC" and "0 < g_bus_bytes g"
    and "length (w_data w) = unat (g_bus_bytes g)" "length (w_strb w) = unat (g_bus_bytes g)"
  shows "\<exists>d b. write_operands a g addr n rd w = Some (rd, d, b)"
  using assms lane_less [OF assms(2), of addr]
  by (simp add: write_operands_def rotate_left_def atop_modify_write_data_def word_less_nat_alt Let_def)

lemma write_forward_total:
  assumes "responsive E" and "axi_wf (ax s)"
  shows "\<exists>wr' s'. write_forward E v st n d b wr s = Some (wr', s') \<and> axi_wf (ax s')"
  using transactor_total(2) [OF assms, of st "unat n" d b] assms(2)
  by (auto simp: write_forward_def)

lemma bus_bytes_pos:
  assumes "axi_wf x" and "g_bus_bytes g = ucast (data_width x div 8)"
  shows "0 < g_bus_bytes g" "unat (g_bus_bytes g) = unat (data_width x div 8)"
proof -
  show eq: "unat (g_bus_bytes g) = unat (data_width x div 8)"
    using assms(2) by simp
  have "0 < unat (data_width x div 8)"
    using assms(1) by (simp add: axi_wf_def unat_div_distrib word_le_nat_alt div_greater_zero_iff)
  with eq show "0 < g_bus_bytes g"
    by (simp add: word_less_nat_alt)
qed

lemma write_beat_total:
  assumes E: "responsive E" and wf: "axi_wf (ax s)" and g: "g_bus_bytes g = ucast (data_width (ax s) div 8)"
    and plain: "transaction (a_atop a) = NON_ATOMIC"
    and q: "w_q (ax s) = w # q" and w: "w_ok (ax s) w"
  shows "\<exists>wr' s'. write_beat E a v g addr al lst rd wr s = Some (rd, wr', s') \<and> axi_wf (ax s')"
proof -
  let ?s = "s\<lparr> ax := (ax s)\<lparr> w_q := q \<rparr>,
    errors := (if w_last w \<noteq> lst then errors s @ [W_last_error (beat_start g addr)] else errors s) \<rparr>"
  note pos = bus_bytes_pos(1) [OF wf g] and bus = bus_bytes_pos(2) [OF wf g]
  have wf': "axi_wf (ax ?s)"
    using wf by (simp add: axi_wf_def)
  obtain d b where 1: "write_operands a g addr (beat_len g addr al) rd w = Some (rd, d, b)"
    using write_operands_plain [OF plain pos, of w addr "beat_len g addr al" rd] w bus by (auto simp: w_ok_def)
  obtain wr1 s1 where 2: "write_forward E v (beat_start g addr) (beat_len g addr al) d b wr ?s = Some (wr1, s1)" "axi_wf (ax s1)"
    using write_forward_total [OF E wf'] by blast
  obtain p p' x where 3: "inject_both lst addr WRITE (ax s1) = Some (p, p', x)" "axi_wf x"
    using inject_both_total [OF 2(2), of WRITE lst addr] by (auto simp: WRITE_def)
  show ?thesis
    using q 1 2 3 by (simp add: write_beat_def Let_def)
qed

lemma read_beat_total:
  assumes wf: "axi_wf x" and "0 < g_bus_bytes g" and "length rd = unat (g_bus_bytes g)"
  shows "\<exists>x'. read_beat a v g addr lst rd sr x = Some x' \<and> axi_wf x'"
proof -
  obtain p q x1 where 1: "inject_both lst addr READ x = Some (p, q, x1)" "axi_wf x1"
    using inject_both_total [OF wf, of READ lst addr] by (auto simp: READ_def)
  have "unat (g_bus_bytes g - lower_byte_lane g addr) \<le> length rd"
    using lane_less [OF assms(2), of addr] assms(3) by (simp add: word_less_nat_alt unat_sub word_le_nat_alt)
  with 1 show ?thesis
    by (auto simp: read_beat_def rotate_left_def Let_def axi_wf_def)
qed

lemma axi_beat_total:
  assumes E: "responsive E" and wf: "axi_wf (ax s)" and g: "g_bus_bytes g = ucast (data_width (ax s) div 8)"
    and plain: "transaction (a_atop a) = NON_ATOMIC"
    and w: "a_w a \<Longrightarrow> w_q (ax s) \<noteq> [] \<and> list_all (w_ok (ax s)) (w_q (ax s))"
  shows "\<exists>wr' s'. axi_beat E a v g addr al lst wr s = Some (wr', s') \<and> axi_wf (ax s')"
proof (cases "a_w a")
  case True
  with w obtain w0 q where "w_q (ax s) = w0 # q" "w_ok (ax s) w0"
    by (cases "w_q (ax s)") auto
  with write_beat_total [OF E wf g plain this, of v addr al lst "[]" wr] True plain show ?thesis
    by (auto simp: axi_beat_def needs_read_def returns_data_def)
next
  case False
  obtain r s1 where r: "transactor_read E (beat_start g addr) (unat (beat_len g addr al)) s = Some (r, s1)" "axi_wf (ax s1)"
    using transactor_total(1) [OF E wf] by blast
  note pos = bus_bytes_pos(1) [OF wf g]
  obtain x where "read_beat a v g addr lst (resize (unat (g_bus_bytes g)) 0 (rr_data r)) (rr_resp r) (ax s1) = Some x" "axi_wf x"
    using read_beat_total [OF r(2) pos] by (meson length_resize)
  with False r show ?thesis
    by (simp add: axi_beat_def needs_read_def returns_data_def)
qed

lemma axi_beats_total:
  assumes "responsive E" and "axi_wf (ax s)" and "g_bus_bytes g = ucast (data_width (ax s) div 8)"
    and "transaction (a_atop a) = NON_ATOMIC"
    and "a_w a \<Longrightarrow> k \<le> length (w_q (ax s)) \<and> list_all (w_ok (ax s)) (w_q (ax s))"
  shows "\<exists>wr' s'. axi_beats E a v g k addr al wr s = Some (wr', s') \<and> axi_wf (ax s')"
  using assms
proof (induction k arbitrary: addr al wr s)
  case 0
  then show ?case
    by simp
next
  case (Suc k)
  obtain addr' al' where n: "next_beat g (a_burst a) addr al = (addr', al')"
    by fastforce
  from Suc.prems have "a_w a \<Longrightarrow> w_q (ax s) \<noteq> [] \<and> list_all (w_ok (ax s)) (w_q (ax s))"
    by auto
  from axi_beat_total [OF Suc.prems(1-4) this] obtain wr1 s1 where
    1: "axi_beat E a v g addr al (k = 0) wr s = Some (wr1, s1)" "axi_wf (ax s1)"
    by blast
  note f = axi_beat_frame [OF 1(1)]
  have dw: "data_width (ax s1) = data_width (ax s)"
    using f by (simp add: frame_def)
  have "a_w a \<Longrightarrow> k \<le> length (w_q (ax s1)) \<and> list_all (w_ok (ax s1)) (w_q (ax s1))"
    using f Suc.prems(5) dw by (auto simp: w_ok_def list_all_iff dest: in_set_dropD)
  with Suc.IH [of s1 addr' al' wr1] Suc.prems 1 n dw show ?case
    by (auto simp: Let_def)
qed

lemma num_bytes_eq:
  assumes "a_size a \<le> 7"
  shows "scast (shl32 1 (unat (a_size a))) = (2 ^ unat (a_size a) :: u64)"
proof -
  have "unat (a_size a) \<le> 7"
    using assms by (simp add: word_le_nat_alt)
  then have "unat (a_size a) \<in> {0, 1, 2, 3, 4, 5, 6, 7}"
    by auto
  then show ?thesis
    by (auto simp: shl32_def)
qed

lemma dtsize_eq:
  assumes "a_size a \<le> 7"
  shows "unat (2 ^ unat (a_size a) * (ucast (a_len a) + 1) :: u64) = 2 ^ unat (a_size a) * burst_len a"
    and "2 ^ unat (a_size a) * burst_len a \<le> 32768"
proof -
  have k: "unat (a_size a) \<le> 7"
    using assms by (simp add: word_le_nat_alt)
  have p: "(2 :: nat) ^ unat (a_size a) \<le> 2 ^ 7"
    using k by (intro power_increasing) auto
  have l: "unat (ucast (a_len a) + 1 :: u64) = burst_len a"
    using unat_less_u8 [of "a_len a"] by (subst unat_add_less) (simp_all add: burst_len_def)
  have b: "burst_len a \<le> 256"
    using unat_less_u8 [of "a_len a"] by (simp add: burst_len_def)
  show le: "2 ^ unat (a_size a) * burst_len a \<le> 32768"
    using mult_le_mono [OF p b] by simp
  have "unat (2 ^ unat (a_size a) :: u64) = 2 ^ unat (a_size a)"
    using k by (intro unat_pow2) simp
  with l le show "unat (2 ^ unat (a_size a) * (ucast (a_len a) + 1) :: u64) = 2 ^ unat (a_size a) * burst_len a"
    by (subst unat_mult_less) simp_all
qed

lemma geometry_of_eq:
  assumes "axi_wf x" and "a_size a \<le> 7"
  shows "\<exists>g. geometry_of x a = Some g \<and> g_num_bytes g = 2 ^ unat (a_size a) \<and>
    g_bus_bytes g = ucast (data_width x div 8) \<and>
    g_aligned_addr g = a_addr a div 2 ^ unat (a_size a) * 2 ^ unat (a_size a) \<and>
    (a_burst a = BURST_WRAP \<longrightarrow>
       g_lower_wrap g = a_addr a div (2 ^ unat (a_size a) * (ucast (a_len a) + 1)) * (2 ^ unat (a_size a) * (ucast (a_len a) + 1)) \<and>
       g_upper_wrap g = g_lower_wrap g + 2 ^ unat (a_size a) * (ucast (a_len a) + 1))"
proof -
  let ?d = "2 ^ unat (a_size a) * (ucast (a_len a) + 1) :: u64"
  have "unat ?d \<noteq> 0"
    using dtsize_eq(1) [OF assms(2)] by (simp add: burst_len_def)
  then have d: "?d \<noteq> 0"
    by (simp add: unsigned_eq_0_iff)
  have "0 < unat (data_width x div 8)"
    using assms(1) by (simp add: axi_wf_def unat_div_distrib word_le_nat_alt div_greater_zero_iff)
  then have "unat (ucast (data_width x div 8) :: u64) \<noteq> 0"
    by simp
  then have "ucast (data_width x div 8) \<noteq> (0 :: u64)"
    by (metis unsigned_0)
  with d show ?thesis
    by (simp add: geometry_of_def num_bytes_eq [OF assms(2)] Let_def)
qed

text \<open>
  C5: on a platform that answers every request, a plain (non atomic) transaction at
  the head of the queue always completes; a write consumes exactly its W beats and
  produces exactly one B response, and a read produces one R response per beat in
  order, all with the identifier of the transaction and \<^verbatim>\<open>last\<close> on the final beat
  only, except for the beats to addresses configured to hang.
\<close>

theorem axi_transaction_responses:
  assumes E: "responsive E" and wf: "axi_wf (ax s)" and q: "a_q (ax s) = a # rest"
    and plain: "transaction (a_atop a) = NON_ATOMIC" and sz: "a_size a \<le> 7"
    and w: "a_w a \<longrightarrow> burst_len a \<le> length (w_q (ax s)) \<and> list_all (w_ok (ax s)) (w_q (ax s))"
  shows "\<exists>s' g rs resp. axi_transaction E a s = Some s' \<and> geometry_of (ax s) a = Some g \<and>
    axi_wf (ax s') \<and> a_q (ax s') = rest \<and> \<not> burst_active (ax s') \<and>
    w_q (ax s') = (if a_w a then drop (burst_len a) (w_q (ax s)) else w_q (ax s)) \<and>
    b_q (ax s') = b_q (ax s) @ (if a_w a then [\<lparr> b_id = a_id a, b_resp = resp \<rparr>] else []) \<and>
    r_q (ax s') = r_q (ax s) @ rs \<and>
    r_tags rs = (if a_w a then []
      else r_shape (hang_list (ax s)) (a_id a)
        (beat_seq g (a_burst a) (burst_len a) (a_addr a) (a_addr a = g_aligned_addr g)))"
proof -
  obtain i e where i: "ev_inputs E (env s) = (i, e)"
    by fastforce
  obtain v errs m where v: "on_addr (ev_flags E) (ev_map E) i a (mon s) = (v, errs, m)"
    by (metis prod_cases3)
  obtain g where g: "geometry_of (ax s) a = Some g" "g_bus_bytes g = ucast (data_width (ax s) div 8)"
    using geometry_of_eq [OF wf sz] by blast
  let ?s = "s\<lparr> ax := (ax s)\<lparr> burst_active := True, a_q := rest \<rparr>, mon := m, env := e,
    errors := errors s @ map Monitor_error errs \<rparr>"
  have 0: "axi_wf (ax ?s)" "geometry_of (ax ?s) a = Some g"
    using wf g by (simp_all add: axi_wf_def geometry_of_def)
  obtain wr s1 where 1: "axi_beats E a v g (burst_len a) (a_addr a) (a_addr a = g_aligned_addr g) RESP_OKAY ?s = Some (wr, s1)"
    "axi_wf (ax s1)"
    using axi_beats_total [OF E 0(1), of g a "burst_len a"] g plain w by (fastforce simp: w_ok_def list_all_iff)
  note f = axi_beats_frame [OF 1(1)]
  define s' where "s' = s1\<lparr> ax := (ax s1)
        \<lparr> b_q := (if a_w a then b_q (ax s1) @ [\<lparr> b_id = a_id a,
              b_resp = if override_resp v \<and> wr = RESP_OKAY then v_resp v else wr \<rparr>] else b_q (ax s1)),
          device_accesses_in_flight :=
            (if a_cache a \<le> DEV_BUF then device_accesses_in_flight (ax s1) - 1 else device_accesses_in_flight (ax s1)),
          burst_active := False \<rparr> \<rparr>"
  have run: "axi_transaction E a s = Some s'"
    using q i v 0(2) 1(1) by (simp add: axi_transaction_def Let_def s'_def)
  have "returns_data a = (\<not> a_w a)"
    using plain by (simp add: returns_data_def)
  with f obtain rs where rs: "r_q (ax s1) = r_q (ax s) @ rs" "r_tags rs = (if a_w a then []
      else r_shape (hang_list (ax s)) (a_id a)
        (beat_seq g (a_burst a) (burst_len a) (a_addr a) (a_addr a = g_aligned_addr g)))"
    by (auto simp: frame_def)
  have "a_q (ax s1) = rest" "b_q (ax s1) = b_q (ax s)"
    "w_q (ax s1) = (if a_w a then drop (burst_len a) (w_q (ax s)) else w_q (ax s))"
    using f by (simp_all add: frame_def)
  then show ?thesis
    using run g(1) 1(2) rs by (auto simp: s'_def axi_wf_def)
qed

text \<open>A platform without devices: it answers reads with zeros and accepts writes.\<close>

definition silent_env :: "unit axi_env" where
  "silent_env = \<lparr> ev_flags = eam_flags_default, ev_map = device_address_map_default,
     ev_inputs = (\<lambda>e. (sample_inputs, e)),
     ev_read = (\<lambda>r e. Some (\<lparr> rr_id = rd_id r, rr_data = replicate (rd_length r) 0, rr_resp = RESP_OKAY \<rparr>, e)),
     ev_write = (\<lambda>w e. Some (\<lparr> wp_id = wr_id w, wp_resp = RESP_OKAY \<rparr>, e)) \<rparr>"

definition sample_bus :: "a_t \<Rightarrow> w_t list \<Rightarrow> unit bus" where
  "sample_bus a ws = \<lparr> ax = (axi_new axi_flags_default 64)\<lparr> a_q := [a], w_q := ws \<rparr>,
     mon = eam_default, env = (), errors = [] \<rparr>"

definition sample_read :: a_t where
  "sample_read = (a_of_no_id 9 (a_no_id_new False 0x1004 2))\<lparr> a_len := 1 \<rparr>"

lemma responsive_silent: "responsive silent_env"
  by (simp add: responsive_def silent_env_def)

theorem axi_transaction_responses_witness:
  "\<exists>s'. axi_transaction silent_env sample_read (sample_bus sample_read []) = Some s' \<and>
     r_tags (r_q (ax s')) = [(9, False), (9, True)]"
proof -
  let ?s = "sample_bus sample_read []"
  have h: "axi_wf (ax ?s)" "a_q (ax ?s) = [sample_read]" "transaction (a_atop sample_read) = NON_ATOMIC"
    "a_size sample_read \<le> 7" "\<not> a_w sample_read" "a_id sample_read = 9" "r_q (ax ?s) = []"
    by code_simp+
  have g: "case geometry_of (ax ?s) sample_read of None \<Rightarrow> False | Some g \<Rightarrow>
      r_shape (hang_list (ax ?s)) 9 (beat_seq g (a_burst sample_read) (burst_len sample_read)
        (a_addr sample_read) (a_addr sample_read = g_aligned_addr g)) = [(9, False), (9, True)]"
    by code_simp
  show ?thesis
    using axi_transaction_responses [OF responsive_silent h(1-4)] g h(5-7) by auto
qed

section \<open>The bytes of a burst and the monitor\<close>

definition no_wrap :: "a_t \<Rightarrow> bool" where
  "no_wrap a =
     (let N = 2 ^ unat (a_size a); A = unat (a_addr a); D = N * burst_len a in
      case a_burst a of
        BURST_FIXED \<Rightarrow> True
      | BURST_WRAP \<Rightarrow> A mod N = 0 \<and> A div D * D + D \<le> 2 ^ 64
      | _ \<Rightarrow> A div N * N + D \<le> 2 ^ 64)"

lemma beat_start_eq [simp]: "beat_start g addr = addr"
  by (simp add: beat_start_def lower_byte_lane_def)

lemma beat_len_eq:
  "beat_len g addr True = g_num_bytes g"
  "beat_len g addr False = g_aligned_addr g + g_num_bytes g - addr"
  by (simp_all add: beat_len_def upper_byte_lane_def lower_byte_lane_def algebra_simps)

lemma beat_seq_fixed:
  "(ad, al) \<in> set (beat_seq g BURST_FIXED k addr aligned) \<Longrightarrow> ad = addr \<and> al = aligned"
  by (induction k) (auto simp: next_beat_def)

lemma beat_seq_incr:
  assumes "burst \<noteq> BURST_FIXED" "burst \<noteq> BURST_WRAP"
    and N: "unat (g_num_bytes g) = N" "0 < N" and B: "unat (g_aligned_addr g) = B"
    and top: "B + N * L \<le> 2 ^ 64"
    and start: "aligned \<and> unat addr = B + j * N \<or> \<not> aligned \<and> j = 0 \<and> addr = A"
    and "k + j \<le> L"
    and "(ad, al) \<in> set (beat_seq g burst k addr aligned)"
  shows "al \<and> (\<exists>j' < L. unat ad = B + j' * N) \<or> \<not> al \<and> ad = A"
  using start assms(8,9)
proof (induction k arbitrary: addr aligned j)
  case 0
  then show ?case
    by simp
next
  case (Suc k)
  show ?case
  proof (cases "(ad, al) = (addr, aligned)")
    case True
    have "j < L"
      using Suc.prems(2) by simp
    then show ?thesis
      using Suc.prems(1) True by (auto intro!: exI [of _ j])
  next
    case False
    with Suc.prems(3) obtain k' where k: "k = Suc k'"
      by (cases k) (auto split: prod.splits)
    have "B + Suc j * N + N \<le> B + N * L"
      using Suc.prems(2) mult_le_mono1 [of "Suc (Suc j)" L N] k by (simp add: algebra_simps)
    then have sum: "B + j * N + N < 2 ^ 64"
      using top N(2) by simp
    have "\<exists>addr'. next_beat g burst addr aligned = (addr', True) \<and> unat addr' = B + Suc j * N"
      using Suc.prems(1) assms(1,2) sum N(1) B
      by (auto simp: next_beat_def unat_word_ariths Let_def)
    then obtain addr' where n: "next_beat g burst addr aligned = (addr', True)" "unat addr' = B + Suc j * N"
      by blast
    have "(ad, al) \<in> set (beat_seq g burst k addr' True)"
      using Suc.prems(3) False n(1) by auto
    with Suc.IH [of True addr' "Suc j"] Suc.prems(2) n(2) show ?thesis
      by simp
  qed
qed

lemma beat_seq_wrap:
  assumes N: "unat (g_num_bytes g) = N" "0 < N" and lower: "unat (g_lower_wrap g) = B"
    and upper: "g_upper_wrap g = g_lower_wrap g + d" "unat d = N * L"
    and top: "B + N * L \<le> 2 ^ 64" and "0 < L"
    and start: "unat addr = B + j * N" "j < L"
    and "(ad, al) \<in> set (beat_seq g BURST_WRAP k addr True)"
  shows "al \<and> (\<exists>j' < L. unat ad = B + j' * N)"
  using start assms(10)
proof (induction k arbitrary: addr j)
  case 0
  then show ?case
    by simp
next
  case (Suc k)
  let ?a = "addr + g_num_bytes g"
  have a: "unat ?a = (B + Suc j * N) mod 2 ^ 64"
    unfolding unat_word_ariths(1) Suc.prems(1) N(1) by (rule arg_cong2 [where f = "(mod)"]) simp_all
  have u: "unat (g_upper_wrap g) = (B + N * L) mod 2 ^ 64"
    unfolding upper(1) unat_word_ariths(1) lower upper(2) by (rule arg_cong2 [where f = "(mod)"]) simp_all
  have "\<exists>addr' j'. next_beat g BURST_WRAP addr True = (addr', True) \<and> unat addr' = B + j' * N \<and> j' < L"
  proof (cases "g_upper_wrap g \<le> ?a")
    case True
    then show ?thesis
      using lower \<open>0 < L\<close> by (intro exI [of _ "g_lower_wrap g"] exI [of _ 0]) (simp add: next_beat_def)
  next
    case False
    have "Suc j \<noteq> L"
    proof
      assume "Suc j = L"
      then have "unat ?a = unat (g_upper_wrap g)"
        unfolding a u by (simp only: mult.commute)
      with False show False
        by (simp add: word_le_nat_alt)
    qed
    then have "Suc j < L"
      using Suc.prems(2) by simp
    moreover have "Suc (Suc j) * N \<le> N * L"
      using \<open>Suc j < L\<close> mult_le_mono1 [of "Suc (Suc j)" L N] by (simp add: mult.commute)
    then have "B + Suc j * N < 2 ^ 64"
      using top N(2) by simp
    then have "unat ?a = B + Suc j * N"
      unfolding a by (rule mod_less)
    moreover have "next_beat g BURST_WRAP addr True = (?a, True)"
      using False by (simp add: next_beat_def Let_def)
    ultimately show ?thesis
      by blast
  qed
  then obtain addr' j' where n: "next_beat g BURST_WRAP addr True = (addr', True)" "unat addr' = B + j' * N" "j' < L"
    by blast
  show ?case
    using Suc.IH [OF n(2,3)] Suc.prems n(1) by auto
qed

lemma span_eq:
  assumes "a_size a \<le> 7"
  shows "span a =
    (let N = 2 ^ unat (a_size a); D = N * (ucast (a_len a) + 1) in
     case a_burst a of
       BURST_FIXED \<Rightarrow> (a_addr a div N * N, a_addr a div N * N + N - 1)
     | BURST_WRAP \<Rightarrow> (a_addr a div D * D, a_addr a div D * D + D - 1)
     | _ \<Rightarrow> (a_addr a div N * N, a_addr a div N * N + D - 1))"
proof -
  have "unat (a_size a) < 64"
    using assms by (simp add: word_le_nat_alt)
  then have "shl64 1 (unat (a_size a)) = 2 ^ unat (a_size a)"
    by (simp add: shl64_def push_bit_eq_mult)
  then show ?thesis
    by (simp add: span_def Let_def split: burst_t.split)
qed

lemma in_block:
  assumes "unat b0 + n \<le> 2 ^ 64" and "0 < n" and "unat n' = n"
    and "unat b0 \<le> unat x" and "unat x < unat b0 + n"
  shows "b0 \<le> x \<and> x \<le> b0 + n' - (1 :: u64)"
proof -
  have "unat (b0 + (n' - 1)) = unat b0 + (n - 1)"
  proof (subst unat_add_less)
    have "n' \<noteq> 0"
      using assms(2,3) by auto
    then have m: "unat (n' - 1) = n - 1"
      using assms(3) by (simp add: unat_minus_one)
    then show "unat b0 + unat (n' - 1) < 2 ^ LENGTH(64)"
      using assms(1,2) by simp
    show "unat b0 + unat (n' - 1) = unat b0 + (n - 1)"
      using m by simp
  qed
  then show ?thesis
    using assms by (simp add: word_le_nat_alt algebra_simps)
qed

lemma unaligned_len:
  fixes ad al :: u64
  assumes N: "unat nb = N" and al: "unat al \<le> unat ad" "unat ad < unat al + N"
  shows "unat (al + nb - ad) = unat al + N - unat ad"
proof -
  have d: "unat (ad - al) = unat ad - unat al"
    using al(1) by (simp add: unat_sub word_le_nat_alt)
  have "unat (nb - (ad - al)) = N - (unat ad - unat al)"
    using d N al by (subst unat_sub) (auto simp: word_le_nat_alt)
  then show ?thesis
    using al by (simp add: algebra_simps)
qed

lemma beat_bytes_bounds:
  assumes wf: "axi_wf x" and sz: "a_size a \<le> 7" and geo: "geometry_of x a = Some g" and nw: "no_wrap a"
    and beat: "(ad, al) \<in> set (beat_seq g (a_burst a) (burst_len a) (a_addr a) (a_addr a = g_aligned_addr g))"
    and n: "n < unat (beat_len g ad al)"
  defines "N \<equiv> 2 ^ unat (a_size a)" and "A \<equiv> unat (a_addr a)" and "D \<equiv> 2 ^ unat (a_size a) * burst_len a"
  shows "(case a_burst a of
      BURST_FIXED \<Rightarrow> A div N * N \<le> unat ad + n \<and> unat ad + n < A div N * N + N
    | BURST_WRAP \<Rightarrow> A div D * D \<le> unat ad + n \<and> unat ad + n < A div D * D + D
    | _ \<Rightarrow> A div N * N \<le> unat ad + n \<and> unat ad + n < A div N * N + D)"
proof -
  have k: "unat (a_size a) < 64"
    using sz by (simp add: word_le_nat_alt)
  have N: "unat (2 ^ unat (a_size a) :: u64) = N" "0 < N"
    using unat_pow2 [of "unat (a_size a)", where 'a = 64] k by (simp_all add: N_def)
  have L: "0 < burst_len a" "N \<le> D" "D = N * burst_len a"
    by (simp_all add: burst_len_def N_def D_def)
  have dt: "unat (2 ^ unat (a_size a) * (ucast (a_len a) + 1) :: u64) = D"
    using dtsize_eq(1) [OF sz] by (simp add: D_def)
  let ?D = "2 ^ unat (a_size a) * (ucast (a_len a) + 1) :: u64"
  from geometry_of_eq [OF wf sz] geo have g: "g_num_bytes g = 2 ^ unat (a_size a)"
    "g_aligned_addr g = a_addr a div 2 ^ unat (a_size a) * 2 ^ unat (a_size a)" and
    wrap: "a_burst a = BURST_WRAP \<Longrightarrow> g_lower_wrap g = a_addr a div ?D * ?D \<and> g_upper_wrap g = g_lower_wrap g + ?D"
    by fastforce+
  have lower: "unat (a_addr a div ?D * ?D) = A div D * D"
    unfolding unat_align_down dt A_def ..
  define B where "B = A div N * N"
  have B: "unat (g_aligned_addr g) = B"
    by (simp only: g unat_align_down N A_def B_def)
  have first: "B \<le> A" "A < B + N"
    using N(2) dividend_less_div_times [of N A] by (simp_all add: B_def add.commute)
  have odd: "B \<le> unat ad + n \<and> unat ad + n < B + N" if "\<not> al" "ad = a_addr a"
  proof -
    have "unat (beat_len g ad al) = B + N - A"
      using unaligned_len [of "g_num_bytes g" N "g_aligned_addr g" ad] that first B N g
      by (simp add: beat_len_eq A_def)
    then show ?thesis
      using n that first by (simp add: A_def)
  qed
  have even: "b \<le> unat ad + n \<and> unat ad + n < b + j * N + N" if "al" "unat ad = b + j * N" for b j
    using n that g N by (simp add: beat_len_eq)
  have room: "j * N + N \<le> D" if "j < burst_len a" for j
    using that L(3) mult_le_mono1 [of "Suc j" "burst_len a" N] by (simp add: mult.commute)
  have incr: "B \<le> unat ad + n \<and> unat ad + n < B + D"
    if b: "a_burst a \<noteq> BURST_FIXED" "a_burst a \<noteq> BURST_WRAP"
  proof -
    have top: "B + N * burst_len a \<le> 2 ^ 64"
      using nw b by (simp add: no_wrap_def Let_def B_def A_def N_def mult.commute split: burst_t.splits)
    have start: "(a_addr a = g_aligned_addr g) \<and> unat (a_addr a) = B + 0 * N \<or>
        (a_addr a \<noteq> g_aligned_addr g) \<and> (0 :: nat) = 0 \<and> a_addr a = a_addr a"
      using B by auto
    have "al \<and> (\<exists>j' < burst_len a. unat ad = B + j' * N) \<or> \<not> al \<and> ad = a_addr a"
      by (rule beat_seq_incr [OF b _ N(2) B top start _ beat]) (simp_all add: g N)
    then show ?thesis
    proof
      assume "\<not> al \<and> ad = a_addr a"
      then show ?thesis
        using odd L(2) by simp
    next
      assume "al \<and> (\<exists>j' < burst_len a. unat ad = B + j' * N)"
      then obtain j where j: "al" "j < burst_len a" "unat ad = B + j * N"
        by blast
      show ?thesis
        using even [OF j(1,3)] room [OF j(2)] by simp
    qed
  qed
  show ?thesis
  proof (cases "a_burst a")
    case BURST_FIXED
    then have "ad = a_addr a \<and> al = (a_addr a = g_aligned_addr g)"
      using beat beat_seq_fixed by fastforce
    then have "B \<le> unat ad + n \<and> unat ad + n < B + N"
      using odd even [of B 0] B by (cases al) auto
    then show ?thesis
      by (simp add: BURST_FIXED B_def)
  next
    case BURST_WRAP
    then have al0: "A mod N = 0" and top: "A div D * D + N * burst_len a \<le> 2 ^ 64"
      using nw by (simp_all add: no_wrap_def Let_def A_def N_def D_def)
    then have "B = A"
      by (auto simp: B_def)
    then have start: "a_addr a = g_aligned_addr g"
      using B by (simp add: A_def word_unat_eq_iff)
    have "N dvd A mod D"
      using al0 L(3) by (intro dvd_mod) (auto simp: mod_eq_0_iff_dvd)
    then obtain j where j': "A mod D = N * j"
      by (rule dvdE)
    then have j: "A = A div D * D + j * N"
      using div_mult_mod_eq [of A D] by (simp add: mult.commute)
    have "A mod D < D"
      using L N(2) by simp
    then have "j < burst_len a"
      using j' L(3) by simp
    have "al \<and> (\<exists>j' < burst_len a. unat ad = A div D * D + j' * N)"
    proof (rule beat_seq_wrap [where g = g and d = ?D and addr = "a_addr a" and j = j and k = "burst_len a"])
      show "unat (g_num_bytes g) = N" "0 < N"
        by (simp_all only: g N)
      show "unat (g_lower_wrap g) = A div D * D" "g_upper_wrap g = g_lower_wrap g + ?D"
        using wrap [OF BURST_WRAP] lower by simp_all
      show "unat ?D = N * burst_len a"
        by (simp only: dt L(3))
      show "unat (a_addr a) = A div D * D + j * N"
        using j by (simp only: A_def)
      show "(ad, al) \<in> set (beat_seq g BURST_WRAP (burst_len a) (a_addr a) True)"
        using beat start BURST_WRAP by simp
    qed (fact top L(1) \<open>j < burst_len a\<close>)+
    then obtain j' where j': "al" "j' < burst_len a" "unat ad = A div D * D + j' * N"
      by blast
    show ?thesis
      using even [OF j'(1,3)] room [OF j'(2)] by (simp add: BURST_WRAP)
  qed (use incr in \<open>simp_all add: B_def\<close>)
qed

lemma block_top:
  assumes "k \<le> 64"
  shows "unat (x :: u64) div 2 ^ k * 2 ^ k + 2 ^ k \<le> 2 ^ 64"
proof -
  have "(2 :: nat) ^ 64 = 2 ^ (64 - k) * 2 ^ k"
    using assms by (simp flip: power_add)
  then have "unat x div 2 ^ k < 2 ^ (64 - k)"
    using unat_less_u64 [of x] by (simp add: div_less_iff_less_mult)
  then have "(unat x div 2 ^ k + 1) * 2 ^ k \<le> 2 ^ (64 - k) * 2 ^ k"
    by (intro mult_le_mono1) simp
  with \<open>2 ^ 64 = _\<close> show ?thesis
    by (simp add: add_mult_distrib)
qed

lemma beat_in_span:
  assumes wf: "axi_wf x" and sz: "a_size a \<le> 7" and geo: "geometry_of x a = Some g" and nw: "no_wrap a"
    and beat: "(ad, al) \<in> set (beat_seq g (a_burst a) (burst_len a) (a_addr a) (a_addr a = g_aligned_addr g))"
    and n: "n < unat (beat_len g ad al)"
  shows "fst (span a) \<le> ad + of_nat n \<and> ad + of_nat n \<le> snd (span a)"
proof -
  let ?N = "2 ^ unat (a_size a) :: u64" and ?D = "2 ^ unat (a_size a) * (ucast (a_len a) + 1) :: u64"
  let ?x = "ad + of_nat n" and ?A = "unat (a_addr a)"
  have k: "unat (a_size a) \<le> 63"
    using sz by (simp add: word_le_nat_alt)
  have N: "unat ?N = 2 ^ unat (a_size a)"
    using k by (intro unat_pow2) simp
  note D = dtsize_eq [OF sz]
  note bounds = beat_bytes_bounds [OF assms]
  have go: "b0 \<le> ?x \<and> ?x \<le> b0 + w - 1"
    if "unat b0 \<le> unat ad + n" "unat ad + n < unat b0 + m" "unat b0 + m \<le> 2 ^ 64" "unat w = m" for b0 w m
  proof (rule in_block)
    have "unat (of_nat n :: u64) = n"
      using that by (intro unat_of_nat_less) simp
    then have x: "unat ?x = unat ad + n"
      using that by (subst unat_add_less) simp_all
    show "unat b0 + m \<le> 2 ^ 64" "0 < m" "unat w = m" "unat b0 \<le> unat ?x" "unat ?x < unat b0 + m"
      using that x by simp_all
  qed
  show ?thesis
  proof (cases "a_burst a")
    case BURST_FIXED
    then show ?thesis
      using go [of "a_addr a div ?N * ?N" "2 ^ unat (a_size a)" ?N] bounds block_top [of "unat (a_size a)" "a_addr a"] k N
      by (simp only: span_eq [OF sz] Let_def burst_t.case fst_conv snd_conv unat_align_down)
  next
    case BURST_WRAP
    then show ?thesis
      using go [of "a_addr a div ?D * ?D" "2 ^ unat (a_size a) * burst_len a" ?D] bounds D nw
      by (simp only: span_eq [OF sz] Let_def burst_t.case fst_conv snd_conv unat_align_down no_wrap_def)
  next
    case BURST_INCR
    then show ?thesis
      using go [of "a_addr a div ?N * ?N" "2 ^ unat (a_size a) * burst_len a" ?D] bounds D nw N
      by (simp only: span_eq [OF sz] Let_def burst_t.case fst_conv snd_conv unat_align_down no_wrap_def)
  next
    case BURST_OTHER
    then show ?thesis
      using go [of "a_addr a div ?N * ?N" "2 ^ unat (a_size a) * burst_len a" ?D] bounds D nw N
      by (simp only: span_eq [OF sz] Let_def burst_t.case fst_conv snd_conv unat_align_down no_wrap_def)
  qed
qed

lemma rsv_base_bounds: "rsv_base x \<le> x" "x \<le> rsv_base x + RSV_BYTES - 1"
proof -
  have m: "(63 :: u64) = mask 6"
    by (simp add: mask_eq_exp_minus_1)
  have eq: "rsv_base x = x div 64 * 64"
  proof -
    have "rsv_base x = push_bit 6 (drop_bit 6 x)"
      unfolding rsv_base_def RSV_BYTES_def by (simp add: m) (auto intro!: bit_word_eqI simp: bit_simps)
    then show ?thesis
      by (simp add: push_bit_eq_mult drop_bit_eq_div)
  qed
  have b: "unat (rsv_base x) = unat x div 64 * 64"
    unfolding eq unat_align_down by simp
  have "unat (rsv_base x) + 64 \<le> 2 ^ 64"
    using block_top [of 6 x] b by simp
  moreover have "unat (rsv_base x) \<le> unat x" "unat x < unat (rsv_base x) + 64"
    using b dividend_less_div_times [of 64 "unat x"] by simp_all
  ultimately show "rsv_base x \<le> x" "x \<le> rsv_base x + RSV_BYTES - 1"
    using in_block [of "rsv_base x" 64 64 x] by (simp_all add: RSV_BYTES_def)
qed

text \<open>
  C6: the exclusive monitor sees every byte a burst touches: if any beat that the burst
  engine issues for a transaction covers a byte of the granule of a reserved address,
  the address span that the monitor computes for the transaction overlaps the
  granule, for fixed, incrementing and wrapping bursts.
\<close>

theorem monitor_sees_every_beat:
  assumes "axi_wf x" and "a_size a \<le> 7" and "geometry_of x a = Some g" and "no_wrap a"
    and "(ad, al) \<in> set (beat_seq g (a_burst a) (burst_len a) (a_addr a) (a_addr a = g_aligned_addr g))"
    and "n < unat (beat_len g ad al)"
    and "rsv_base (beat_start g ad + of_nat n) = rsv_base r"
  shows "overlaps_granule a r"
proof -
  have "fst (span a) \<le> ad + of_nat n" "ad + of_nat n \<le> snd (span a)"
    using beat_in_span [OF assms(1-6)] by simp_all
  then show ?thesis
    using rsv_base_bounds [of "ad + of_nat n"] assms(7)
    by (auto simp: overlaps_granule_def case_prod_beta Let_def)
qed

definition sample_wrap :: a_t where
  "sample_wrap = (a_of_no_id 4 (a_no_id_new True 0x1018 3))\<lparr> a_len := 3, a_burst := BURST_WRAP \<rparr>"

definition sample_geometry :: geometry where
  "sample_geometry = \<lparr> g_num_bytes = 8, g_aligned_addr = 0x1018, g_bus_bytes = 8,
     g_lower_wrap = 0x1000, g_upper_wrap = 0x1020 \<rparr>"

theorem monitor_sees_every_beat_witness:
  "beat_seq sample_geometry BURST_WRAP 4 0x1018 True = [(0x1018, True), (0x1000, True), (0x1008, True), (0x1010, True)] \<and>
   overlaps_granule sample_wrap 0x103F"
proof
  show "beat_seq sample_geometry BURST_WRAP 4 0x1018 True = [(0x1018, True), (0x1000, True), (0x1008, True), (0x1010, True)]"
    by code_simp
  have "axi_wf (axi_new axi_flags_default 64)" "a_size sample_wrap \<le> 7"
    "geometry_of (axi_new axi_flags_default 64) sample_wrap = Some sample_geometry" "no_wrap sample_wrap"
    "(0x1010, True) \<in> set (beat_seq sample_geometry (a_burst sample_wrap) (burst_len sample_wrap)
        (a_addr sample_wrap) (a_addr sample_wrap = g_aligned_addr sample_geometry))"
    "3 < unat (beat_len sample_geometry 0x1010 True)"
    "rsv_base (beat_start sample_geometry 0x1010 + of_nat 3) = rsv_base 0x103F"
    by code_simp+
  then show "overlaps_granule sample_wrap 0x103F"
    by (rule monitor_sees_every_beat)
qed

end
