(* ===== verification/AxiSw.thy ===== *)
theory AxiSw
  imports Axi "HOL-Library.Sublist"
begin

text \<open>
  The software end of the AXI subordinate (\<^verbatim>\<open>transactors/axi_sw/axi_sw.h\<close>): requests pass a
  reorder window on their way to the engine of theory \<^verbatim>\<open>Axi\<close>, and responses are handed to
  the hardware FIFOs as room appears.  Handlers run to completion.  The random source
  \<^verbatim>\<open>cvm::rand::lcg::generate\<close> is a parameter, one function of the bound per call.
\<close>

section \<open>State\<close>

type_synonym gen = "u64 \<Rightarrow> u64"

record sw_flags =
  fl_reorder_window :: u32
  fl_fast_write_response :: bool
  fl_read_no_callbacks :: bool
  fl_cb_async :: bool
  fl_spurious_allowed :: int
  fl_latency_range :: string
  fl_read_latency_fixed :: int
  fl_read_latency_max :: int

record sw_fifo =
  f_max :: u32
  f_ptr_max :: u32
  f_rptr :: u32
  f_wptr :: u32
  f_time :: u64

record 'e axi_sw =
  sw_bus :: "'e bus"
  sw_data_width :: nat
  sw_r_fifo :: sw_fifo
  sw_b_fifo :: sw_fifo
  sw_r_q :: "r_t list"
  sw_b_q :: "b_t list"
  sw_a_window :: "a_t list"
  sw_w_window :: "w_t list"
  sw_read_bytes :: u64
  sw_write_bytes :: u64
  sw_lat_min :: u16
  sw_lat_max :: u16
  sw_pending_reads :: u64
  sw_spurious :: int

datatype sw_event =
    Callback_r
  | Callback_b
  | R_dpi r_t u16
  | B_dpi b_t u8
  | Unsupported_width
  | Spurious_flush int
  | Bad_latency_range
  | Conflicting_latency_options
  | Fifo_r_reset
  | Fifo_b_reset

definition sw_size :: "sw_fifo \<Rightarrow> u32 option" where
  "sw_size q = (if f_ptr_max q = 0 then None else Some ((f_wptr q + f_ptr_max q - f_rptr q) mod f_ptr_max q))"

definition sw_full :: "sw_fifo \<Rightarrow> bool option" where
  "sw_full q = do { n \<leftarrow> sw_size q; Some (f_max q \<le> n) }"

definition sw_advance :: "sw_fifo \<Rightarrow> sw_fifo" where
  "sw_advance q = q\<lparr> f_wptr := (f_wptr q + 1) mod f_ptr_max q \<rparr>"

section \<open>Responses\<close>

text \<open>Each loop hands over the responses of the engine, oldest first, until the FIFO is full.\<close>

function sw_r_resp :: "sw_flags \<Rightarrow> 'e axi_sw \<Rightarrow> ('e axi_sw \<times> sw_event list) option" where
  "sw_r_resp f s = do {
     full \<leftarrow> sw_full (sw_r_fifo s);
     if full then Some (s, [])
     else (case axi_r (ax (sw_bus s)) of
       (None, x) \<Rightarrow> Some (s, [])
     | (Some r, x) \<Rightarrow> do {
         (s, evs) \<leftarrow> sw_r_resp f
           (s\<lparr> sw_bus := (sw_bus s)\<lparr> ax := x \<rparr>, sw_pending_reads := sw_pending_reads s - 1,
               sw_r_fifo := sw_advance (sw_r_fifo s), sw_r_q := sw_r_q s @ [r] \<rparr>);
         Some (s, (if fl_read_no_callbacks f then [] else [Callback_r]) @ evs)
       })
   }"
  by pat_completeness auto
termination
  by (relation "measure (\<lambda>(f, s). length (r_q (ax (sw_bus s))))") (auto simp: axi_r_def split: list.splits)

declare sw_r_resp.simps [simp del]

function sw_b_loop :: "'e axi_sw \<Rightarrow> ('e axi_sw \<times> sw_event list) option" where
  "sw_b_loop s = do {
     full \<leftarrow> sw_full (sw_b_fifo s);
     if full then Some (s, [])
     else (case axi_b (ax (sw_bus s)) of
       (None, x) \<Rightarrow> Some (s, [])
     | (Some b, x) \<Rightarrow> do {
         (s, evs) \<leftarrow> sw_b_loop
           (s\<lparr> sw_bus := (sw_bus s)\<lparr> ax := x \<rparr>, sw_b_fifo := sw_advance (sw_b_fifo s), sw_b_q := sw_b_q s @ [b] \<rparr>);
         Some (s, Callback_b # evs)
       })
   }"
  by pat_completeness auto
termination
  by (relation "measure (\<lambda>s. length (b_q (ax (sw_bus s))))") (auto simp: axi_b_def split: list.splits)

declare sw_b_loop.simps [simp del]

definition sw_b_resp :: "sw_flags \<Rightarrow> 'e axi_sw \<Rightarrow> ('e axi_sw \<times> sw_event list) option" where
  "sw_b_resp f s = (if fl_fast_write_response f then Some (s, []) else sw_b_loop s)"

definition all_resp :: "sw_flags \<Rightarrow> 'e axi_sw \<Rightarrow> ('e axi_sw \<times> sw_event list) option" where
  "all_resp f s = do {
     (s, e1) \<leftarrow> sw_r_resp f s;
     (s, e2) \<leftarrow> sw_b_resp f s;
     Some (s, e1 @ e2)
   }"

definition add_latency :: "gen \<Rightarrow> 'e axi_sw \<Rightarrow> u64" where
  "add_latency g s = g (ucast (sw_lat_max s) - ucast (sw_lat_min s)) + ucast (sw_lat_min s)"

definition r_dpi :: "gen \<Rightarrow> 'e axi_sw \<Rightarrow> (bool \<times> 'e axi_sw \<times> sw_event list) option" where
  "r_dpi g s = (case sw_r_q s of
     [] \<Rightarrow> Some (False, s, [])
   | r # q \<Rightarrow>
       if length (r_data r) < sw_data_width s div 8 then None
       else Some (True, s\<lparr> sw_r_q := q \<rparr>,
         [if sw_data_width s \<in> {64, 128, 256, 512} then R_dpi r (ucast (add_latency g s)) else Unsupported_width]))"

definition b_dpi :: "gen \<Rightarrow> 'e axi_sw \<Rightarrow> bool \<times> 'e axi_sw \<times> sw_event list" where
  "b_dpi g s = (case sw_b_q s of
     [] \<Rightarrow> (False, s, [])
   | b # q \<Rightarrow> (True, s\<lparr> sw_b_q := q \<rparr>, [B_dpi b (ucast (add_latency g s))]))"

section \<open>The reorder window\<close>

fun feed_w :: "'e axi_env \<Rightarrow> nat \<Rightarrow> nat \<Rightarrow> 'e axi_sw \<Rightarrow> 'e axi_sw option" where
  "feed_w E pos 0 s = Some s"
| "feed_w E pos (Suc k) s = do {
     w \<leftarrow> vec_get (sw_w_window s) pos;
     b \<leftarrow> axi_w E w (sw_bus s);
     feed_w E pos k (s\<lparr> sw_bus := b, sw_w_window := take pos (sw_w_window s) @ drop (Suc pos) (sw_w_window s) \<rparr>)
   }"

definition prior_writes :: "a_t list \<Rightarrow> u32" where
  "prior_writes as = sum_list (map (\<lambda>a. if a_w a then of_nat (burst_len a) else 0) as)"

definition pop_reorder_q :: "'e axi_env \<Rightarrow> bool \<Rightarrow> gen \<Rightarrow> 'e axi_sw \<Rightarrow> (bool \<times> 'e axi_sw) option" where
  "pop_reorder_q E oldest g s =
     (let win = sw_a_window s in
      if win = [] then Some (False, s)
      else do {
        pick \<leftarrow> vec_get win (if oldest then 0 else unat (ucast (g (of_nat (length win))) :: u32));
        let pos = length (takeWhile (\<lambda>p. \<not> (a_id p = a_id pick \<and> a_w p = a_w pick)) win);
        let a = win ! pos;
        let s' = s\<lparr> sw_a_window := take pos win @ drop (Suc pos) win \<rparr>;
        if a_w a then
          let prior = unat (prior_writes (take pos win)) in
          if length (sw_w_window s) < prior + burst_len a then Some (False, s)
          else do {
            b \<leftarrow> axi_a E a (sw_bus s');
            s \<leftarrow> feed_w E prior (burst_len a) (s'\<lparr> sw_bus := b \<rparr>);
            Some (True, s)
          }
        else do {
          b \<leftarrow> axi_a E a (sw_bus s');
          Some (True, s'\<lparr> sw_bus := b \<rparr>)
        }
      })"

text \<open>A full window gives up one entry.\<close>

definition pop_if_full :: "'e axi_env \<Rightarrow> sw_flags \<Rightarrow> gen \<Rightarrow> 'e axi_sw \<Rightarrow> 'e axi_sw option" where
  "pop_if_full E f g s =
     (if unat (fl_reorder_window f) \<le> length (sw_a_window s)
      then do { (_, s) \<leftarrow> pop_reorder_q E False g s; Some s } else Some s)"

text \<open>The address packet of the bridge; both address channels have these fields.\<close>

record a_packet =
  pk_id :: u32
  pk_addr :: u64
  pk_len :: u8
  pk_size :: u8
  pk_burst :: u8
  pk_lock :: u8
  pk_cache :: u8
  pk_prot :: u8
  pk_qos :: u8
  pk_region :: u8
  pk_atop :: u8
  pk_user :: u8

definition burst_of :: "u8 \<Rightarrow> burst_t" where
  "burst_of b = (if b = 0 then BURST_FIXED else if b = 1 then BURST_INCR else if b = 2 then BURST_WRAP else BURST_OTHER)"

definition a_of_packet :: "bool \<Rightarrow> u8 \<Rightarrow> a_packet \<Rightarrow> a_t" where
  "a_of_packet w atop p = (a_of_no_id (pk_id p) (a_no_id_new w (pk_addr p) (pk_size p)))
     \<lparr> a_len := pk_len p, a_burst := burst_of (pk_burst p), a_lock := (pk_lock p \<noteq> 0), a_cache := pk_cache p,
       a_prot := pk_prot p, a_qos := pk_qos p, a_region := pk_region p, a_atop := atop_decode atop, a_user := pk_user p \<rparr>"

definition accept_a :: "'e axi_env \<Rightarrow> sw_flags \<Rightarrow> gen \<Rightarrow> a_t \<Rightarrow> 'e axi_sw \<Rightarrow> ('e axi_sw \<times> sw_event list) option" where
  "accept_a E f g a s = do {
     s \<leftarrow> (if fl_reorder_window f \<le> 1 then do { b \<leftarrow> axi_a E a (sw_bus s); Some (s\<lparr> sw_bus := b \<rparr>) }
           else pop_if_full E f g (s\<lparr> sw_a_window := sw_a_window s @ [a] \<rparr>));
     all_resp f s
   }"

definition process_aw :: "'e axi_env \<Rightarrow> sw_flags \<Rightarrow> gen \<Rightarrow> a_packet \<Rightarrow> 'e axi_sw \<Rightarrow> ('e axi_sw \<times> sw_event list) option" where
  "process_aw E f g aw s = accept_a E f g (a_of_packet True (pk_atop aw) aw)
     (s\<lparr> sw_write_bytes := sw_write_bytes s + shl64 1 (unat (pk_size aw)) \<rparr>)"

definition process_ar :: "'e axi_env \<Rightarrow> sw_flags \<Rightarrow> gen \<Rightarrow> a_packet \<Rightarrow> 'e axi_sw \<Rightarrow> ('e axi_sw \<times> sw_event list) option" where
  "process_ar E f g ar s = accept_a E f g (a_of_packet False 0 ar)
     (s\<lparr> sw_read_bytes := sw_read_bytes s + shl64 1 (unat (pk_size ar)), sw_pending_reads := sw_pending_reads s + 1 \<rparr>)"

definition sw_process_w :: "'e axi_env \<Rightarrow> sw_flags \<Rightarrow> gen \<Rightarrow> w_t \<Rightarrow> 'e axi_sw \<Rightarrow> ('e axi_sw \<times> sw_event list) option" where
  "sw_process_w E f g w s = do {
     s \<leftarrow> (if fl_reorder_window f \<le> 1 then do { b \<leftarrow> axi_w E w (sw_bus s); Some (s\<lparr> sw_bus := b \<rparr>) }
           else pop_if_full E f g (s\<lparr> sw_w_window := sw_w_window s @ [w] \<rparr>));
     all_resp f s
   }"

definition process_flush :: "'e axi_env \<Rightarrow> sw_flags \<Rightarrow> 'e axi_sw \<Rightarrow> ('e axi_sw \<times> sw_event list) option" where
  "process_flush E f s =
     (if sw_a_window s \<noteq> [] then do { (_, s) \<leftarrow> pop_reorder_q E True id s; all_resp f s } else Some (s, []))"

section \<open>FIFO pointers\<close>

definition process_r_ptr :: "sw_flags \<Rightarrow> u64 \<Rightarrow> u32 \<Rightarrow> 'e axi_sw \<Rightarrow> ('e axi_sw \<times> sw_event list) option" where
  "process_r_ptr f clock p s =
     (if f_time (sw_r_fifo s) < clock
      then sw_r_resp f (s\<lparr> sw_r_fifo := (sw_r_fifo s)\<lparr> f_time := clock, f_rptr := p \<rparr> \<rparr>) else Some (s, []))"

definition process_b_ptr :: "sw_flags \<Rightarrow> u64 \<Rightarrow> u32 \<Rightarrow> 'e axi_sw \<Rightarrow> ('e axi_sw \<times> sw_event list) option" where
  "process_b_ptr f clock p s =
     (if f_time (sw_b_fifo s) < clock
      then sw_b_resp f (s\<lparr> sw_b_fifo := (sw_b_fifo s)\<lparr> f_time := clock, f_rptr := p \<rparr> \<rparr>) else Some (s, []))"

function r_dpi_all :: "(nat \<Rightarrow> gen) \<Rightarrow> nat \<Rightarrow> 'e axi_sw \<Rightarrow> (nat \<times> 'e axi_sw \<times> sw_event list) option" where
  "r_dpi_all gs i s = (case r_dpi (gs i) s of
     None \<Rightarrow> None
   | Some (False, s', e) \<Rightarrow> Some (0, s', e)
   | Some (True, s', e) \<Rightarrow> do { (n, s'', es) \<leftarrow> r_dpi_all gs (Suc i) s'; Some (Suc n, s'', e @ es) })"
  by pat_completeness auto
termination
  by (relation "measure (\<lambda>(gs, i, s). length (sw_r_q s))") (auto simp: r_dpi_def split: list.splits if_splits)

declare r_dpi_all.simps [simp del]

text \<open>
  A blocking update of the read pointer: \<^verbatim>\<open>got_lock\<close> tells whether the mutex of the response
  calls was free.  The first component of the result is the success reported to the caller.
\<close>

definition process_r_ptr_blocking :: "sw_flags \<Rightarrow> bool \<Rightarrow> (nat \<Rightarrow> gen) \<Rightarrow> u64 \<Rightarrow> u32 \<Rightarrow> 'e axi_sw \<Rightarrow>
    (bool \<times> 'e axi_sw \<times> sw_event list) option" where
  "process_r_ptr_blocking f got_lock gs clock p s =
     (if sw_pending_reads s = 0 \<and> \<not> fl_cb_async f then Some (True, s, [])
      else if \<not> f_time (sw_r_fifo s) < clock then None
      else do {
        (s, e1) \<leftarrow> sw_r_resp f (s\<lparr> sw_r_fifo := (sw_r_fifo s)\<lparr> f_time := clock, f_rptr := p \<rparr> \<rparr>);
        if \<not> got_lock then Some (False, s, e1)
        else do {
          (sent, s, e2) \<leftarrow> r_dpi_all gs 0 s;
          let pending = (sent = 0 \<and> device_accesses_in_flight (ax (sw_bus s)) > 0);
          n \<leftarrow> (if sent \<noteq> 0 \<or> pending then Some 0
                else if sw_spurious s = 2 ^ 31 - 1 then None else Some (sw_spurious s + 1));
          let e3 = (if fl_spurious_allowed f \<ge> 0 \<and> n > fl_spurious_allowed f then [Spurious_flush n] else []);
          let s = s\<lparr> sw_spurious := n \<rparr>;
          Some (sent \<noteq> 0 \<or> pending, s, e1 @ e2 @ e3)
        }
      })"

definition sw_reset_ptrs :: "'e axi_sw \<Rightarrow> 'e axi_sw" where
  "sw_reset_ptrs s = s\<lparr> sw_r_fifo := (sw_r_fifo s)\<lparr> f_rptr := 0, f_wptr := 0, f_time := 0 \<rparr>,
     sw_b_fifo := (sw_b_fifo s)\<lparr> f_rptr := 0, f_wptr := 0, f_time := 0 \<rparr>,
     sw_bus := (sw_bus s)\<lparr> ax := axi_reset (ax (sw_bus s)) \<rparr> \<rparr>"

definition get_uint64_pair :: "string \<Rightarrow> (bool \<times> u64 \<times> u64) option" where
  "get_uint64_pair value =
     (case split_from CHR '':'' value of
        [a, b] \<Rightarrow> do {
          mn \<leftarrow> stoull 0 a;
          mx \<leftarrow> stoull 0 b;
          Some (\<not> (mx \<le> mn \<or> 65536 \<le> mx), mn, mx)
        }
      | _ \<Rightarrow> Some (False, 0, 0))"

definition validate_add_response_latency_range :: "string \<Rightarrow> bool option" where
  "validate_add_response_latency_range value = map_option fst (get_uint64_pair value)"

definition sw_fifo_new :: "u32 \<Rightarrow> u32 \<Rightarrow> sw_fifo" where
  "sw_fifo_new mx ptr_max = \<lparr> f_max = mx, f_ptr_max = ptr_max, f_rptr = 0, f_wptr = 0, f_time = 0 \<rparr>"

text \<open>The constructor, on the bus of a new engine and the attributes of the topology.\<close>

definition sw_new :: "sw_flags \<Rightarrow> 'e bus \<Rightarrow> nat \<Rightarrow> sw_fifo \<Rightarrow> sw_fifo \<Rightarrow> ('e axi_sw \<times> sw_event list) option" where
  "sw_new f bus width rq bq = do {
     (ok, mn, mx) \<leftarrow> get_uint64_pair (fl_latency_range f);
     let lo = ucast mn;
     let hi = ucast mx;
     let random_latency = (lo \<noteq> 0 \<or> hi \<noteq> 1 \<or> fl_reorder_window f \<noteq> 0);
     let conflict = (\<lambda>b. if b \<and> random_latency then [Conflicting_latency_options] else []);
     Some (\<lparr> sw_bus = bus, sw_data_width = width, sw_r_fifo = rq, sw_b_fifo = bq, sw_r_q = [], sw_b_q = [],
         sw_a_window = [], sw_w_window = [], sw_read_bytes = 0, sw_write_bytes = 0, sw_lat_min = lo, sw_lat_max = hi,
         sw_pending_reads = 0, sw_spurious = 0 \<rparr>,
       (if ok then [] else [Bad_latency_range]) @ conflict (fl_read_latency_fixed f \<noteq> 0) @
       conflict (fl_read_latency_max f \<noteq> 0) @ conflict (fl_fast_write_response f))
   }"

section \<open>The calls from the hardware side\<close>

definition axi_sw_reset_ptrs :: "'e axi_sw \<Rightarrow> u8 \<times> 'e axi_sw \<times> sw_event list" where
  "axi_sw_reset_ptrs s = (0, sw_reset_ptrs s, [Fifo_r_reset, Fifo_b_reset])"

definition axi_sw_flush :: "sw_flags \<Rightarrow> bool \<Rightarrow> bool \<Rightarrow> (nat \<Rightarrow> gen) \<Rightarrow> u64 \<Rightarrow> u32 \<Rightarrow> 'e axi_sw \<Rightarrow>
    (bool \<times> 'e axi_sw \<times> sw_event list) option" where
  "axi_sw_flush f destroyed got_lock gs clock p s =
     (if destroyed then Some (True, s, []) else process_r_ptr_blocking f got_lock gs clock p s)"

section \<open>FIFO occupancy\<close>

text \<open>The topology gives the pointers more values than the FIFO has entries.\<close>

definition sw_fifo_ok :: "sw_fifo \<Rightarrow> bool" where
  "sw_fifo_ok q \<longleftrightarrow> f_max q < f_ptr_max q \<and> unat (f_ptr_max q) \<le> 2 ^ 31 \<and> f_rptr q < f_ptr_max q \<and> f_wptr q < f_ptr_max q"

definition occupancy :: "sw_fifo \<Rightarrow> nat" where
  "occupancy q = (unat (f_wptr q) + unat (f_ptr_max q) - unat (f_rptr q)) mod unat (f_ptr_max q)"

lemma sw_size_occupancy:
  assumes "sw_fifo_ok q"
  shows "map_option unat (sw_size q) = Some (occupancy q)"
proof -
  have le: "unat (f_wptr q) < unat (f_ptr_max q)" "unat (f_rptr q) < unat (f_ptr_max q)" "unat (f_ptr_max q) \<le> 2 ^ 31"
    using assms by (simp_all add: sw_fifo_ok_def word_less_nat_alt)
  have add: "unat (f_wptr q + f_ptr_max q) = unat (f_wptr q) + unat (f_ptr_max q)"
    using le by (subst unat_add_lem [symmetric]) simp
  have "unat (f_wptr q + f_ptr_max q - f_rptr q) = unat (f_wptr q) + unat (f_ptr_max q) - unat (f_rptr q)"
    using le add by (subst unat_sub) (simp_all add: word_le_nat_alt)
  moreover have "f_ptr_max q \<noteq> 0"
    using le by auto
  ultimately show ?thesis
    by (simp add: sw_size_def occupancy_def unat_mod)
qed

lemma sw_full_occupancy:
  assumes "sw_fifo_ok q"
  shows "sw_full q = Some (unat (f_max q) \<le> occupancy q)"
  using sw_size_occupancy [OF assms] by (auto simp: sw_full_def word_le_nat_alt)

lemma mod_advance:
  fixes w r p :: nat
  assumes "w < p" "r < p" "(w + p - r) mod p + 1 < p"
  shows "((w + 1) mod p + p - r) mod p = (w + p - r) mod p + 1"
proof -
  have "((w + 1) mod p + p - r) mod p = ((w + 1) mod p + (p - r)) mod p"
    using assms(2) by simp
  also have "\<dots> = (w + 1 + (p - r)) mod p"
    by (simp add: mod_add_left_eq)
  also have "\<dots> = (w + p - r + 1) mod p"
    using assms(2) by (simp add: algebra_simps)
  also have "\<dots> = ((w + p - r) mod p + 1) mod p"
    by (simp add: mod_Suc_eq)
  finally show ?thesis
    using assms(3) by simp
qed

lemma advance_occupancy:
  assumes ok: "sw_fifo_ok q" and room: "occupancy q < unat (f_max q)"
  shows "sw_fifo_ok (sw_advance q)" and "occupancy (sw_advance q) = occupancy q + 1"
    and "f_max (sw_advance q) = f_max q"
proof -
  have lt: "unat (f_wptr q) < unat (f_ptr_max q)" "unat (f_rptr q) < unat (f_ptr_max q)" "unat (f_ptr_max q) \<le> 2 ^ 31"
    "unat (f_max q) < unat (f_ptr_max q)"
    using ok by (simp_all add: sw_fifo_ok_def word_less_nat_alt)
  have w: "unat ((f_wptr q + 1) mod f_ptr_max q) = (unat (f_wptr q) + 1) mod unat (f_ptr_max q)"
    using lt by (simp add: unat_mod, subst unat_add_lem [THEN iffD1]) simp_all
  show "sw_fifo_ok (sw_advance q)"
    using ok lt w by (simp add: sw_fifo_ok_def sw_advance_def word_less_nat_alt)
  show "occupancy (sw_advance q) = occupancy q + 1"
    using mod_advance [OF lt(1,2)] room lt(4) w by (simp add: occupancy_def sw_advance_def)
  show "f_max (sw_advance q) = f_max q"
    by (simp add: sw_advance_def)
qed

lemma r_resp_stop:
  assumes "sw_fifo_ok (sw_r_fifo s)" and "unat (f_max (sw_r_fifo s)) \<le> occupancy (sw_r_fifo s) \<or> r_q (ax (sw_bus s)) = []"
  shows "sw_r_resp f s = Some (s, [])"
  using assms by (subst sw_r_resp.simps) (auto simp: sw_full_occupancy axi_r_def)

lemma r_resp_step:
  assumes "sw_fifo_ok (sw_r_fifo s)" and "occupancy (sw_r_fifo s) < unat (f_max (sw_r_fifo s))" and "r_q (ax (sw_bus s)) = r # q"
  shows "sw_r_resp f s = do {
    (s', evs) \<leftarrow> sw_r_resp f (s\<lparr> sw_bus := (sw_bus s)\<lparr> ax := (ax (sw_bus s))\<lparr> r_q := q \<rparr> \<rparr>,
      sw_pending_reads := sw_pending_reads s - 1, sw_r_fifo := sw_advance (sw_r_fifo s), sw_r_q := sw_r_q s @ [r] \<rparr>);
    Some (s', (if fl_read_no_callbacks f then [] else [Callback_r]) @ evs) }"
  using assms by (subst sw_r_resp.simps) (simp add: sw_full_occupancy axi_r_def)

definition handed_over :: "sw_flags \<Rightarrow> 'e axi_sw \<Rightarrow> nat \<Rightarrow> 'e axi_sw \<Rightarrow> sw_event list \<Rightarrow> bool" where
  "handed_over f s k s' evs \<longleftrightarrow>
     sw_r_q s' = sw_r_q s @ take k (r_q (ax (sw_bus s))) \<and> r_q (ax (sw_bus s')) = drop k (r_q (ax (sw_bus s))) \<and>
     sw_fifo_ok (sw_r_fifo s') \<and> occupancy (sw_r_fifo s') = occupancy (sw_r_fifo s) + k \<and>
     evs = (if fl_read_no_callbacks f then [] else replicate k Callback_r) \<and>
     sw_pending_reads s' = sw_pending_reads s - of_nat k"

lemma r_resp_moves:
  assumes "sw_fifo_ok (sw_r_fifo s)"
    and "k = min (unat (f_max (sw_r_fifo s)) - occupancy (sw_r_fifo s)) (length (r_q (ax (sw_bus s))))"
  shows "\<exists>s' evs. sw_r_resp f s = Some (s', evs) \<and> handed_over f s k s' evs"
  using assms
proof (induction k arbitrary: s)
  case 0
  then have "unat (f_max (sw_r_fifo s)) \<le> occupancy (sw_r_fifo s) \<or> r_q (ax (sw_bus s)) = []"
    by (auto simp: min_def split: if_splits)
  from r_resp_stop [OF 0(1) this] 0(1) show ?case
    by (simp add: handed_over_def)
next
  case (Suc k)
  let ?F = "sw_r_fifo s"
  have room: "occupancy ?F < unat (f_max ?F)"
    using Suc.prems(2) by linarith
  obtain r q where q: "r_q (ax (sw_bus s)) = r # q"
    using Suc.prems(2) by (cases "r_q (ax (sw_bus s))") auto
  let ?s = "s\<lparr> sw_bus := (sw_bus s)\<lparr> ax := (ax (sw_bus s))\<lparr> r_q := q \<rparr> \<rparr>, sw_pending_reads := sw_pending_reads s - 1,
               sw_r_fifo := sw_advance ?F, sw_r_q := sw_r_q s @ [r] \<rparr>"
  note adv = advance_occupancy [OF Suc.prems(1) room]
  have "k = min (unat (f_max (sw_r_fifo ?s)) - occupancy (sw_r_fifo ?s)) (length (r_q (ax (sw_bus ?s))))"
    using Suc.prems(2) q adv room by simp
  then obtain s' evs where ih: "sw_r_resp f ?s = Some (s', evs)" "handed_over f ?s k s' evs"
    using Suc.IH [of ?s] adv(1) by auto
  show ?case
    using r_resp_step [OF Suc.prems(1) room q, of f] ih q adv(2) by (simp add: handed_over_def)
qed

text \<open>
  C16: handing over read responses always ends.  It moves exactly as many beats as the engine has
  and the FIFO has room for, the oldest first and in their order, behind the beats already
  waiting; the FIFO then holds that many more entries and never more than its size, one
  callback is requested per beat unless callbacks are off, and the count of pending reads
  falls by one for each beat moved, not for each finished burst.
\<close>

theorem responses_handed_over:
  assumes "sw_fifo_ok (sw_r_fifo s)"
    and "k = min (unat (f_max (sw_r_fifo s)) - occupancy (sw_r_fifo s)) (length (r_q (ax (sw_bus s))))"
  shows "\<exists>s' evs. sw_r_resp f s = Some (s', evs) \<and>
    sw_r_q s' = sw_r_q s @ take k (r_q (ax (sw_bus s))) \<and> r_q (ax (sw_bus s')) = drop k (r_q (ax (sw_bus s))) \<and>
    occupancy (sw_r_fifo s') = occupancy (sw_r_fifo s) + k \<and>
    evs = (if fl_read_no_callbacks f then [] else replicate k Callback_r) \<and>
    sw_pending_reads s' = sw_pending_reads s - of_nat k"
  using r_resp_moves [OF assms, of f] unfolding handed_over_def by blast

definition sample_sw :: "a_t list \<Rightarrow> w_t list \<Rightarrow> r_t list \<Rightarrow> unit axi_sw" where
  "sample_sw as ws rs = \<lparr> sw_bus = \<lparr> ax = (axi_new axi_flags_default 64)\<lparr> r_q := rs \<rparr>, mon = eam_default, env = (), errors = [] \<rparr>,
     sw_data_width = 64, sw_r_fifo = sw_fifo_new 2 4, sw_b_fifo = sw_fifo_new 2 4, sw_r_q = [], sw_b_q = [],
     sw_a_window = as, sw_w_window = ws, sw_read_bytes = 0, sw_write_bytes = 0, sw_lat_min = 0, sw_lat_max = 1,
     sw_pending_reads = 1, sw_spurious = 0 \<rparr>"

definition sample_sw_flags :: sw_flags where
  "sample_sw_flags = \<lparr> fl_reorder_window = 2, fl_fast_write_response = False, fl_read_no_callbacks = False,
     fl_cb_async = False, fl_spurious_allowed = -1, fl_latency_range = ''0:1'', fl_read_latency_fixed = 0,
     fl_read_latency_max = 0 \<rparr>"

definition sample_beat :: "bool \<Rightarrow> r_t" where
  "sample_beat l = \<lparr> r_id = 9, r_resp = RESP_OKAY, r_data = replicate 8 0, r_last = l \<rparr>"

text \<open>One read of three beats is pending; two beats fit, and the count of pending reads is already below zero.\<close>

theorem responses_handed_over_witness:
  "\<exists>s' evs. sw_r_resp sample_sw_flags (sample_sw [] [] [sample_beat False, sample_beat False, sample_beat True]) = Some (s', evs) \<and>
     sw_r_q s' = [sample_beat False, sample_beat False] \<and> evs = [Callback_r, Callback_r] \<and> sw_pending_reads s' = - 1"
proof -
  let ?s = "sample_sw [] [] [sample_beat False, sample_beat False, sample_beat True]"
  have ok: "sw_fifo_ok (sw_r_fifo ?s)" and k: "2 = min (unat (f_max (sw_r_fifo ?s)) - occupancy (sw_r_fifo ?s)) (length (r_q (ax (sw_bus ?s))))"
    by code_simp+
  have v: "r_q (ax (sw_bus ?s)) = [sample_beat False, sample_beat False, sample_beat True]" "sw_r_q ?s = []" "sw_pending_reads ?s = 1"
    "\<not> fl_read_no_callbacks sample_sw_flags"
    by (simp_all add: sample_sw_def sample_sw_flags_def)
  show ?thesis
    using responses_handed_over [OF ok k, of sample_sw_flags] unfolding v by (auto simp: v(4) numeral_2_eq_2)
qed

section \<open>What the reorder window promises\<close>

text \<open>
  The abstract view of the window is a list of requests, each with its own write beats.  A
  request is delivered by giving it to the engine and then its beats, in their order.
\<close>

fun w_all :: "'e axi_env \<Rightarrow> w_t list \<Rightarrow> 'e bus \<Rightarrow> 'e bus option" where
  "w_all E [] b = Some b"
| "w_all E (w # ws) b = do { b \<leftarrow> axi_w E w b; w_all E ws b }"

definition deliver :: "'e axi_env \<Rightarrow> a_t \<Rightarrow> w_t list \<Rightarrow> 'e bus \<Rightarrow> 'e bus option" where
  "deliver E a ws b = do { b \<leftarrow> axi_a E a b; w_all E ws b }"

definition own_beats :: "a_t \<times> w_t list \<Rightarrow> bool" where
  "own_beats p \<longleftrightarrow> length (snd p) = (if a_w (fst p) then burst_len (fst p) else 0)"

definition without :: "nat \<Rightarrow> 'a list \<Rightarrow> 'a list" where
  "without i xs = take i xs @ drop (Suc i) xs"

definition same_stream :: "a_t \<Rightarrow> a_t \<Rightarrow> bool" where
  "same_stream a b \<longleftrightarrow> a_id a = a_id b \<and> a_w a = a_w b"

lemma feed_w_all:
  assumes "sw_w_window s = xs @ ws @ ys"
  shows "feed_w E (length xs) (length ws) s =
    map_option (\<lambda>b. s\<lparr> sw_bus := b, sw_w_window := xs @ ys \<rparr>) (w_all E ws (sw_bus s))"
  using assms
proof (induction ws arbitrary: s)
  case Nil
  then show ?case by (simp add: surjective)
next
  case (Cons w ws)
  have "vec_get (sw_w_window s) (length xs) = Some w"
    using Cons.prems by (simp add: vec_get_def nth_append)
  then show ?case
    using Cons.prems Cons.IH by (cases "axi_w E w (sw_bus s)") simp_all
qed

lemma prior_writes_nat:
  assumes "list_all own_beats bs" and "length bs \<le> 2 ^ 20"
  shows "unat (prior_writes (map fst bs)) = length (concat (map snd bs)) \<and> length (concat (map snd bs)) \<le> 256 * length bs"
  using assms
proof (induction bs)
  case Nil
  show ?case by (simp add: prior_writes_def)
next
  case (Cons p bs)
  have p: "length (snd p) = (if a_w (fst p) then burst_len (fst p) else 0)" "length (snd p) \<le> 256"
    using Cons.prems unat_less_u8 [of "a_len (fst p)"] by (auto simp: own_beats_def burst_len_def)
  have ih: "unat (prior_writes (map fst bs)) = length (concat (map snd bs))" "length (concat (map snd bs)) \<le> 256 * length bs"
    using Cons by auto
  have "prior_writes (map fst (p # bs)) = of_nat (length (snd p)) + prior_writes (map fst bs)"
    using p(1) by (simp add: prior_writes_def)
  moreover have "unat (of_nat (length (snd p)) :: u32) = length (snd p)"
    using p(2) by (simp add: unat_of_nat take_bit_nat_eq_self)
  ultimately have "unat (prior_writes (map fst (p # bs))) = length (snd p) + length (concat (map snd bs))"
    using ih p(2) Cons.prems(2) by (simp, subst unat_add_lem [THEN iffD1]) simp_all
  then show ?case
    using ih p(2) by simp
qed

lemma first_of_stream:
  assumes "x \<in> set xs"
  defines "i \<equiv> length (takeWhile (\<lambda>p. \<not> (a_id p = a_id x \<and> a_w p = a_w x)) xs)"
  shows "i < length xs" and "same_stream (xs ! i) x" and "j < i \<Longrightarrow> \<not> same_stream (xs ! j) (xs ! i)"
proof -
  let ?P = "\<lambda>p. \<not> (a_id p = a_id x \<and> a_w p = a_w x)"
  show i: "i < length xs"
    unfolding i_def using assms(1) by (metis (mono_tags, lifting) length_takeWhile_le nat_less_le takeWhile_eq_all_conv takeWhile_eq_take take_all_iff order_refl)
  show s: "same_stream (xs ! i) x"
    using nth_length_takeWhile [of ?P xs] i by (simp add: i_def same_stream_def)
  show "j < i \<Longrightarrow> \<not> same_stream (xs ! j) (xs ! i)"
    using s takeWhile_nth [of j ?P xs] nth_mem [of j "takeWhile ?P xs"] set_takeWhileD [of "xs ! j" ?P xs]
    by (auto simp: i_def same_stream_def)
qed

lemma split_at:
  assumes "i < length bs"
  shows "bs = take i bs @ bs ! i # drop (Suc i) bs"
  using assms by (simp add: id_take_nth_drop)

lemma window_split:
  assumes "prefix W (C @ ws @ D)" and "length C + length ws \<le> length W"
  shows "\<exists>Y. W = C @ ws @ Y \<and> prefix (C @ Y) (C @ D)"
proof -
  obtain Z where Z: "(C @ ws) @ D = W @ Z"
    using assms(1) by (auto simp: prefix_def)
  then obtain Y where Y: "W = (C @ ws) @ Y" "D = Y @ Z"
    using assms(2) by (auto simp: append_eq_append_conv2)
  then show ?thesis by auto
qed

text \<open>The part of the pop after the position is known.\<close>

definition pop_at :: "'e axi_env \<Rightarrow> nat \<Rightarrow> 'e axi_sw \<Rightarrow> (bool \<times> 'e axi_sw) option" where
  "pop_at E pos s =
     (let win = sw_a_window s;
          a = win ! pos;
          s' = s\<lparr> sw_a_window := take pos win @ drop (Suc pos) win \<rparr>
      in if a_w a then
           let prior = unat (prior_writes (take pos win)) in
           if length (sw_w_window s) < prior + burst_len a then Some (False, s)
           else do {
             b \<leftarrow> axi_a E a (sw_bus s');
             s \<leftarrow> feed_w E prior (burst_len a) (s'\<lparr> sw_bus := b \<rparr>);
             Some (True, s)
           }
         else do {
           b \<leftarrow> axi_a E a (sw_bus s');
           Some (True, s'\<lparr> sw_bus := b \<rparr>)
         })"

lemma pick_in_range:
  fixes g :: gen
  assumes "\<forall>n > 0. g n < n" and "0 < n" and "n \<le> 2 ^ 20"
  shows "unat (ucast (g (of_nat n)) :: u32) < n"
proof -
  have n: "unat (of_nat n :: u64) = n"
    using assms(3) by (simp add: unat_of_nat take_bit_nat_eq_self)
  then have "g (of_nat n) < of_nat n"
    using assms(1,2) by (metis unat_0 neq0_conv unat_eq_zero word_gt_0)
  then have "unat (g (of_nat n)) < n"
    using n by (simp add: word_less_nat_alt)
  moreover have "unat (ucast (g (of_nat n)) :: u32) \<le> unat (g (of_nat n))"
    by (simp add: unsigned_ucast_eq unsigned_take_bit_eq take_bit_eq_mod)
  ultimately show ?thesis by linarith
qed

lemma pop_at_delivers:
  assumes own: "list_all own_beats bs" and small: "length bs \<le> 2 ^ 20"
    and win: "sw_a_window s = map fst bs" and pre: "prefix (sw_w_window s) (concat (map snd bs) @ later)"
    and i: "i < length bs"
  shows "if a_w (fst (bs ! i)) \<and> length (sw_w_window s) < length (concat (map snd (take (Suc i) bs)))
     then pop_at E i s = Some (False, s)
     else \<exists>W. prefix W (concat (map snd (without i bs)) @ later) \<and>
       pop_at E i s = map_option
         (\<lambda>b. (True, s\<lparr> sw_bus := b, sw_a_window := map fst (without i bs), sw_w_window := W \<rparr>))
         (deliver E (fst (bs ! i)) (snd (bs ! i)) (sw_bus s))"
proof -
  obtain a ws where p: "bs ! i = (a, ws)" by (cases "bs ! i")
  define C D where "C = concat (map snd (take i bs))" and "D = concat (map snd (drop (Suc i) bs)) @ later"
  have all: "concat (map snd bs) @ later = C @ ws @ D"
    by (subst split_at [OF i]) (simp add: C_def D_def p)
  have rest: "concat (map snd (without i bs)) @ later = C @ D"
    by (simp add: without_def C_def D_def)
  have upto: "length (concat (map snd (take (Suc i) bs))) = length C + length ws"
    using i p by (simp add: take_Suc_conv_app_nth C_def)
  have ws: "length ws = (if a_w a then burst_len a else 0)"
    using own i p by (auto simp: list_all_length own_beats_def)
  have prior: "unat (prior_writes (take i (map fst bs))) = length C"
    using prior_writes_nat [of "take i bs"] own small by (simp add: take_map C_def list_all_length)
  have win': "take i (map fst bs) @ drop (Suc i) (map fst bs) = map fst (without i bs)"
    by (simp add: without_def take_map drop_map)
  have a: "map fst bs ! i = a"
    using i p by simp
  note pop = pop_at_def [of E i s, unfolded win Let_def prior win' a]
  show ?thesis
  proof (cases "a_w a")
    case False
    then have "ws = []" using ws by simp
    with False show ?thesis
      using pre all rest
      by (cases "axi_a E a (sw_bus s)") (auto simp: pop p deliver_def intro!: exI [of _ "sw_w_window s"])
  next
    case w: True
    show ?thesis
    proof (cases "length (sw_w_window s) < length C + length ws")
      case True
      then show ?thesis using w ws by (simp add: pop upto p)
    next
      case False
      then obtain Y where Y: "sw_w_window s = C @ ws @ Y" "prefix (C @ Y) (C @ D)"
        using window_split [of "sw_w_window s" C ws D] pre all by auto
      have "pop_at E i s = map_option
         (\<lambda>b. (True, s\<lparr> sw_bus := b, sw_a_window := map fst (without i bs), sw_w_window := C @ Y \<rparr>))
         (deliver E a ws (sw_bus s))"
      proof (cases "axi_a E a (sw_bus s)")
        case (Some b)
        let ?s = "s\<lparr> sw_a_window := map fst (without i bs), sw_bus := b \<rparr>"
        have "feed_w E (length C) (burst_len a) ?s = map_option (\<lambda>b. ?s\<lparr> sw_bus := b, sw_w_window := C @ Y \<rparr>) (w_all E ws b)"
          using feed_w_all [of ?s C ws Y E] Y(1) w ws by simp
        then show ?thesis
          using w ws False Some by (cases "w_all E ws b") (simp_all add: pop deliver_def)
      qed (use w ws False in \<open>simp add: pop deliver_def\<close>)
      then show ?thesis
        using Y(2) False unfolding rest upto p by (auto intro!: exI [of _ "C @ Y"])
    qed
  qed
qed

text \<open>
  C10: whatever the random source draws, a nonempty window gives up the oldest request of some
  stream, a stream being the requests of one id and one direction.  A write whose beats have
  not all arrived changes nothing.  Otherwise the engine is given that request and then
  exactly its own write beats, in their order, and nothing else; the window keeps all the other
  requests in their order, and the buffered beats stay lined up with them, even when beats
  arrive before their request.  A flush takes the very first request.  So no request or beat is
  lost, repeated or paired with another burst, and no stream is reordered.
\<close>

theorem reorder_window_pairs:
  assumes "list_all own_beats bs" and "bs \<noteq> []" and "length bs \<le> 2 ^ 20"
    and "sw_a_window s = map fst bs" and "prefix (sw_w_window s) (concat (map snd bs) @ later)"
    and "\<forall>n > 0. g n < n"
  shows "\<exists>i < length bs. (oldest \<longrightarrow> i = 0) \<and> (\<forall>j < i. \<not> same_stream (fst (bs ! j)) (fst (bs ! i))) \<and>
    (if a_w (fst (bs ! i)) \<and> length (sw_w_window s) < length (concat (map snd (take (Suc i) bs)))
     then pop_reorder_q E oldest g s = Some (False, s)
     else \<exists>W. prefix W (concat (map snd (without i bs)) @ later) \<and>
       pop_reorder_q E oldest g s = map_option
         (\<lambda>b. (True, s\<lparr> sw_bus := b, sw_a_window := map fst (without i bs), sw_w_window := W \<rparr>))
         (deliver E (fst (bs ! i)) (snd (bs ! i)) (sw_bus s)))"
proof -
  define win where "win = sw_a_window s"
  define at where "at = (if oldest then 0 else unat (ucast (g (of_nat (length win))) :: u32))"
  have len: "length win = length bs" "win \<noteq> []" "win = map fst bs"
    using assms(2,4) by (auto simp: win_def)
  have at: "at < length win"
    using pick_in_range [of g "length win"] assms(3,6) len by (auto simp: at_def)
  define i where "i = length (takeWhile (\<lambda>p. \<not> (a_id p = a_id (win ! at) \<and> a_w p = a_w (win ! at))) win)"
  note first = first_of_stream [OF nth_mem [OF at], folded i_def]
  have pop: "pop_reorder_q E oldest g s = pop_at E i s"
    using len(2) at unfolding pop_reorder_q_def pop_at_def Let_def win_def [symmetric] at_def [symmetric] i_def
    by (simp only: vec_get_def if_True if_False bind.bind_lunit)
  have i: "i < length bs"
    using first(1) len by simp
  have "oldest \<longrightarrow> i = 0"
    using len(2) by (cases win) (simp_all add: i_def at_def)
  moreover have "\<forall>j < i. \<not> same_stream (fst (bs ! j)) (fst (bs ! i))"
    using first(3) i by (simp add: len(3))
  ultimately show ?thesis
    using pop_at_delivers [OF assms(1,3-5) i, of E] i unfolding pop by blast
qed

definition sample_bursts :: "(a_t \<times> w_t list) list" where
  "sample_bursts =
     (let w = (\<lambda>x l. \<lparr> w_data = replicate 8 x, w_strb = replicate 8 True, w_last = l \<rparr>) in
      [(a_of_no_id 1 (a_no_id_new True 0x1000 3), [w 1 True]),
       (a_of_no_id 1 (a_no_id_new False 0x1000 3), []),
       ((a_of_no_id 2 (a_no_id_new True 0x2000 3))\<lparr> a_len := 1 \<rparr>, [w 2 False, w 3 True])])"

text \<open>A flush of a window of three requests delivers the first one and its beat.\<close>

theorem reorder_window_pairs_witness:
  "\<exists>W. prefix W (concat (map snd (without 0 sample_bursts)) @ []) \<and>
     pop_reorder_q silent_env True (\<lambda>n. n - 1) (sample_sw (map fst sample_bursts) (concat (map snd sample_bursts)) []) =
     map_option (\<lambda>b. (True, (sample_sw (map fst sample_bursts) (concat (map snd sample_bursts)) [])
         \<lparr> sw_bus := b, sw_a_window := map fst (without 0 sample_bursts), sw_w_window := W \<rparr>))
       (deliver silent_env (fst (sample_bursts ! 0)) (snd (sample_bursts ! 0))
         (sw_bus (sample_sw (map fst sample_bursts) (concat (map snd sample_bursts)) [])))"
proof -
  let ?s = "sample_sw (map fst sample_bursts) (concat (map snd sample_bursts)) []"
  have own: "list_all own_beats sample_bursts" and ne: "sample_bursts \<noteq> []" and small: "length sample_bursts \<le> 2 ^ 20"
    by code_simp+
  have ready: "\<not> length (sw_w_window ?s) < length (concat (map snd (take (Suc 0) sample_bursts)))"
    by code_simp
  have win: "sw_a_window ?s = map fst sample_bursts" "prefix (sw_w_window ?s) (concat (map snd sample_bursts) @ [])"
    by (simp_all add: sample_sw_def)
  have draw: "\<forall>n > 0. n - 1 < (n :: u64)"
    by (auto simp: word_less_nat_alt unat_minus_one unat_gt_0)
  show ?thesis
    using reorder_window_pairs [OF own ne small win draw, of True silent_env] ready by auto
qed

end
