(* ===== verification/AxiMst.thy ===== *)
theory AxiMst
  imports AxiTypes "HOL-Library.Multiset"
begin

text \<open>
  The AXI manager of \<^verbatim>\<open>transactors/axi_sw/axi_sw_mst.h\<close>: it allocates transaction ids, turns
  read and write requests into address and data packets, queues them and sends
  them when the hardware FIFOs have room.  Random draws are arguments.
\<close>

section \<open>State\<close>

record mst_flags =
  fl_allow_slverr :: bool
  fl_allow_decerr :: bool
  fl_rand_id_alloc :: bool
  fl_disable_seqid_alloc :: bool
  fl_greedy_queue :: bool

datatype txn = A_txn a_t | W_txn w_t

datatype mst_event =
    Ar_out a_t
  | Aw_out a_t
  | W_out data_t data_t bool
  | B_signal b_t
  | R_signal r_t
  | Write_resp write_response_t
  | Read_resp read_response_t
  | Bad_b u32 u8
  | Bad_r u32 u8
  | Bad_request u32
  | No_free_id
  | Crosses_4k u64 nat
  | Strb_empty
  | Strb_mismatch
  | Bad_width

record fifo_ptr =
  q_max :: u64
  q_ptr_max :: u64
  q_rptr :: u32
  q_wptr :: u32

record axi_mst =
  mst_id_width :: nat
  mst_data_width :: nat
  mst_strb_width :: nat
  mst_ar :: fifo_ptr
  mst_aw :: fifo_ptr
  mst_w :: fifo_ptr
  mst_ids :: "bool list"
  mst_exp_err :: "bool list"
  mst_decerr :: "bool list"
  mst_slverr :: "bool list"
  mst_sizes :: "nat list"
  mst_read_data :: "u32 \<Rightarrow> data_t"
  mst_txns :: "txn list"
  mst_read_bytes :: u64
  mst_write_bytes :: u64
  mst_locked :: bool

definition seqid_width :: nat where
  "seqid_width = 3"

definition sizes_upto :: "nat \<Rightarrow> nat list" where
  "sizes_upto m = map (\<lambda>k. 2 ^ k) (filter (\<lambda>k. 2 ^ k \<le> m) [0..<32])"

definition fifo_ptr_new :: "u64 \<Rightarrow> u64 \<Rightarrow> fifo_ptr" where
  "fifo_ptr_new m pm = \<lparr> q_max = m, q_ptr_max = pm, q_rptr = 0, q_wptr = ucast m \<rparr>"

definition mst_new :: "nat \<Rightarrow> nat \<Rightarrow> nat \<Rightarrow> fifo_ptr \<Rightarrow> fifo_ptr \<Rightarrow> fifo_ptr \<Rightarrow> axi_mst" where
  "mst_new idw dw sw ar aw w =
     (let n = 2 ^ idw in
      \<lparr> mst_id_width = idw, mst_data_width = dw, mst_strb_width = sw, mst_ar = ar, mst_aw = aw, mst_w = w,
        mst_ids = replicate n True, mst_exp_err = replicate n False, mst_decerr = replicate n False,
        mst_slverr = replicate n False, mst_sizes = sizes_upto (dw div 8), mst_read_data = (\<lambda>_. []),
        mst_txns = [], mst_read_bytes = 0, mst_write_bytes = 0, mst_locked = False \<rparr>)"

section \<open>Transaction ids\<close>

definition used_id :: "u32 \<Rightarrow> axi_mst \<Rightarrow> bool option" where
  "used_id i s = map_option Not (vec_get (mst_ids s) (unat i))"

definition free_id :: "u32 \<Rightarrow> axi_mst \<Rightarrow> axi_mst option" where
  "free_id i s = do { ids \<leftarrow> vec_set (mst_ids s) (unat i) True; Some (s\<lparr> mst_ids := ids \<rparr>) }"

definition alloc_id :: "u32 \<Rightarrow> axi_mst \<Rightarrow> axi_mst option" where
  "alloc_id i s = do { ids \<leftarrow> vec_set (mst_ids s) (unat i) False; Some (s\<lparr> mst_ids := ids \<rparr>) }"

definition count_free_ids :: "axi_mst \<Rightarrow> u32" where
  "count_free_ids s = of_nat (length (filter id (mst_ids s)))"

text \<open>The range of ids of a sequence; the ids of a range that reaches past the table cannot be read.\<close>

definition id_range :: "mst_flags \<Rightarrow> u32 \<Rightarrow> axi_mst \<Rightarrow> (nat \<times> nat) option" where
  "id_range f seqid s =
     (if fl_disable_seqid_alloc f then Some (0, length (mst_ids s))
      else if mst_id_width s < seqid_width then None
      else
        let start = unat (shl32 seqid (mst_id_width s - seqid_width));
            stop = start + length (mst_ids s) div 2 ^ seqid_width
        in if start < stop \<and> length (mst_ids s) < stop then None else Some (start, stop))"

definition next_id :: "mst_flags \<Rightarrow> u32 \<Rightarrow> u32 \<Rightarrow> axi_mst \<Rightarrow> (u32 option \<times> axi_mst) option" where
  "next_id f draw seqid s = do {
     (start, stop) \<leftarrow> id_range f seqid s;
     let valid = filter (\<lambda>i. mst_ids s ! i) [start..<stop];
     if valid = [] then Some (None, s)
     else
       let i = (if fl_rand_id_alloc f then valid ! ((unat draw mod length valid) mod 2 ^ 24) else valid ! 0) in
       Some (Some (of_nat i), s\<lparr> mst_ids := (mst_ids s)[i := False] \<rparr>)
   }"

definition set_resp_flags :: "a_t \<Rightarrow> axi_mst \<Rightarrow> axi_mst option" where
  "set_resp_flags a s = do {
     e \<leftarrow> vec_set (mst_exp_err s) (unat (a_id a)) (a_exp_err_rsp a);
     d \<leftarrow> vec_set (mst_decerr s) (unat (a_id a)) (a_allow_decerr_resp a);
     l \<leftarrow> vec_set (mst_slverr s) (unat (a_id a)) (a_allow_slverr_resp a);
     Some (s\<lparr> mst_exp_err := e, mst_decerr := d, mst_slverr := l \<rparr>)
   }"

definition try_lock :: "axi_mst \<Rightarrow> bool \<times> axi_mst" where
  "try_lock s = (\<not> mst_locked s, s\<lparr> mst_locked := True \<rparr>)"

definition release_lock :: "axi_mst \<Rightarrow> axi_mst" where
  "release_lock s = s\<lparr> mst_locked := False \<rparr>"

section \<open>Sending\<close>

definition q_full :: "fifo_ptr \<Rightarrow> bool option" where
  "q_full q =
     (if q_ptr_max q = 0 then None
      else Some (q_max q \<le> (ucast (q_wptr q) + q_ptr_max q - ucast (q_rptr q)) mod q_ptr_max q))"

definition q_advance :: "fifo_ptr \<Rightarrow> fifo_ptr" where
  "q_advance q = q\<lparr> q_wptr := ucast ((ucast (q_wptr q + 1) :: u64) mod q_ptr_max q) \<rparr>"

fun pack_strb :: "strb_t \<Rightarrow> nat \<Rightarrow> data_t \<Rightarrow> data_t" where
  "pack_strb [] i acc = acc"
| "pack_strb (b # bs) i acc =
     pack_strb bs (Suc i) (acc[i div 8 := acc ! (i div 8) OR push_bit (i mod 8) (if b then 1 else 0)])"

definition w_callback :: "w_t \<Rightarrow> axi_mst \<Rightarrow> mst_event list option" where
  "w_callback w s =
     (let strb = pack_strb (w_strb w) 0 (replicate ((length (w_strb w) - 1) div 8 + 1) 0) in
      if length (w_data w) < mst_data_width s div 8 then None
      else if mst_data_width s = 64 \<or> mst_data_width s = 512 then Some [W_out (w_data w) strb (w_last w)]
      else Some [Bad_width])"

fun push :: "txn \<Rightarrow> axi_mst \<Rightarrow> (bool \<times> axi_mst \<times> mst_event list) option" where
  "push (A_txn a) s =
     (if \<not> a_w a then do {
        let s = s\<lparr> mst_read_bytes := mst_read_bytes s + shl64 1 (unat (a_size a)) \<rparr>;
        full \<leftarrow> q_full (mst_ar s);
        if \<not> full then Some (True, s\<lparr> mst_ar := q_advance (mst_ar s) \<rparr>, [Ar_out a]) else Some (False, s, [])
      } else do {
        let s = s\<lparr> mst_write_bytes := mst_write_bytes s + shl64 1 (unat (a_size a)) \<rparr>;
        full \<leftarrow> q_full (mst_aw s);
        if \<not> full then Some (True, s\<lparr> mst_aw := q_advance (mst_aw s) \<rparr>, [Aw_out a]) else Some (False, s, [])
      })"
| "push (W_txn w) s = do {
     full \<leftarrow> q_full (mst_w s);
     if full then Some (False, s, [])
     else do {
       let s = s\<lparr> mst_w := q_advance (mst_w s) \<rparr>;
       if length (w_strb w) = 0 then Some (False, s, [Strb_empty])
       else if length (w_strb w) \<noteq> length (w_data w) then Some (False, s, [Strb_mismatch])
       else do { evs \<leftarrow> w_callback w s; Some (True, s, evs) }
     }
   }"

fun push_list :: "bool \<Rightarrow> txn list \<Rightarrow> axi_mst \<Rightarrow> (txn list \<times> axi_mst \<times> mst_event list) option" where
  "push_list greedy [] s = Some ([], s, [])"
| "push_list greedy (t # ts) s = do {
     (ok, s, e) \<leftarrow> push t s;
     if ok then do { (rest, s, es) \<leftarrow> push_list greedy ts s; Some (rest, s, e @ es) }
     else if \<not> greedy then Some (t # ts, s, e)
     else do { (rest, s, es) \<leftarrow> push_list greedy ts s; Some (t # rest, s, e @ es) }
   }"

definition push_transactions :: "mst_flags \<Rightarrow> axi_mst \<Rightarrow> (axi_mst \<times> mst_event list) option" where
  "push_transactions f s = do {
     (rest, s, evs) \<leftarrow> push_list (fl_greedy_queue f) (mst_txns s) s;
     Some (s\<lparr> mst_txns := rest \<rparr>, evs)
   }"

definition enqueue :: "mst_flags \<Rightarrow> txn list \<Rightarrow> axi_mst \<Rightarrow> (axi_mst \<times> mst_event list) option" where
  "enqueue f ts s = push_transactions f (s\<lparr> mst_txns := mst_txns s @ ts \<rparr>)"

section \<open>Requests\<close>

definition ctz32 :: "u32 \<Rightarrow> nat" where
  "ctz32 x = (case find (bit x) [0..<32] of Some i \<Rightarrow> i | None \<Rightarrow> 32)"

definition a_wrapper :: "mst_flags \<Rightarrow> u32 \<Rightarrow> u64 \<Rightarrow> nat \<Rightarrow> a_t \<Rightarrow> bool \<Rightarrow> axi_mst \<Rightarrow>
    (a_t option \<times> axi_mst \<times> mst_event list) option" where
  "a_wrapper f draw addr len a alloc s = do {
     let a = a\<lparr> a_addr := addr, a_burst := BURST_INCR, a_atop := atop_decode 0, a_lock := False \<rparr>;
     (i, s) \<leftarrow> (if alloc then next_id f draw (a_seqid a) s else Some (Some (a_id a), s));
     (case i of
        None \<Rightarrow> Some (None, s, [No_free_id])
      | Some i \<Rightarrow>
          let a = a\<lparr> a_id := i \<rparr> in
          if addr AND NOT 0xfff \<noteq> (addr + of_nat len - 1) AND NOT 0xfff then Some (None, s, [Crosses_4k addr len])
          else
            let single = (len \<in> set (mst_sizes s)) in
            Some (Some (a\<lparr> a_len := (if single then 0 else of_nat len - 1),
              a_size := (if single then of_nat (ctz32 (of_nat len)) else 0) \<rparr>), s, []))
   }"

definition apply_attr :: "axi_attr_t \<Rightarrow> a_t \<Rightarrow> a_t" where
  "apply_attr t a = a\<lparr> a_cache := at_cache t, a_prot := at_prot t, a_qos := at_qos t, a_region := at_region t, a_user := at_user t \<rparr>"

definition a_blank :: "bool \<Rightarrow> a_t" where
  "a_blank w = a_of_no_id 0 (a_no_id_new w 0 0)"

definition process_a :: "mst_flags \<Rightarrow> a_t \<Rightarrow> axi_mst \<Rightarrow> (axi_mst \<times> mst_event list) option" where
  "process_a f a s = do {
     u \<leftarrow> used_id (a_id a) s;
     if u then Some (s, [Bad_request (a_id a)])
     else do {
       s \<leftarrow> alloc_id (a_id a) s;
       s \<leftarrow> set_resp_flags a s;
       enqueue f [A_txn a] s
     }
   }"

definition process_w :: "mst_flags \<Rightarrow> w_t \<Rightarrow> axi_mst \<Rightarrow> (axi_mst \<times> mst_event list) option" where
  "process_w f w s = enqueue f [W_txn w] s"

definition push_a_no_id :: "mst_flags \<Rightarrow> u32 \<Rightarrow> bool \<Rightarrow> a_no_id_t \<Rightarrow> axi_mst \<Rightarrow>
    (u32 option \<times> axi_mst \<times> mst_event list) option" where
  "push_a_no_id f draw aw an s = do {
     (i, s) \<leftarrow> (if is_manual_id an then Some (Some (manual_id an), s) else next_id f draw (a_seqid an) s);
     (case i of
        None \<Rightarrow> Some (None, s, [No_free_id])
      | Some i \<Rightarrow> do {
          let a = (a_of_no_id i an)\<lparr> a_w := aw \<rparr>;
          s \<leftarrow> set_resp_flags a s;
          (s, evs) \<leftarrow> enqueue f [A_txn a] s;
          Some (Some i, s, evs)
        })
   }"

definition process_read_request :: "mst_flags \<Rightarrow> u32 \<Rightarrow> read_request_t \<Rightarrow> axi_mst \<Rightarrow> (axi_mst \<times> mst_event list) option" where
  "process_read_request f draw q s = do {
     let t = rq_attr q;
     let a = (a_blank False)\<lparr> a_exp_err_rsp := rq_exp_err_rsp q, a_id := at_manual_id t \<rparr>;
     (r, s, e) \<leftarrow> a_wrapper f draw (rq_addr q) (rq_length q) a (\<not> at_is_manual_id t) s;
     (case r of
        None \<Rightarrow> Some (s, e)
      | Some a \<Rightarrow> do {
          let a = apply_attr t a;
          s \<leftarrow> set_resp_flags a s;
          (s, evs) \<leftarrow> enqueue f [A_txn a] s;
          Some (s, e @ evs)
        })
   }"

text \<open>One data beat: the bytes of the payload go to the lanes their addresses select.\<close>

fun fill_lanes :: "write_request_t \<Rightarrow> nat \<Rightarrow> nat \<Rightarrow> nat \<Rightarrow> nat \<Rightarrow> data_t \<times> strb_t \<Rightarrow> (data_t \<times> strb_t) option" where
  "fill_lanes q src lane b 0 (d, s) = Some (d, s)"
| "fill_lanes q src lane b (Suc k) (d, s) =
     (if src + b < length (wq_data q) then do {
        d \<leftarrow> vec_set d (lane + b) (wq_data q ! (src + b));
        x \<leftarrow> vec_get (wq_strb q) (src + b);
        s \<leftarrow> vec_set s (lane + b) x;
        fill_lanes q src lane (Suc b) k (d, s)
      } else Some (d, s))"

definition write_beat_of :: "write_request_t \<Rightarrow> a_t \<Rightarrow> nat \<Rightarrow> axi_mst \<Rightarrow> w_t option" where
  "write_beat_of q a beat s =
     (let pow2size = 2 ^ unat (a_size a); bus_bytes = mst_data_width s div 8; src = pow2size * beat in
      if 64 \<le> a_size a \<or> bus_bytes = 0 then None
      else
        let lane = unat ((wq_addr q + of_nat src) mod of_nat bus_bytes) in do {
          (d, st) \<leftarrow> fill_lanes q src lane 0 pow2size (replicate bus_bytes 0, replicate (mst_strb_width s) False);
          Some \<lparr> w_data = d, w_strb = st, w_last = (beat = unat (a_len a)) \<rparr>
        })"

definition push_write_request :: "mst_flags \<Rightarrow> u32 \<Rightarrow> write_request_t \<Rightarrow> axi_mst \<Rightarrow>
    (u32 option \<times> axi_mst \<times> mst_event list) option" where
  "push_write_request f draw q s = do {
     let t = wq_attr q;
     let a = (a_blank True)\<lparr> a_exp_err_rsp := wq_exp_err_rsp q, a_allow_decerr_resp := wq_allow_decerr_resp q,
       a_id := at_manual_id t \<rparr>;
     (r, s, e) \<leftarrow> a_wrapper f draw (wq_addr q) (wq_length q) a (\<not> at_is_manual_id t) s;
     (case r of
        None \<Rightarrow> Some (None, s, e)
      | Some a \<Rightarrow> do {
          let a = apply_attr t a;
          let a = (if wq_size_override q \<noteq> 0 then a\<lparr> a_size := wq_size_override q \<rparr> else a);
          s \<leftarrow> set_resp_flags a s;
          ws \<leftarrow> those (map (\<lambda>beat. write_beat_of q a beat s) [0..<Suc (unat (a_len a))]);
          (s, evs) \<leftarrow> enqueue f (A_txn a # map W_txn ws) s;
          Some (Some (a_id a), s, e @ evs)
        })
   }"

section \<open>Responses and pointers\<close>

definition resp_bad :: "mst_flags \<Rightarrow> u32 \<Rightarrow> u8 \<Rightarrow> axi_mst \<Rightarrow> bool option" where
  "resp_bad f i resp s = do {
     u \<leftarrow> used_id i s;
     if \<not> u then Some False
     else do {
       e \<leftarrow> vec_get (mst_exp_err s) (unat i);
       d \<leftarrow> vec_get (mst_decerr s) (unat i);
       l \<leftarrow> vec_get (mst_slverr s) (unat i);
       Some ((e \<and> resp = RESP_OKAY \<or> \<not> e \<and> resp \<noteq> RESP_OKAY) \<and>
         \<not> ((fl_allow_decerr f \<or> d) \<and> resp = RESP_DECERR) \<and> \<not> ((fl_allow_slverr f \<or> l) \<and> resp = RESP_SLVERR))
     }
   }"

definition process_b :: "mst_flags \<Rightarrow> b_t \<Rightarrow> axi_mst \<Rightarrow> (axi_mst \<times> mst_event list) option" where
  "process_b f b s = do {
     bad \<leftarrow> resp_bad f (b_id b) (b_resp b) s;
     if bad then Some (s, [Bad_b (b_id b) (b_resp b)])
     else do {
       s \<leftarrow> free_id (b_id b) s;
       (s, evs) \<leftarrow> push_transactions f s;
       Some (s, B_signal b # Write_resp \<lparr> wp_id = b_id b, wp_resp = b_resp b \<rparr> # evs)
     }
   }"

definition process_r :: "mst_flags \<Rightarrow> r_t \<Rightarrow> axi_mst \<Rightarrow> (axi_mst \<times> mst_event list) option" where
  "process_r f r s = do {
     bad \<leftarrow> resp_bad f (r_id r) (r_resp r) s;
     if bad then Some (s, [Bad_r (r_id r) (r_resp r)])
     else if length (r_data r) < mst_data_width s div 8 then None
     else do {
       let data = mst_read_data s (r_id r) @ r_data r;
       (s, e) \<leftarrow> (if r_last r then do {
           s \<leftarrow> free_id (r_id r) s;
           Some (s\<lparr> mst_read_data := (mst_read_data s)(r_id r := []) \<rparr>,
             [Read_resp \<lparr> rr_id = r_id r, rr_data = data, rr_resp = r_resp r \<rparr>])
         } else Some (s\<lparr> mst_read_data := (mst_read_data s)(r_id r := data) \<rparr>, []));
       (s, evs) \<leftarrow> push_transactions f s;
       Some (s, R_signal r # e @ evs)
     }
   }"

definition process_ar_ptr :: "mst_flags \<Rightarrow> u32 \<Rightarrow> axi_mst \<Rightarrow> (axi_mst \<times> mst_event list) option" where
  "process_ar_ptr f p s = push_transactions f (s\<lparr> mst_ar := (mst_ar s)\<lparr> q_rptr := p \<rparr> \<rparr>)"

definition process_aw_ptr :: "mst_flags \<Rightarrow> u32 \<Rightarrow> axi_mst \<Rightarrow> (axi_mst \<times> mst_event list) option" where
  "process_aw_ptr f p s = push_transactions f (s\<lparr> mst_aw := (mst_aw s)\<lparr> q_rptr := p \<rparr> \<rparr>)"

definition process_w_ptr :: "mst_flags \<Rightarrow> u32 \<Rightarrow> axi_mst \<Rightarrow> (axi_mst \<times> mst_event list) option" where
  "process_w_ptr f p s = push_transactions f (s\<lparr> mst_w := (mst_w s)\<lparr> q_rptr := p \<rparr> \<rparr>)"

definition mst_reset_ptrs :: "axi_mst \<Rightarrow> axi_mst" where
  "mst_reset_ptrs s = s\<lparr> mst_ar := (mst_ar s)\<lparr> q_wptr := 0 \<rparr>, mst_aw := (mst_aw s)\<lparr> q_wptr := 0 \<rparr>,
     mst_w := (mst_w s)\<lparr> q_wptr := 0 \<rparr> \<rparr>"

section \<open>Ids on the wire\<close>

datatype mst_op =
    Op_a a_t
  | Op_w w_t
  | Op_no_id bool a_no_id_t u32
  | Op_read read_request_t u32
  | Op_write write_request_t u32
  | Op_b b_t
  | Op_r r_t
  | Op_ar_ptr u32
  | Op_aw_ptr u32
  | Op_w_ptr u32
  | Op_reset

fun mst_step :: "mst_flags \<Rightarrow> mst_op \<Rightarrow> axi_mst \<Rightarrow> (axi_mst \<times> mst_event list) option" where
  "mst_step f (Op_a a) s = process_a f a s"
| "mst_step f (Op_w w) s = process_w f w s"
| "mst_step f (Op_no_id aw a d) s = map_option snd (push_a_no_id f d aw a s)"
| "mst_step f (Op_read q d) s = process_read_request f d q s"
| "mst_step f (Op_write q d) s = map_option snd (push_write_request f d q s)"
| "mst_step f (Op_b b) s = process_b f b s"
| "mst_step f (Op_r r) s = process_r f r s"
| "mst_step f (Op_ar_ptr p) s = process_ar_ptr f p s"
| "mst_step f (Op_aw_ptr p) s = process_aw_ptr f p s"
| "mst_step f (Op_w_ptr p) s = process_w_ptr f p s"
| "mst_step f Op_reset s = Some (mst_reset_ptrs s, [])"

text \<open>
  The ids a step puts on the wire and the ids whose transactions it completes.  A step is
  admissible if it has no manual id, or is a response that names an id on the wire.
\<close>

fun issued :: "mst_event list \<Rightarrow> u32 list" where
  "issued [] = []"
| "issued (Ar_out a # es) = a_id a # issued es"
| "issued (Aw_out a # es) = a_id a # issued es"
| "issued (e # es) = issued es"

fun completed :: "mst_event list \<Rightarrow> u32 list" where
  "completed [] = []"
| "completed (Write_resp w # es) = wp_id w # completed es"
| "completed (Read_resp r # es) = rr_id r # completed es"
| "completed (e # es) = completed es"

fun admissible :: "u32 list \<Rightarrow> mst_op \<Rightarrow> bool" where
  "admissible wire (Op_no_id aw a d) = (\<not> is_manual_id a)"
| "admissible wire (Op_read q d) = (\<not> at_is_manual_id (rq_attr q))"
| "admissible wire (Op_write q d) = (\<not> at_is_manual_id (wq_attr q))"
| "admissible wire (Op_b b) = (b_id b \<in> set wire)"
| "admissible wire (Op_r r) = (r_id r \<in> set wire)"
| "admissible wire _ = True"

inductive mst_reach :: "mst_flags \<Rightarrow> axi_mst \<Rightarrow> axi_mst \<Rightarrow> u32 list \<Rightarrow> bool" for f s0 where
  start: "mst_reach f s0 s0 []"
| step: "mst_reach f s0 s wire \<Longrightarrow> admissible wire op \<Longrightarrow> mst_step f op s = Some (s', evs) \<Longrightarrow>
    mst_reach f s0 s' (fold remove1 (completed evs) wire @ issued evs)"

definition mst_wf :: "axi_mst \<Rightarrow> bool" where
  "mst_wf s \<longleftrightarrow> length (mst_ids s) = 2 ^ mst_id_width s \<and> mst_id_width s \<le> 32"

fun txn_ids :: "txn list \<Rightarrow> u32 list" where
  "txn_ids [] = []"
| "txn_ids (A_txn a # ts) = a_id a # txn_ids ts"
| "txn_ids (W_txn w # ts) = txn_ids ts"

definition wire_inv :: "axi_mst \<Rightarrow> u32 list \<Rightarrow> bool" where
  "wire_inv s wire \<longleftrightarrow> mst_wf s \<and> distinct (txn_ids (mst_txns s) @ wire) \<and>
     (\<forall>i \<in> set (txn_ids (mst_txns s) @ wire). unat i < length (mst_ids s) \<and> \<not> mst_ids s ! unat i)"

lemma issued_append [simp]: "issued (xs @ ys) = issued xs @ issued ys"
  by (induction xs rule: issued.induct) simp_all

lemma completed_append [simp]: "completed (xs @ ys) = completed xs @ completed ys"
  by (induction xs rule: completed.induct) simp_all

lemma txn_ids_append [simp]: "txn_ids (xs @ ys) = txn_ids xs @ txn_ids ys"
  by (induction xs rule: txn_ids.induct) simp_all

lemma txn_ids_map_W [simp]: "txn_ids (map W_txn ws) = []"
  by (induction ws) simp_all

lemma w_callback_silent: "w_callback w s = Some evs \<Longrightarrow> issued evs = [] \<and> completed evs = []"
  by (auto simp: w_callback_def Let_def split: if_splits)

lemma push_result:
  assumes "push t s = Some (ok, s', evs)"
  shows "mst_ids s' = mst_ids s \<and> mst_id_width s' = mst_id_width s \<and> completed evs = [] \<and>
    issued evs = (if ok then txn_ids [t] else [])"
proof (cases t)
  case (A_txn a)
  then show ?thesis
    using assms by (auto simp: Let_def split: if_splits Option.bind_splits)
next
  case (W_txn w)
  then show ?thesis
    using assms by (auto simp: Let_def split: if_splits Option.bind_splits dest: w_callback_silent)
qed

lemma push_list_result:
  assumes "push_list g ts s = Some (rest, s', evs)"
  shows "mst_ids s' = mst_ids s \<and> mst_id_width s' = mst_id_width s \<and> completed evs = [] \<and>
    mset (txn_ids rest @ issued evs) = mset (txn_ids ts)"
  using assms
proof (induction ts arbitrary: s rest s' evs)
  case (Cons t ts)
  have t: "txn_ids (t # xs) = txn_ids [t] @ txn_ids xs" for xs
    by (cases t) simp_all
  obtain ok s1 e1 where 1: "push t s = Some (ok, s1, e1)"
    using Cons.prems by (cases "push t s") auto
  note p = push_result [OF 1]
  show ?case
  proof (cases "\<not> ok \<and> \<not> g")
    case True
    then show ?thesis
      using Cons.prems 1 p by simp
  next
    case False
    obtain rest' s2 es where 2: "push_list g ts s1 = Some (rest', s2, es)"
      using Cons.prems 1 False by (cases "push_list g ts s1") (auto split: if_splits)
    have 3: "s' = s2" "evs = e1 @ es" "rest = (if ok then rest' else t # rest')"
      using Cons.prems 1 2 False by (auto split: if_splits)
    show ?thesis
      using Cons.IH [OF 2] p t [of ts] t [of rest'] by (cases ok) (simp_all add: 3)
  qed
qed simp

lemma push_transactions_result:
  assumes "push_transactions f s = Some (s', evs)"
  shows "mst_ids s' = mst_ids s \<and> mst_id_width s' = mst_id_width s \<and> completed evs = [] \<and>
    mset (txn_ids (mst_txns s') @ issued evs) = mset (txn_ids (mst_txns s))"
  using assms push_list_result [of "fl_greedy_queue f" "mst_txns s" s]
  by (auto simp: push_transactions_def split: Option.bind_splits)

lemma wire_inv_push:
  assumes "push_transactions f s = Some (s', evs)" and "wire_inv s wire"
  shows "wire_inv s' (wire @ issued evs) \<and> completed evs = []"
proof -
  note r = push_transactions_result [OF assms(1)]
  have "mset (txn_ids (mst_txns s') @ wire @ issued evs) = mset (txn_ids (mst_txns s) @ wire)"
    using r by (simp add: ac_simps)
  then have "distinct (txn_ids (mst_txns s') @ wire @ issued evs) = distinct (txn_ids (mst_txns s) @ wire)"
    "set (txn_ids (mst_txns s') @ wire @ issued evs) = set (txn_ids (mst_txns s) @ wire)"
    by (rule mset_eq_imp_distinct_iff, metis set_mset_mset)
  then show ?thesis
    using assms(2) r by (auto simp only: wire_inv_def mst_wf_def)
qed

lemma wire_inv_enqueue:
  assumes "enqueue f ts s = Some (s', evs)" and "wire_inv (s\<lparr> mst_txns := mst_txns s @ ts \<rparr>) wire"
  shows "wire_inv s' (wire @ issued evs) \<and> completed evs = []"
  using wire_inv_push [OF _ assms(2)] assms(1) by (simp add: enqueue_def)

lemma next_id_fresh:
  assumes "next_id f d q s = Some (Some i, s')" and "mst_wf s"
  shows "unat i < length (mst_ids s)" "mst_ids s ! unat i" "s' = s\<lparr> mst_ids := (mst_ids s)[unat i := False] \<rparr>"
proof -
  obtain a b where r: "id_range f q s = Some (a, b)"
    using assms(1) by (auto simp: next_id_def split: Option.bind_splits)
  let ?v = "filter (\<lambda>i. mst_ids s ! i) [a..<b]"
  let ?k = "if fl_rand_id_alloc f then ?v ! ((unat d mod length ?v) mod 2 ^ 24) else ?v ! 0"
  have ne: "?v \<noteq> []" and i: "i = of_nat ?k" and s': "s' = s\<lparr> mst_ids := (mst_ids s)[?k := False] \<rparr>"
    using assms(1) r by (auto simp: next_id_def Let_def split: if_splits)
  have "(unat d mod length ?v) mod 2 ^ 24 \<le> unat d mod length ?v" "unat d mod length ?v < length ?v"
    using ne by simp_all
  then have "(unat d mod length ?v) mod 2 ^ 24 < length ?v" "0 < length ?v"
    by linarith+
  then have k: "?k \<in> set ?v"
    by (metis nth_mem)
  have "b \<le> length (mst_ids s) \<or> b \<le> a"
    using r by (auto simp: id_range_def Let_def split: if_splits)
  with k have lt: "?k < length (mst_ids s)" "mst_ids s ! ?k"
    by auto
  have "length (mst_ids s) \<le> 2 ^ 32"
    using assms(2) power_increasing [of "mst_id_width s" 32 "2 :: nat"] by (simp add: mst_wf_def)
  then have "unat i = ?k"
    unfolding i using lt(1) by (intro unat_of_nat_less) simp
  then show "unat i < length (mst_ids s)" "mst_ids s ! unat i" "s' = s\<lparr> mst_ids := (mst_ids s)[unat i := False] \<rparr>"
    using lt s' by simp_all
qed

lemma set_resp_flags_keeps:
  "set_resp_flags a s = Some s' \<Longrightarrow> mst_ids s' = mst_ids s \<and> mst_id_width s' = mst_id_width s \<and> mst_txns s' = mst_txns s"
  by (auto simp: set_resp_flags_def split: Option.bind_splits)

lemma wire_inv_alloc:
  assumes "wire_inv s wire" and "unat i < length (mst_ids s)" and "mst_ids s ! unat i"
    and "mst_ids s' = (mst_ids s)[unat i := False]" and "mst_id_width s' = mst_id_width s"
    and "mst_txns s' = mst_txns s @ ts" and "txn_ids ts = [i]"
  shows "wire_inv s' wire"
proof -
  have new: "i \<notin> set (txn_ids (mst_txns s) @ wire)"
    using assms(1,3) by (auto simp: wire_inv_def)
  then have "unat j \<noteq> unat i" if "j \<in> set (txn_ids (mst_txns s) @ wire)" for j
    using that new by (metis word_unat_eq_iff)
  then show ?thesis
    using assms new by (auto simp: wire_inv_def mst_wf_def nth_list_update)
qed

text \<open>The request operations share one shape: an allocation, the response flags, and the queue.\<close>

lemma wire_inv_request:
  assumes inv: "wire_inv s wire" and alloc: "next_id f d q s = Some (Some i, s1)"
    and flags: "set_resp_flags a s1 = Some s2" and a: "a_id a = i"
    and enq: "enqueue f (A_txn a # map W_txn ws) s2 = Some (s3, evs)"
  shows "wire_inv s3 (wire @ issued evs) \<and> completed evs = []"
proof (rule wire_inv_enqueue [OF enq])
  have wf: "mst_wf s"
    using inv by (simp add: wire_inv_def)
  note n = next_id_fresh [OF alloc wf] and k = set_resp_flags_keeps [OF flags]
  show "wire_inv (s2\<lparr> mst_txns := mst_txns s2 @ A_txn a # map W_txn ws \<rparr>) wire"
    by (rule wire_inv_alloc [OF inv n(1,2), where ts = "A_txn a # map W_txn ws"]) (use n(3) k a in simp_all)
qed

lemma next_id_None: "next_id f d q s = Some (None, s') \<Longrightarrow> s' = s"
  by (auto simp: next_id_def Let_def split: Option.bind_splits if_splits)

lemma wire_inv_leak:
  assumes "wire_inv s wire" and "mst_ids s' = (mst_ids s)[i := False]" and "mst_id_width s' = mst_id_width s"
    and "mst_txns s' = mst_txns s"
  shows "wire_inv s' wire"
  using assms by (cases "i < length (mst_ids s)") (auto simp: wire_inv_def mst_wf_def nth_list_update list_update_beyond)

lemma a_wrapper_alloc:
  assumes "a_wrapper f d addr len a True s = Some (r, s', e)"
  obtains (none) "next_id f d (a_seqid a) s = Some (None, s')" "r = None" "e = [No_free_id]"
  | (leak) i where "next_id f d (a_seqid a) s = Some (Some i, s')" "r = None" "e = [Crosses_4k addr len]"
  | (ok) i a' where "next_id f d (a_seqid a) s = Some (Some i, s')" "r = Some a'" "a_id a' = i" "e = []"
  using assms by (auto simp: a_wrapper_def Let_def split: Option.bind_splits option.splits if_splits)

lemma wire_inv_free:
  assumes inv: "wire_inv s wire" and i: "i \<in> set wire"
    and t: "mst_ids t = (mst_ids s)[unat i := True]" "mst_id_width t = mst_id_width s" "mst_txns t = mst_txns s"
  shows "wire_inv t (remove1 i wire)"
proof -
  have "i \<notin> set (remove1 i wire)" "i \<notin> set (txn_ids (mst_txns s))" "distinct (remove1 i wire)"
    using inv i by (auto simp: wire_inv_def)
  then have "unat i \<noteq> unat j" if "j \<in> set (txn_ids (mst_txns s) @ remove1 i wire)" for j
    using that by (metis Un_iff set_append word_unat_eq_iff)
  then show ?thesis
    using inv i t set_remove1_subset [of i wire] by (auto simp: wire_inv_def mst_wf_def nth_list_update split: if_splits)
qed

lemma wire_inv_frame:
  "wire_inv s wire \<Longrightarrow> mst_ids t = mst_ids s \<Longrightarrow> mst_id_width t = mst_id_width s \<Longrightarrow> mst_txns t = mst_txns s \<Longrightarrow> wire_inv t wire"
  by (auto simp: wire_inv_def mst_wf_def)

lemma wire_inv_a:
  assumes inv: "wire_inv s wire" and st: "process_a f a s = Some (s', evs)"
  shows "wire_inv s' (wire @ issued evs) \<and> completed evs = []"
proof -
  obtain u where u: "used_id (a_id a) s = Some u"
    using st by (auto simp: process_a_def split: Option.bind_splits)
  show ?thesis
  proof (cases u)
    case True
    then show ?thesis
      using st u inv by (auto simp: process_a_def)
  next
    case False
    then obtain s1 s2 where s: "alloc_id (a_id a) s = Some s1" "set_resp_flags a s1 = Some s2"
        "enqueue f [A_txn a] s2 = Some (s', evs)"
      using st u by (auto simp: process_a_def split: Option.bind_splits)
    have i: "unat (a_id a) < length (mst_ids s)" "mst_ids s ! unat (a_id a)"
      using u False by (auto simp: used_id_def vec_get_def split: if_splits)
    note k = set_resp_flags_keeps [OF s(2)]
    have "wire_inv (s2\<lparr> mst_txns := mst_txns s2 @ [A_txn a] \<rparr>) wire"
      by (rule wire_inv_alloc [OF inv i]) (use s(1) i k in \<open>auto simp: alloc_id_def\<close>)
    from wire_inv_enqueue [OF s(3) this] show ?thesis .
  qed
qed

lemma wire_inv_b:
  assumes inv: "wire_inv s wire" and on: "b_id b \<in> set wire" and st: "process_b f b s = Some (s', evs)"
  shows "wire_inv s' (fold remove1 (completed evs) wire @ issued evs)"
proof -
  obtain bad where bad: "resp_bad f (b_id b) (b_resp b) s = Some bad"
    using st by (auto simp: process_b_def split: Option.bind_splits)
  show ?thesis
  proof (cases bad)
    case True
    then show ?thesis
      using st bad inv by (auto simp: process_b_def)
  next
    case False
    then obtain s1 es where s: "free_id (b_id b) s = Some s1" "push_transactions f s1 = Some (s', es)"
        "evs = B_signal b # Write_resp \<lparr> wp_id = b_id b, wp_resp = b_resp b \<rparr> # es"
      using st bad by (auto simp: process_b_def split: Option.bind_splits)
    have "wire_inv s1 (remove1 (b_id b) wire)"
      by (rule wire_inv_free [OF inv on]) (use s(1) in \<open>auto simp: free_id_def vec_set_def split: if_splits\<close>)
    from wire_inv_push [OF s(2) this] show ?thesis
      by (simp add: s(3))
  qed
qed

lemma wire_inv_r:
  assumes inv: "wire_inv s wire" and on: "r_id r \<in> set wire" and st: "process_r f r s = Some (s', evs)"
  shows "wire_inv s' (fold remove1 (completed evs) wire @ issued evs)"
proof -
  obtain bad where bad: "resp_bad f (r_id r) (r_resp r) s = Some bad"
    using st by (auto simp: process_r_def split: Option.bind_splits)
  let ?data = "mst_read_data s (r_id r) @ r_data r"
  show ?thesis
  proof (cases bad)
    case True
    then show ?thesis
      using st bad inv by (auto simp: process_r_def)
  next
    case False
    consider (final) s1 es where "free_id (r_id r) s = Some s1"
        "push_transactions f (s1\<lparr> mst_read_data := (mst_read_data s1)(r_id r := []) \<rparr>) = Some (s', es)"
        "evs = R_signal r # Read_resp \<lparr> rr_id = r_id r, rr_data = ?data, rr_resp = r_resp r \<rparr> # es"
      | (more_beats) es where "push_transactions f (s\<lparr> mst_read_data := (mst_read_data s)(r_id r := ?data) \<rparr>) = Some (s', es)"
        "evs = R_signal r # es"
      using st bad False by (auto simp: process_r_def Let_def split: Option.bind_splits if_splits)
    then show ?thesis
    proof cases
      case final
      have "wire_inv (s1\<lparr> mst_read_data := (mst_read_data s1)(r_id r := []) \<rparr>) (remove1 (r_id r) wire)"
        by (rule wire_inv_free [OF inv on]) (use final(1) in \<open>auto simp: free_id_def vec_set_def split: if_splits\<close>)
      from wire_inv_push [OF final(2) this] show ?thesis
        by (simp add: final(3))
    next
      case more_beats
      have "wire_inv (s\<lparr> mst_read_data := (mst_read_data s)(r_id r := ?data) \<rparr>) wire"
        by (rule wire_inv_frame [OF inv]) simp_all
      from wire_inv_push [OF more_beats(1) this] show ?thesis
        by (simp add: more_beats(2))
    qed
  qed
qed

lemma wire_inv_no_id:
  assumes inv: "wire_inv s wire" and "\<not> is_manual_id a" and st: "push_a_no_id f d aw a s = Some (r, s', evs)"
  shows "wire_inv s' (wire @ issued evs) \<and> completed evs = []"
proof -
  obtain i s1 where n: "next_id f d (a_seqid a) s = Some (i, s1)"
    using st assms(2) by (auto simp: push_a_no_id_def split: Option.bind_splits)
  show ?thesis
  proof (cases i)
    case None
    then show ?thesis
      using st n assms(2) inv next_id_None [of f d "a_seqid a" s s1] by (auto simp: push_a_no_id_def)
  next
    case (Some i)
    let ?a = "(a_of_no_id i a)\<lparr> a_w := aw \<rparr>"
    obtain s2 where s: "set_resp_flags ?a s1 = Some s2" "enqueue f [A_txn ?a] s2 = Some (s', evs)"
      using st n Some assms(2) by (auto simp: push_a_no_id_def Let_def split: Option.bind_splits)
    have "a_id ?a = i"
      by (simp add: a_of_no_id_def a_base.defs)
    then show ?thesis
      using wire_inv_request [OF inv n [unfolded Some] s(1), of "[]"] s(2) by simp
  qed
qed

lemma wire_inv_wrapper:
  assumes inv: "wire_inv s wire" and "a_wrapper f d addr len a True s = Some (None, s1, e)"
  shows "wire_inv s1 wire \<and> issued e = [] \<and> completed e = []"
  using assms(2)
proof (cases rule: a_wrapper_alloc)
  case none
  then show ?thesis
    using inv next_id_None [OF none(1)] by simp
next
  case (leak i)
  have wf: "mst_wf s"
    using inv by (simp add: wire_inv_def)
  show ?thesis
    using wire_inv_leak [OF inv, of s1 "unat i"] next_id_fresh(3) [OF leak(1) wf] leak(3) by simp
qed simp

lemma wire_inv_read:
  assumes inv: "wire_inv s wire" and man: "\<not> at_is_manual_id (rq_attr q)" and st: "process_read_request f d q s = Some (s', evs)"
  shows "wire_inv s' (wire @ issued evs) \<and> completed evs = []"
proof -
  let ?a = "(a_blank False)\<lparr> a_exp_err_rsp := rq_exp_err_rsp q, a_id := at_manual_id (rq_attr q) \<rparr>"
  obtain r s1 e where w: "a_wrapper f d (rq_addr q) (rq_length q) ?a True s = Some (r, s1, e)"
    using st man by (auto simp: process_read_request_def Let_def split: Option.bind_splits)
  show ?thesis
  proof (cases r)
    case None
    then show ?thesis
      using wire_inv_wrapper [OF inv] w st man by (auto simp: process_read_request_def Let_def)
  next
    case (Some a)
    obtain i where n: "next_id f d (a_seqid ?a) s = Some (Some i, s1)" "a_id a = i" "e = []"
      using w Some by (auto elim: a_wrapper_alloc)
    let ?b = "apply_attr (rq_attr q) a"
    obtain s2 where s: "set_resp_flags ?b s1 = Some s2" "enqueue f [A_txn ?b] s2 = Some (s', evs)"
      using st man w Some n(3) by (auto simp: process_read_request_def Let_def split: Option.bind_splits)
    have "a_id ?b = i"
      by (simp add: apply_attr_def n(2))
    then show ?thesis
      using wire_inv_request [OF inv n(1) s(1), of "[]"] s(2) by simp
  qed
qed

lemma wire_inv_write:
  assumes inv: "wire_inv s wire" and man: "\<not> at_is_manual_id (wq_attr q)" and st: "push_write_request f d q s = Some (r, s', evs)"
  shows "wire_inv s' (wire @ issued evs) \<and> completed evs = []"
proof -
  let ?a = "(a_blank True)\<lparr> a_exp_err_rsp := wq_exp_err_rsp q, a_allow_decerr_resp := wq_allow_decerr_resp q,
    a_id := at_manual_id (wq_attr q) \<rparr>"
  obtain r s1 e where w: "a_wrapper f d (wq_addr q) (wq_length q) ?a True s = Some (r, s1, e)"
    using st man by (auto simp: push_write_request_def Let_def split: Option.bind_splits)
  show ?thesis
  proof (cases r)
    case None
    then show ?thesis
      using wire_inv_wrapper [OF inv] w st man by (auto simp: push_write_request_def Let_def)
  next
    case (Some a)
    obtain i where n: "next_id f d (a_seqid ?a) s = Some (Some i, s1)" "a_id a = i" "e = []"
      using w Some by (auto elim: a_wrapper_alloc)
    let ?b = "apply_attr (wq_attr q) a"
    let ?c = "if wq_size_override q \<noteq> 0 then ?b\<lparr> a_size := wq_size_override q \<rparr> else ?b"
    obtain s2 ws where s: "set_resp_flags ?c s1 = Some s2" "enqueue f (A_txn ?c # map W_txn ws) s2 = Some (s', evs)"
      using st man w Some n(3) by (auto simp: push_write_request_def Let_def split: Option.bind_splits)
    have "a_id ?c = i"
      by (simp add: apply_attr_def n(2))
    then show ?thesis
      using wire_inv_request [OF inv n(1) s(1) _ s(2)] by simp
  qed
qed

lemma wire_inv_step:
  assumes inv: "wire_inv s wire" and adm: "admissible wire op" and st: "mst_step f op s = Some (s', evs)"
  shows "wire_inv s' (fold remove1 (completed evs) wire @ issued evs)"
proof (cases op)
  case (Op_a a)
  then show ?thesis
    using wire_inv_a [OF inv] st by fastforce
next
  case (Op_w w)
  have "wire_inv (s\<lparr> mst_txns := mst_txns s @ [W_txn w] \<rparr>) wire"
    using inv by (auto simp: wire_inv_def mst_wf_def)
  then show ?thesis
    using st Op_w wire_inv_enqueue [of f "[W_txn w]" s s' evs wire] by (simp add: process_w_def)
next
  case (Op_no_id aw a d)
  then show ?thesis
    using wire_inv_no_id [OF inv] adm st by fastforce
next
  case (Op_read q d)
  then show ?thesis
    using wire_inv_read [OF inv] adm st by fastforce
next
  case (Op_write q d)
  then show ?thesis
    using wire_inv_write [OF inv] adm st by fastforce
next
  case (Op_b b)
  then show ?thesis
    using wire_inv_b [OF inv] adm st by simp
next
  case (Op_r r)
  then show ?thesis
    using wire_inv_r [OF inv] adm st by simp
next
  case Op_reset
  then show ?thesis
    using st inv by (auto simp: mst_reset_ptrs_def wire_inv_def mst_wf_def)
next
  case (Op_ar_ptr p)
  then show ?thesis
    using wire_inv_push [of f _ s' evs wire] wire_inv_frame [OF inv] st by (fastforce simp: process_ar_ptr_def)
next
  case (Op_aw_ptr p)
  then show ?thesis
    using wire_inv_push [of f _ s' evs wire] wire_inv_frame [OF inv] st by (fastforce simp: process_aw_ptr_def)
next
  case (Op_w_ptr p)
  then show ?thesis
    using wire_inv_push [of f _ s' evs wire] wire_inv_frame [OF inv] st by (fastforce simp: process_w_ptr_def)
qed

text \<open>
  C9: No transaction id is on the wire twice.  Take a fresh manager with at most 32 id bits and
  any sequence of requests that leave the id to the allocator or come with an id in their packet,
  data packets, pointer updates, resets, and responses that each name an id on the wire.  The ids issued
  and not yet answered are pairwise different, and each of them is marked used, so the
  allocator cannot hand it out again.  Requests with a manual id are excluded: they do not
  mark their id.
\<close>
theorem wire_ids_distinct:
  assumes "mst_reach f (mst_new idw dw sw ar aw w) s wire" and "idw \<le> 32"
  shows "distinct wire \<and> (\<forall>i \<in> set wire. used_id i s = Some True)"
proof -
  have "wire_inv s wire"
    using assms(1)
  proof induction
    case start
    then show ?case
      using assms(2) by (simp add: wire_inv_def mst_wf_def mst_new_def Let_def)
  next
    case (step s wire op s' evs)
    then show ?case
      by (intro wire_inv_step)
  qed
  then show ?thesis
    by (auto simp: wire_inv_def used_id_def)
qed

definition sample_mst_flags :: mst_flags where
  "sample_mst_flags = \<lparr> fl_allow_slverr = False, fl_allow_decerr = False, fl_rand_id_alloc = False,
     fl_disable_seqid_alloc = True, fl_greedy_queue = False \<rparr>"

definition sample_mst :: axi_mst where
  "sample_mst = mst_new 3 64 8 (fifo_ptr_new 2 4) (fifo_ptr_new 2 4) (fifo_ptr_new 2 4)"

definition sample_ar :: mst_op where
  "sample_ar = Op_no_id False (a_no_id_new False 0x1000 3) 0"

lemma sample_issue:
  "map_option (\<lambda>(s, evs). (completed evs, issued evs)) (mst_step sample_mst_flags sample_ar (mst_reset_ptrs sample_mst)) =
     Some ([], [0])"
  by code_simp

theorem wire_ids_distinct_witness:
  "\<exists>s. mst_reach sample_mst_flags sample_mst s [0] \<and> used_id 0 s = Some True"
proof -
  obtain s evs where s: "mst_step sample_mst_flags sample_ar (mst_reset_ptrs sample_mst) = Some (s, evs)"
      "completed evs = []" "issued evs = [0]"
    using sample_issue by auto
  have "mst_reach sample_mst_flags sample_mst (mst_reset_ptrs sample_mst) []"
    using mst_reach.step [OF mst_reach.start [of sample_mst_flags sample_mst], where op = Op_reset] by simp
  from mst_reach.step [OF this, where op = sample_ar and s' = s and evs = evs] have "mst_reach sample_mst_flags sample_mst s [0]"
    using s by (simp add: sample_ar_def a_no_id_new_def)
  moreover from wire_ids_distinct [OF this [unfolded sample_mst_def]] have "used_id 0 s = Some True"
    by simp
  ultimately show ?thesis
    by blast
qed

text \<open>
  A manual id is not marked: a read request with the manual id that the allocator would give next
  is sent, and the next request without a manual id gets the same id.
\<close>
lemma manual_id_given_again:
  assumes "at_is_manual_id (rq_attr q)" and "at_manual_id (rq_attr q) = i" and "next_id f d 0 s = Some (Some i, s')"
    and "process_read_request f d' q s = Some (s1, evs)"
  shows "mst_ids s1 = mst_ids s" and "map_option fst (next_id f d 0 s1) = Some (Some i)"
proof -
  have "mst_ids s1 = mst_ids s \<and> mst_id_width s1 = mst_id_width s"
    using assms(1,4) push_list_result set_resp_flags_keeps
    by (fastforce simp: process_read_request_def a_wrapper_def enqueue_def push_transactions_def Let_def
        split: Option.bind_splits option.splits if_splits)
  moreover from this have "map_option fst (next_id f d 0 s1) = map_option fst (next_id f d 0 s)"
    by (simp add: next_id_def id_range_def Let_def split: Option.bind_splits)
  ultimately show "mst_ids s1 = mst_ids s" "map_option fst (next_id f d 0 s1) = Some (Some i)"
    using assms(3) by simp_all
qed

text \<open>
  A request that crosses a 4 KiB boundary loses an id.  It is refused after an id has
  been allocated for it: nothing is queued or sent, and the manager has one free id less,
  which no response will return.
\<close>
lemma refused_request_keeps_id:
  assumes "mst_wf s" and "fl_disable_seqid_alloc f" and "True \<in> set (mst_ids s)" and "\<not> at_is_manual_id (rq_attr q)"
    and "rq_addr q AND NOT 0xfff \<noteq> (rq_addr q + of_nat (rq_length q) - 1) AND NOT 0xfff"
  shows "\<exists>s'. process_read_request f d q s = Some (s', [Crosses_4k (rq_addr q) (rq_length q)]) \<and> mst_txns s' = mst_txns s \<and>
    Suc (length (filter id (mst_ids s'))) = length (filter id (mst_ids s))"
proof -
  let ?v = "filter (\<lambda>i. mst_ids s ! i) [0..<length (mst_ids s)]"
  obtain k where "k < length (mst_ids s)" "mst_ids s ! k"
    using assms(3) by (metis in_set_conv_nth)
  then have "k \<in> set ?v"
    by simp
  then have "?v \<noteq> []"
    by (metis empty_iff list.set(1))
  then obtain i s' where n: "next_id f d 0 s = Some (Some i, s')"
    using assms(2) by (simp add: next_id_def id_range_def Let_def)
  note i = next_id_fresh [OF n assms(1)]
  have "process_read_request f d q s = Some (s', [Crosses_4k (rq_addr q) (rq_length q)])"
    using assms(4,5) n by (simp add: process_read_request_def a_wrapper_def Let_def a_blank_def a_of_no_id_def a_no_id_new_def a_base.defs)
  moreover have "Suc (length (filter id (xs[j := False]))) = length (filter id xs)" if "j < length xs" "xs ! j" for xs j
    using that by (induction xs arbitrary: j) (auto split: nat.splits)
  ultimately show ?thesis
    using i by simp
qed

lemma refused_request_keeps_id_witness:
  "\<exists>s'. process_read_request sample_mst_flags 0 (read_request 0xffc 8 False) sample_mst = Some (s', [Crosses_4k 0xffc 8]) \<and>
     Suc (length (filter id (mst_ids s'))) = 8"
proof -
  have "mst_wf sample_mst" "True \<in> set (mst_ids sample_mst)" "length (filter id (mst_ids sample_mst)) = 8"
    by (simp_all add: sample_mst_def mst_new_def mst_wf_def Let_def)
  then show ?thesis
    using refused_request_keeps_id [of sample_mst sample_mst_flags "read_request 0xffc 8 False" 0]
    by (simp add: sample_mst_flags_def read_request_def attr_default_def) blast
qed

section \<open>Flow control\<close>

datatype channel = Ch_ar | Ch_aw | Ch_w

fun chan :: "txn \<Rightarrow> channel" where
  "chan (A_txn a) = (if a_w a then Ch_aw else Ch_ar)"
| "chan (W_txn w) = Ch_w"

fun fifo_of :: "channel \<Rightarrow> axi_mst \<Rightarrow> fifo_ptr" where
  "fifo_of Ch_ar s = mst_ar s"
| "fifo_of Ch_aw s = mst_aw s"
| "fifo_of Ch_w s = mst_w s"

definition q_used :: "fifo_ptr \<Rightarrow> nat" where
  "q_used q = (unat (q_wptr q) + unat (q_ptr_max q) - unat (q_rptr q)) mod unat (q_ptr_max q)"

definition fifo_ok :: "fifo_ptr \<Rightarrow> bool" where
  "fifo_ok q \<longleftrightarrow> unat (q_max q) < unat (q_ptr_max q) \<and> unat (q_ptr_max q) < 2 ^ 32 \<and>
     unat (q_rptr q) < unat (q_ptr_max q) \<and> unat (q_wptr q) < unat (q_ptr_max q) \<and> q_used q \<le> unat (q_max q)"

fun good_txn :: "axi_mst \<Rightarrow> txn \<Rightarrow> bool" where
  "good_txn s (A_txn a) = True"
| "good_txn s (W_txn w) = (w_strb w \<noteq> [] \<and> length (w_strb w) = length (w_data w) \<and> mst_data_width s div 8 \<le> length (w_data w))"

fun event_of :: "axi_mst \<Rightarrow> txn \<Rightarrow> mst_event list" where
  "event_of s (A_txn a) = [if a_w a then Aw_out a else Ar_out a]"
| "event_of s (W_txn w) = the (w_callback w s)"

lemma q_full_used:
  assumes "fifo_ok q"
  shows "q_full q = Some (unat (q_max q) \<le> q_used q)"
proof -
  let ?w = "ucast (q_wptr q) :: u64" and ?r = "ucast (q_rptr q) :: u64" and ?p = "q_ptr_max q"
  have p: "unat ?p < 4294967296"
    using assms by (simp add: fifo_ok_def)
  have 1: "unat (?w + ?p) = unat (q_wptr q) + unat ?p"
    using unat_less_u32 [of "q_wptr q"] p by (subst unat_add_less) simp_all
  have "?r \<le> ?w + ?p"
    using assms 1 by (simp add: word_le_nat_alt fifo_ok_def)
  then have "unat (?w + ?p - ?r) = unat (q_wptr q) + unat ?p - unat (q_rptr q)"
    using 1 by (simp add: unat_sub)
  then have "unat ((?w + ?p - ?r) mod ?p) = q_used q"
    by (simp add: q_used_def unat_mod_distrib)
  moreover have "?p \<noteq> 0"
    using assms by (auto simp: fifo_ok_def)
  ultimately show ?thesis
    by (simp add: q_full_def word_le_nat_alt)
qed

lemma q_advance_ok:
  assumes "fifo_ok q" and "q_used q < unat (q_max q)"
  shows "fifo_ok (q_advance q) \<and> q_used (q_advance q) = Suc (q_used q)"
proof -
  let ?w = "unat (q_wptr q)" and ?r = "unat (q_rptr q)" and ?p = "unat (q_ptr_max q)"
  have b: "?w < ?p" "?r < ?p" "?p < 4294967296" "unat (q_max q) < ?p"
    using assms(1) by (simp_all add: fifo_ok_def)
  have "unat (q_wptr q + 1) = ?w + 1"
    using b by (subst unat_add_less) simp_all
  then have "unat ((ucast (q_wptr q + 1) :: u64) mod q_ptr_max q) = Suc ?w mod ?p"
    by (simp add: unat_mod_distrib)
  moreover have lt: "Suc ?w mod ?p < ?p"
    using b(1) by (intro mod_less_divisor) simp
  moreover note less_trans [OF lt b(3)]
  ultimately have w: "unat (q_wptr (q_advance q)) = Suc ?w mod ?p"
    by (simp add: q_advance_def unsigned_ucast_eq take_bit_nat_eq_self_iff)
  have keep: "q_rptr (q_advance q) = q_rptr q" "q_ptr_max (q_advance q) = q_ptr_max q" "q_max (q_advance q) = q_max q"
    by (simp_all add: q_advance_def)
  have "q_used (q_advance q) = (Suc ?w mod ?p + (?p - ?r)) mod ?p"
    using b by (simp add: q_used_def w keep)
  also have "\<dots> = Suc (?w + (?p - ?r)) mod ?p"
    by (simp add: mod_add_left_eq)
  also have "\<dots> = Suc ((?w + (?p - ?r)) mod ?p) mod ?p"
    by (simp add: mod_Suc_eq)
  also have "(?w + (?p - ?r)) mod ?p = q_used q"
    using b by (simp add: q_used_def)
  finally have used: "q_used (q_advance q) = Suc (q_used q)"
    using assms(2) b(4) by simp
  show ?thesis
    using used w lt assms b by (simp add: fifo_ok_def keep)
qed

definition has_room :: "channel \<Rightarrow> axi_mst \<Rightarrow> bool" where
  "has_room c s \<longleftrightarrow> q_used (fifo_of c s) < unat (q_max (fifo_of c s))"

definition fifos_ok :: "axi_mst \<Rightarrow> bool" where
  "fifos_ok s \<longleftrightarrow> (\<forall>c. fifo_ok (fifo_of c s))"

abbreviation on_chan :: "channel \<Rightarrow> txn list \<Rightarrow> txn list" where
  "on_chan c ts \<equiv> filter (\<lambda>t. chan t = c) ts"

lemma event_of_cong: "mst_data_width s' = mst_data_width s \<Longrightarrow> event_of s' = event_of s"
proof
  fix t
  show "mst_data_width s' = mst_data_width s \<Longrightarrow> event_of s' t = event_of s t"
    by (cases t) (simp_all add: w_callback_def Let_def)
qed

lemma good_txn_cong: "mst_data_width s' = mst_data_width s \<Longrightarrow> good_txn s' t = good_txn s t"
  by (cases t) simp_all

lemma push_good:
  assumes "good_txn s t" and "fifos_ok s"
  shows "\<exists>s'. push t s = Some (has_room (chan t) s, s', if has_room (chan t) s then event_of s t else []) \<and>
    mst_data_width s' = mst_data_width s \<and>
    (\<forall>c. fifo_of c s' = (if c = chan t \<and> has_room (chan t) s then q_advance (fifo_of c s) else fifo_of c s))"
proof -
  have full: "q_full (fifo_of (chan t) s) = Some (\<not> has_room (chan t) s)"
    using assms(2) q_full_used [of "fifo_of (chan t) s"] by (auto simp: has_room_def fifos_ok_def not_less)
  have all: "(\<forall>c. P c) \<longleftrightarrow> P Ch_ar \<and> P Ch_aw \<and> P Ch_w" for P
    by (metis channel.exhaust)
  show ?thesis
  proof (cases t)
    case (A_txn a)
    then show ?thesis
      using full by (cases "a_w a"; cases "has_room (chan t) s") (simp_all add: all Let_def)
  next
    case (W_txn w)
    have "\<exists>evs. w_callback w (s\<lparr> mst_w := q_advance (mst_w s) \<rparr>) = Some evs \<and> w_callback w s = Some evs"
      using assms(1) W_txn by (auto simp: w_callback_def Let_def)
    then show ?thesis
      using full W_txn assms(1) by (cases "has_room (chan t) s") (auto simp: all Let_def)
  qed
qed

lemma push_good_fifos:
  assumes "fifos_ok s" and "\<forall>c. fifo_of c s' = (if c = k \<and> has_room k s then q_advance (fifo_of c s) else fifo_of c s)"
  shows "fifos_ok s' \<and> (\<forall>c. q_max (fifo_of c s') = q_max (fifo_of c s) \<and>
    q_used (fifo_of c s') = q_used (fifo_of c s) + (if c = k \<and> has_room k s then 1 else 0))"
  using assms q_advance_ok by (auto simp: fifos_ok_def has_room_def q_advance_def)

lemma push_list_flow:
  assumes "fifos_ok s" and "\<forall>t \<in> set ts. good_txn s t"
  shows "\<exists>sent rest s'. push_list g ts s = Some (rest, s', concat (map (event_of s) sent)) \<and> fifos_ok s' \<and>
    (\<forall>c. q_max (fifo_of c s') = q_max (fifo_of c s) \<and>
      q_used (fifo_of c s') = q_used (fifo_of c s) + length (on_chan c sent) \<and> on_chan c sent @ on_chan c rest = on_chan c ts) \<and>
    (\<not> g \<longrightarrow> sent @ rest = ts \<and> (rest \<noteq> [] \<longrightarrow> \<not> has_room (chan (hd rest)) s')) \<and>
    (\<forall>t \<in> set rest. g \<longrightarrow> \<not> has_room (chan t) s')"
  using assms
proof (induction ts arbitrary: s)
  case Nil
  then show ?case
    by (intro exI [of _ "[]"]) simp
next
  case (Cons t ts)
  let ?room = "has_room (chan t) s"
  obtain s1 where p: "push t s = Some (?room, s1, if ?room then event_of s t else [])" "mst_data_width s1 = mst_data_width s"
      "\<forall>c. fifo_of c s1 = (if c = chan t \<and> ?room then q_advance (fifo_of c s) else fifo_of c s)"
    using push_good [of s t] Cons.prems by auto
  note f = push_good_fifos [OF Cons.prems(1) p(3)]
  show ?case
  proof (cases "\<not> ?room \<and> \<not> g")
    case True
    then show ?thesis
      using p f by - (rule exI [of _ "[]"], rule exI [of _ "t # ts"], rule exI [of _ s1], simp add: has_room_def)
  next
    case False
    have "\<forall>t \<in> set ts. good_txn s1 t"
      using Cons.prems(2) good_txn_cong [OF p(2)] by simp
    with Cons.IH [of s1] f obtain sent rest s' where
      r: "push_list g ts s1 = Some (rest, s', concat (map (event_of s) sent))" "fifos_ok s'"
        "\<And>c. q_max (fifo_of c s') = q_max (fifo_of c s1)"
        "\<And>c. q_used (fifo_of c s') = q_used (fifo_of c s1) + length (on_chan c sent)"
        "\<And>c. on_chan c sent @ on_chan c rest = on_chan c ts"
        "\<not> g \<Longrightarrow> sent @ rest = ts \<and> (rest \<noteq> [] \<longrightarrow> \<not> has_room (chan (hd rest)) s')"
        "\<And>t. t \<in> set rest \<Longrightarrow> g \<Longrightarrow> \<not> has_room (chan t) s'"
      unfolding event_of_cong [OF p(2)] by blast
    show ?thesis
    proof (cases ?room)
      case True
      then show ?thesis
        using p r f by - (rule exI [of _ "t # sent"], rule exI [of _ rest], rule exI [of _ s'], simp)
    next
      case no: False
      have "q_used (fifo_of (chan t) s') \<le> unat (q_max (fifo_of (chan t) s'))"
        using r(2) by (simp add: fifos_ok_def fifo_ok_def)
      moreover have "unat (q_max (fifo_of (chan t) s')) = unat (q_max (fifo_of (chan t) s))"
        "q_used (fifo_of (chan t) s') = q_used (fifo_of (chan t) s) + length (on_chan (chan t) sent)"
        using no r(3) [of "chan t"] r(4) [of "chan t"] f by simp_all
      ultimately have "length (on_chan (chan t) sent) = 0" and full: "\<not> has_room (chan t) s'"
        using no unfolding has_room_def by linarith+
      then have e: "on_chan (chan t) sent = []"
        by (simp only: length_0_conv)
      moreover have "on_chan (chan t) rest = on_chan (chan t) ts"
        using r(5) [of "chan t"] e by simp
      ultimately show ?thesis
        using p r f full no False by - (rule exI [of _ sent], rule exI [of _ "t # rest"], rule exI [of _ s'], auto)
    qed
  qed
qed

text \<open>
  C14: Sending respects the hardware FIFOs and the order of each channel.  For well-formed data
  packets the sending loop always returns; no FIFO is ever filled beyond its capacity, its
  occupancy grows by exactly the packets sent to it, the packets sent on a channel followed
  by those still queued for it are the packets that were queued for it in their order, and a
  packet stays queued only behind or for a full FIFO.  Without the greedy option the packets
  sent are a prefix of the queue.
\<close>
theorem sending_respects_fifos:
  assumes "fifos_ok s" and "\<forall>t \<in> set (mst_txns s). good_txn s t"
  shows "\<exists>sent s'. push_transactions f s = Some (s', concat (map (event_of s) sent)) \<and> fifos_ok s' \<and>
    (\<forall>c. q_used (fifo_of c s') = q_used (fifo_of c s) + length (on_chan c sent) \<and>
      q_used (fifo_of c s') \<le> unat (q_max (fifo_of c s)) \<and>
      on_chan c sent @ on_chan c (mst_txns s') = on_chan c (mst_txns s)) \<and>
    (mst_txns s' \<noteq> [] \<longrightarrow> \<not> has_room (chan (hd (mst_txns s'))) s') \<and>
    (\<not> fl_greedy_queue f \<longrightarrow> sent @ mst_txns s' = mst_txns s)"
proof -
  obtain sent rest s' where
    r: "push_list (fl_greedy_queue f) (mst_txns s) s = Some (rest, s', concat (map (event_of s) sent))" "fifos_ok s'"
      "\<And>c. q_max (fifo_of c s') = q_max (fifo_of c s)"
      "\<And>c. q_used (fifo_of c s') = q_used (fifo_of c s) + length (on_chan c sent)"
      "\<And>c. on_chan c sent @ on_chan c rest = on_chan c (mst_txns s)"
      "\<not> fl_greedy_queue f \<Longrightarrow> sent @ rest = mst_txns s \<and> (rest \<noteq> [] \<longrightarrow> \<not> has_room (chan (hd rest)) s')"
      "\<And>t. t \<in> set rest \<Longrightarrow> fl_greedy_queue f \<Longrightarrow> \<not> has_room (chan t) s'"
    using push_list_flow [OF assms, of "fl_greedy_queue f"] by blast
  have keep: "fifo_of c (s'\<lparr> mst_txns := rest \<rparr>) = fifo_of c s'" for c
    by (cases c) simp_all
  have "push_transactions f s = Some (s'\<lparr> mst_txns := rest \<rparr>, concat (map (event_of s) sent))"
    using r(1) by (simp add: push_transactions_def)
  moreover have "\<not> has_room (chan (hd rest)) s'" if "rest \<noteq> []"
    using r(6) r(7) [of "hd rest"] that by (cases "fl_greedy_queue f") simp_all
  moreover have "q_used (fifo_of c s') \<le> unat (q_max (fifo_of c s))" for c
    using r(2) r(3) [of c] unfolding fifos_ok_def fifo_ok_def by metis
  ultimately show ?thesis
    using r by (intro exI [of _ sent] exI [of _ "s'\<lparr> mst_txns := rest \<rparr>"]) (simp add: keep fifos_ok_def has_room_def)
qed

definition queued_mst :: axi_mst where
  "queued_mst = (mst_reset_ptrs sample_mst)\<lparr> mst_txns := map (\<lambda>i. A_txn (a_of_no_id i (a_no_id_new False 0 3))) [0, 1, 2] \<rparr>"

theorem sending_respects_fifos_witness:
  "\<exists>sent s'. push_transactions sample_mst_flags queued_mst = Some (s', concat (map (event_of queued_mst) sent)) \<and>
     q_used (mst_ar s') \<le> 2 \<and> sent @ mst_txns s' = mst_txns queued_mst"
proof -
  have "\<forall>c. fifo_ok (fifo_of c queued_mst) \<and> q_max (fifo_of c queued_mst) = 2"
  proof
    fix c
    show "fifo_ok (fifo_of c queued_mst) \<and> q_max (fifo_of c queued_mst) = 2"
      by (cases c) (simp_all add: queued_mst_def mst_reset_ptrs_def sample_mst_def mst_new_def fifo_ptr_new_def fifo_ok_def q_used_def Let_def)
  qed
  moreover have "\<forall>t \<in> set (mst_txns queued_mst). good_txn queued_mst t"
    by (simp add: queued_mst_def)
  ultimately have "\<exists>sent s'. push_transactions sample_mst_flags queued_mst = Some (s', concat (map (event_of queued_mst) sent)) \<and>
      q_used (fifo_of Ch_ar s') \<le> unat (2 :: u64) \<and> sent @ mst_txns s' = mst_txns queued_mst"
    using sending_respects_fifos [of queued_mst sample_mst_flags] unfolding fifos_ok_def
    by (metis (no_types, lifting) mst_flags.select_convs(5) sample_mst_flags_def)
  then show ?thesis
    by simp
qed

section \<open>Byte lanes\<close>

lemma fill_lanes_result:
  assumes "lane + b + k \<le> length d" and "lane + b + k \<le> length s" and "src + b + k \<le> length (wq_data q)"
    and "src + b + k \<le> length (wq_strb q)"
  shows "\<exists>d' s'. fill_lanes q src lane b k (d, s) = Some (d', s') \<and> length d' = length d \<and> length s' = length s \<and>
    (\<forall>l < length d. d' ! l = (if lane + b \<le> l \<and> l < lane + b + k then wq_data q ! (src + (l - lane)) else d ! l)) \<and>
    (\<forall>l < length s. s' ! l = (if lane + b \<le> l \<and> l < lane + b + k then wq_strb q ! (src + (l - lane)) else s ! l))"
  using assms
proof (induction k arbitrary: b d s)
  case 0
  then show ?case
    by auto
next
  case (Suc k)
  let ?d = "d[lane + b := wq_data q ! (src + b)]" and ?s = "s[lane + b := wq_strb q ! (src + b)]"
  from Suc.IH [of "Suc b" ?d ?s] Suc.prems obtain d' s' where
    r: "fill_lanes q src lane (Suc b) k (?d, ?s) = Some (d', s')" "length d' = length d" "length s' = length s"
      "\<forall>l < length d. d' ! l = (if lane + Suc b \<le> l \<and> l < lane + Suc b + k then wq_data q ! (src + (l - lane)) else ?d ! l)"
      "\<forall>l < length s. s' ! l = (if lane + Suc b \<le> l \<and> l < lane + Suc b + k then wq_strb q ! (src + (l - lane)) else ?s ! l)"
    by auto
  have nth: "xs[lane + b := y] ! l = (if l = lane + b then y else xs ! l)" if "l < length xs" for xs :: "'x list" and y l
    using that by (simp add: nth_list_update)
  have "fill_lanes q src lane b (Suc k) (d, s) = Some (d', s')"
    using Suc.prems r(1) by simp
  moreover have "\<forall>l < length d. d' ! l = (if lane + b \<le> l \<and> l < lane + b + Suc k then wq_data q ! (src + (l - lane)) else d ! l)"
    using r(4) by (auto simp: nth)
  moreover have "\<forall>l < length s. s' ! l = (if lane + b \<le> l \<and> l < lane + b + Suc k then wq_strb q ! (src + (l - lane)) else s ! l)"
    using r(5) by (auto simp: nth)
  ultimately show ?case
    using r(2,3) by blast
qed

lemma lane_nat:
  fixes addr :: u64
  assumes "m < 64"
  shows "unat ((addr + of_nat src) mod of_nat (2 ^ m)) = (unat addr + src) mod 2 ^ m"
proof -
  have dv: "(2 :: nat) ^ m dvd 2 ^ 64"
    using assms by (intro le_imp_power_dvd) simp
  have p: "unat (of_nat (2 ^ m) :: u64) = 2 ^ m"
    using assms power_strict_increasing [of m 64 "2 :: nat"] by (intro unat_of_nat_less) simp
  have "unat (addr + of_nat src) = (unat addr + src mod 2 ^ 64) mod 2 ^ 64"
    by (simp add: unat_word_ariths unat_of_nat)
  also have "\<dots> mod 2 ^ m = (unat addr + src mod 2 ^ 64) mod 2 ^ m"
    using dv by (rule mod_mod_cancel)
  also have "\<dots> = (unat addr + src) mod 2 ^ m"
    by (metis dv mod_add_right_eq mod_mod_cancel)
  finally show ?thesis
    by (simp only: unat_mod_distrib p)
qed

lemma ctz32_pow2:
  assumes "m < 32"
  shows "ctz32 (of_nat (2 ^ m)) = m"
proof -
  have bit: "bit (of_nat (2 ^ m) :: u32) i \<longleftrightarrow> i = m" for i
    using assms by (auto simp: bit_exp_iff)
  have "find (bit (of_nat (2 ^ m) :: u32)) [0..<32] = Some m"
    unfolding find_Some_iff using assms bit by (intro exI [of _ m]) simp
  then show ?thesis
    by (simp add: ctz32_def)
qed

definition mst_bus :: "nat \<Rightarrow> axi_mst \<Rightarrow> bool" where
  "mst_bus bus s \<longleftrightarrow> mst_data_width s = 8 * bus \<and> mst_strb_width s = bus \<and> mst_sizes s = sizes_upto bus \<and>
     bus \<in> {8, 16, 32, 64}"

lemma mst_bus_pow2: "mst_bus bus s \<Longrightarrow> \<exists>k < 64. bus = 2 ^ k"
proof -
  assume "mst_bus bus s"
  then have "bus = 2 ^ 3 \<or> bus = 2 ^ 4 \<or> bus = 2 ^ 5 \<or> bus = 2 ^ 6"
    by (auto simp: mst_bus_def)
  moreover have "(3 :: nat) < 64" "(4 :: nat) < 64" "(5 :: nat) < 64" "(6 :: nat) < 64"
    by simp_all
  ultimately show ?thesis
    by blast
qed

text \<open>A beat takes a power of two bytes, or what is left of the payload, if its lanes stay on the bus.\<close>

lemma fill_lanes_min:
  "fill_lanes q src lane b k ds = fill_lanes q src lane b (min k (length (wq_data q) - (src + b))) ds"
proof (induction k arbitrary: b ds)
  case (Suc k)
  obtain d st where ds: "ds = (d, st)"
    by (cases ds)
  show ?case
  proof (cases "src + b < length (wq_data q)")
    case True
    then obtain m where "length (wq_data q) - (src + b) = Suc m"
      by (metis Suc_diff_Suc)
    moreover from this have "length (wq_data q) - (src + Suc b) = m"
      by simp
    ultimately show ?thesis
      using True Suc.IH by (simp add: ds)
  qed (simp add: ds)
qed simp

lemma write_beat_result:
  assumes bus: "mst_bus bus s" and m: "unat (a_size a) = m" "m < 64" and src: "src = 2 ^ m * beat"
    and len: "length (wq_data q) = n" "length (wq_strb q) = n" "c = min (2 ^ m) (n - src)" "src \<le> n"
    and lane: "(unat (wq_addr q) + src) mod bus + c \<le> bus"
  shows "\<exists>w. write_beat_of q a beat s = Some w \<and> length (w_data w) = bus \<and> length (w_strb w) = bus \<and>
    (\<forall>j. src \<le> j \<and> j < src + c \<longrightarrow> w_data w ! ((unat (wq_addr q) + j) mod bus) = wq_data q ! j \<and>
      w_strb w ! ((unat (wq_addr q) + j) mod bus) = wq_strb q ! j) \<and>
    (\<forall>l < bus. w_strb w ! l \<longrightarrow> (\<exists>j. src \<le> j \<and> j < src + c \<and> l = (unat (wq_addr q) + j) mod bus \<and> wq_strb q ! j)) \<and>
    w_last w = (beat = unat (a_len a))"
proof -
  let ?lane = "(unat (wq_addr q) + src) mod bus"
  obtain k where k: "bus = 2 ^ k" "k < 64"
    using mst_bus_pow2 [OF bus] by blast
  have at: "(unat (wq_addr q) + j) mod bus = ?lane + (j - src)" if "src \<le> j" "j < src + c" for j
  proof -
    from that(1) obtain i where j: "j = src + i"
      by (auto simp: le_iff_add)
    have "(unat (wq_addr q) + src + i) mod bus = (?lane + i) mod bus"
      by (simp only: mod_add_left_eq)
    then show ?thesis
      using that lane by (simp add: j add.assoc)
  qed
  have "src + 0 + c \<le> n"
    using len(3,4) by simp
  then obtain d st where f0: "fill_lanes q src ?lane 0 c (replicate bus 0, replicate bus False) = Some (d, st)"
      and f: "length d = bus" "length st = bus"
      "\<forall>l < bus. d ! l = (if ?lane \<le> l \<and> l < ?lane + c then wq_data q ! (src + (l - ?lane)) else 0)"
      "\<forall>l < bus. st ! l = (if ?lane \<le> l \<and> l < ?lane + c then wq_strb q ! (src + (l - ?lane)) else False)"
    using fill_lanes_result [of ?lane 0 c "replicate bus 0" "replicate bus False" src q] lane len(1,2) by auto
  let ?w = "\<lparr> w_data = d, w_strb = st, w_last = (beat = unat (a_len a)) \<rparr>"
  have "fill_lanes q src ?lane 0 (2 ^ m) (replicate bus 0, replicate bus False) = Some (d, st)"
    using f0 len(1,3) by (subst fill_lanes_min) simp
  moreover have "\<not> 64 \<le> a_size a"
    using m by (simp add: word_le_nat_alt)
  ultimately have "write_beat_of q a beat s = Some ?w"
    using bus m(1) src lane_nat [OF k(2), of "wq_addr q" src] k(1)
    by (simp add: write_beat_of_def mst_bus_def Let_def)
  moreover have "d ! ((unat (wq_addr q) + j) mod bus) = wq_data q ! j \<and> st ! ((unat (wq_addr q) + j) mod bus) = wq_strb q ! j"
    if "src \<le> j" "j < src + c" for j
  proof -
    have "?lane + (j - src) < bus" "?lane + (j - src) < ?lane + c"
      using that lane by linarith+
    with f(3,4) that(1) show ?thesis
      unfolding at [OF that] by auto
  qed
  moreover have "\<exists>j. src \<le> j \<and> j < src + c \<and> l = (unat (wq_addr q) + j) mod bus \<and> wq_strb q ! j" if "l < bus" "st ! l" for l
  proof (intro exI conjI)
    have "?lane \<le> l \<and> l < ?lane + c \<and> wq_strb q ! (src + (l - ?lane))"
      using f(4) that by (metis (full_types))
    then show "src \<le> src + (l - ?lane)" "src + (l - ?lane) < src + c" "wq_strb q ! (src + (l - ?lane))"
      "l = (unat (wq_addr q) + (src + (l - ?lane))) mod bus"
      using at [of "src + (l - ?lane)"] by auto
  qed
  ultimately show ?thesis
    using f(1,2) by auto
qed

lemma sizes_upto_iff: "n \<in> set (sizes_upto m) \<longleftrightarrow> (\<exists>k < 32. n = 2 ^ k \<and> n \<le> m)"
  by (auto simp: sizes_upto_def)

lemma in_beat_block: "0 < p \<Longrightarrow> p * b \<le> j \<and> j < p * b + p \<longleftrightarrow> j div p = (b :: nat)"
  using dividend_less_times_div [of p j] by (auto simp: div_nat_eqI)

lemma aligned_fits:
  assumes "(n :: nat) dvd bus" and "0 < bus" and "x mod n = 0"
  shows "x mod bus + n \<le> bus"
proof -
  obtain c where c: "bus = n * c"
    using assms(1) by (elim dvdE)
  have "x mod bus mod n = 0"
    using assms(1,3) by (simp add: mod_mod_cancel)
  then obtain a where a: "x mod bus = n * a"
    by (metis mod_0_imp_dvd dvdE)
  have "n * a < n * c"
    using assms(2) a c by (metis mod_less_divisor)
  then have "n * Suc a \<le> n * c"
    by (intro mult_le_mono2) simp
  then show ?thesis
    unfolding a by (simp add: c)
qed

lemma write_beats_fit:
  assumes bus: "mst_bus bus s" and n: "0 < n" and al: "n \<in> set (mst_sizes s) \<longrightarrow> x mod n = 0"
    and shape: "if n \<in> set (mst_sizes s) then L = 0 \<and> n \<le> 2 ^ m else L = n - 1 \<and> m = 0" and b: "b < Suc L"
  shows "2 ^ m * b \<le> n" "(x + 2 ^ m * b) mod bus + min (2 ^ m) (n - 2 ^ m * b) \<le> bus"
    "2 ^ m * b \<le> j \<and> j < 2 ^ m * b + min (2 ^ m) (n - 2 ^ m * b) \<longleftrightarrow> j div 2 ^ m = b \<and> j < n"
proof -
  have pos: "0 < bus"
    using bus by (auto simp: mst_bus_def)
  have "2 ^ m * b \<le> n \<and> (x + 2 ^ m * b) mod bus + min (2 ^ m) (n - 2 ^ m * b) \<le> bus"
  proof (cases "n \<in> set (mst_sizes s)")
    case True
    then obtain k where k: "n = 2 ^ k" "n \<le> bus"
      using bus by (auto simp: mst_bus_def sizes_upto_iff)
    obtain i where "bus = 2 ^ i"
      using mst_bus_pow2 [OF bus] by blast
    then have "n dvd bus"
      using k by (simp add: le_imp_power_dvd)
    then show ?thesis
      using aligned_fits [OF _ pos, of n x] al shape b True by simp
  next
    case False
    have "(x + b) mod bus < bus"
      using pos by simp
    then show ?thesis
      using shape b n False by simp
  qed
  then show "2 ^ m * b \<le> n" "(x + 2 ^ m * b) mod bus + min (2 ^ m) (n - 2 ^ m * b) \<le> bus"
    by simp_all
  then show "2 ^ m * b \<le> j \<and> j < 2 ^ m * b + min (2 ^ m) (n - 2 ^ m * b) \<longleftrightarrow> j div 2 ^ m = b \<and> j < n"
    using in_beat_block [of "2 ^ m" b j] by auto
qed

lemma those_witness:
  assumes "\<forall>b < n. \<exists>w. g b = Some w \<and> P b w"
  shows "\<exists>ws. those (map g [0..<n]) = Some ws \<and> length ws = n \<and> (\<forall>b < n. P b (ws ! b))"
proof -
  from assms obtain h where h: "\<forall>b < n. g b = Some (h b) \<and> P b (h b)"
    by metis
  then have "map g [0..<n] = map (\<lambda>b. Some (h b)) [0..<n]"
    by (intro map_cong) auto
  then have "those (map g [0..<n]) = Some (map h [0..<n])"
    by (simp only: those_map_Some)
  then show ?thesis
    using h by auto
qed

text \<open>The data packets of an address packet, with the beats as the burst engine counts them.\<close>

definition payload_on_lanes :: "nat \<Rightarrow> write_request_t \<Rightarrow> a_t \<Rightarrow> w_t list \<Rightarrow> bool" where
  "payload_on_lanes bus q a ws \<longleftrightarrow> length ws = Suc (unat (a_len a)) \<and>
     (\<forall>b < length ws. w_last (ws ! b) = (b = length ws - 1)) \<and>
     (\<forall>j < length (wq_data q). let w = ws ! (j div 2 ^ unat (a_size a)); lane = (unat (wq_addr q) + j) mod bus in
        j div 2 ^ unat (a_size a) < length ws \<and> w_data w ! lane = wq_data q ! j \<and> w_strb w ! lane = wq_strb q ! j) \<and>
     (\<forall>b < length ws. length (w_data (ws ! b)) = bus \<and> length (w_strb (ws ! b)) = bus \<and> (\<forall>l < bus. w_strb (ws ! b) ! l \<longrightarrow>
        (\<exists>j < length (wq_data q). j div 2 ^ unat (a_size a) = b \<and> l = (unat (wq_addr q) + j) mod bus \<and> wq_strb q ! j)))"

lemma write_beats_built:
  assumes bus: "mst_bus bus s" and len: "length (wq_data q) = n" "length (wq_strb q) = n" "0 < n"
    and al: "n \<in> set (mst_sizes s) \<longrightarrow> unat (wq_addr q) mod n = 0" and m: "unat (a_size a) < 64"
    and shape: "if n \<in> set (mst_sizes s) then unat (a_len a) = 0 \<and> n \<le> 2 ^ unat (a_size a) else unat (a_len a) = n - 1 \<and> unat (a_size a) = 0"
  shows "\<exists>ws. those (map (\<lambda>beat. write_beat_of q a beat s) [0..<Suc (unat (a_len a))]) = Some ws \<and> payload_on_lanes bus q a ws"
proof -
  let ?m = "unat (a_size a)" and ?L = "Suc (unat (a_len a))"
  let ?at = "\<lambda>j. (unat (wq_addr q) + j) mod bus"
  have "\<forall>b < ?L. \<exists>w. write_beat_of q a b s = Some w \<and> length (w_data w) = bus \<and> length (w_strb w) = bus \<and> w_last w = (b = unat (a_len a)) \<and>
    (\<forall>j. j div 2 ^ ?m = b \<and> j < n \<longrightarrow> w_data w ! ?at j = wq_data q ! j \<and> w_strb w ! ?at j = wq_strb q ! j) \<and>
    (\<forall>l < bus. w_strb w ! l \<longrightarrow> (\<exists>j. (j div 2 ^ ?m = b \<and> j < n) \<and> l = ?at j \<and> wq_strb q ! j))"
  proof (intro allI impI)
    fix b assume b: "b < ?L"
    note fit = write_beats_fit [OF bus len(3) al shape b]
    show "\<exists>w. write_beat_of q a b s = Some w \<and> length (w_data w) = bus \<and> length (w_strb w) = bus \<and> w_last w = (b = unat (a_len a)) \<and>
      (\<forall>j. j div 2 ^ ?m = b \<and> j < n \<longrightarrow> w_data w ! ?at j = wq_data q ! j \<and> w_strb w ! ?at j = wq_strb q ! j) \<and>
      (\<forall>l < bus. w_strb w ! l \<longrightarrow> (\<exists>j. (j div 2 ^ ?m = b \<and> j < n) \<and> l = ?at j \<and> wq_strb q ! j))"
      using write_beat_result [OF bus refl m refl len(1,2) refl fit(1,2)] unfolding fit(3) [symmetric] by blast
  qed
  from those_witness [OF this] obtain ws where
    ws: "those (map (\<lambda>b. write_beat_of q a b s) [0..<?L]) = Some ws" "length ws = ?L"
      "\<And>b. b < ?L \<Longrightarrow> length (w_data (ws ! b)) = bus \<and> length (w_strb (ws ! b)) = bus \<and> w_last (ws ! b) = (b = unat (a_len a))"
      "\<And>b j. b < ?L \<Longrightarrow> j div 2 ^ ?m = b \<and> j < n \<Longrightarrow> w_data (ws ! b) ! ?at j = wq_data q ! j \<and> w_strb (ws ! b) ! ?at j = wq_strb q ! j"
      "\<And>b l. b < ?L \<Longrightarrow> l < bus \<Longrightarrow> w_strb (ws ! b) ! l \<Longrightarrow> \<exists>j. (j div 2 ^ ?m = b \<and> j < n) \<and> l = ?at j \<and> wq_strb q ! j"
    by blast
  have "j div 2 ^ ?m < ?L" if "j < n" for j
    using shape that by (cases "n \<in> set (mst_sizes s)") auto
  then have "payload_on_lanes bus q a ws"
    unfolding payload_on_lanes_def Let_def ws(2) len(1)
    using ws(3-5) by (auto simp del: upt_Suc) blast
  then show ?thesis
    using ws(1) by blast
qed

definition mst_tables :: "axi_mst \<Rightarrow> bool" where
  "mst_tables s \<longleftrightarrow> length (mst_exp_err s) = length (mst_ids s) \<and> length (mst_decerr s) = length (mst_ids s) \<and>
     length (mst_slverr s) = length (mst_ids s)"

lemma write_packet_shape:
  assumes bus: "mst_bus bus s" and n: "0 < n" "n \<le> 256"
    and ov: "ov \<noteq> 0 \<longrightarrow> n \<in> set (mst_sizes s) \<and> ov < 64 \<and> n \<le> 2 ^ unat ov"
    and len: "a_len a = (if n \<in> set (mst_sizes s) then 0 else of_nat n - 1)"
    and size: "a_size a = (if ov \<noteq> 0 then ov else if n \<in> set (mst_sizes s) then of_nat (ctz32 (of_nat n)) else 0)"
  shows "unat (a_size a) < 64" "ov = 0 \<longrightarrow> n = Suc (unat (a_len a)) * 2 ^ unat (a_size a)"
    "if n \<in> set (mst_sizes s) then unat (a_len a) = 0 \<and> n \<le> 2 ^ unat (a_size a) else unat (a_len a) = n - 1 \<and> unat (a_size a) = 0"
proof -
  let ?single = "n \<in> set (mst_sizes s)"
  have "of_nat n - 1 = (of_nat (n - 1) :: u8)"
    using n(1) by simp
  moreover have "unat (of_nat (n - 1) :: u8) = n - 1"
    using n(2) by (intro unat_of_nat_less) simp
  ultimately have L: "unat (a_len a) = (if ?single then 0 else n - 1)"
    by (simp add: len)
  have m: "unat (a_size a) < 64 \<and> (?single \<longrightarrow> n \<le> 2 ^ unat (a_size a)) \<and> (\<not> ?single \<longrightarrow> unat (a_size a) = 0) \<and>
    (ov = 0 \<longrightarrow> ?single \<longrightarrow> n = 2 ^ unat (a_size a))"
  proof (cases "ov = 0")
    case True
    have "unat (a_size a) = k" if "n = 2 ^ k" "k < 32" "?single" for k
      using that size True ctz32_pow2 [OF that(2)] by (simp add: unat_of_nat_less)
    then show ?thesis
      using bus size True by (auto simp: mst_bus_def sizes_upto_iff)
  next
    case False
    then have "a_size a = ov"
      by (simp add: size)
    then show ?thesis
      using ov False by (simp add: word_less_nat_alt)
  qed
  show "unat (a_size a) < 64" "ov = 0 \<longrightarrow> n = Suc (unat (a_len a)) * 2 ^ unat (a_size a)"
    "if ?single then unat (a_len a) = 0 \<and> n \<le> 2 ^ unat (a_size a) else unat (a_len a) = n - 1 \<and> unat (a_size a) = 0"
    using m L n(1) by (cases ?single; simp)+
qed

text \<open>
  C15: A write request reaches the bus byte by byte.  Take a request of n bytes, at most 256, with no
  id of its own, that does not cross a 4 KiB boundary, when an id is free.  If n is a
  transfer size of the bus the address is aligned to it, and a size override is only used then and is not
  smaller than n.  The manager queues one address packet with the id it allocated and the
  address of the request, and right behind it the data packets: a single beat if n is a transfer size and a
  byte stream of n beats otherwise, with the overriding size if there is one.  Only the final packet is
  marked last; byte j of the payload and its strobe are in the packet of its beat on the lane that
  address addr + j selects; and no other lane of any packet is strobed.
\<close>
theorem write_request_lanes:
  assumes free: "next_id f d 0 s = Some (Some i, s1)" and wf: "mst_wf s" "mst_tables s" and bus: "mst_bus bus s"
    and man: "\<not> at_is_manual_id (wq_attr q)" and page: "wq_addr q AND NOT 0xfff = (wq_addr q + of_nat n - 1) AND NOT 0xfff"
    and len: "wq_length q = n" "length (wq_data q) = n" "length (wq_strb q) = n" "0 < n" "n \<le> 256"
    and al: "n \<in> set (mst_sizes s) \<longrightarrow> unat (wq_addr q) mod n = 0"
    and ov: "wq_size_override q \<noteq> 0 \<longrightarrow> n \<in> set (mst_sizes s) \<and> wq_size_override q < 64 \<and> n \<le> 2 ^ unat (wq_size_override q)"
  shows "\<exists>a ws s2. push_write_request f d q s =
      map_option (\<lambda>(s', evs). (Some i, s', evs)) (enqueue f (A_txn a # map W_txn ws) s2) \<and>
    mst_txns s2 = mst_txns s \<and> mst_ids s2 = (mst_ids s)[unat i := False] \<and> mst_aw s2 = mst_aw s \<and> mst_w s2 = mst_w s \<and>
    a_w a \<and> a_id a = i \<and> a_addr a = wq_addr q \<and> a_burst a = BURST_INCR \<and>
    (if n \<in> set (mst_sizes s) then a_len a = 0 else unat (a_len a) = n - 1) \<and>
    (if wq_size_override q \<noteq> 0 then a_size a = wq_size_override q else n = length ws * 2 ^ unat (a_size a)) \<and>
    payload_on_lanes bus q a ws"
proof -
  note fresh = next_id_fresh [OF free wf(1)]
  let ?single = "n \<in> set (mst_sizes s)"
  let ?a0 = "(a_blank True)\<lparr> a_exp_err_rsp := wq_exp_err_rsp q, a_allow_decerr_resp := wq_allow_decerr_resp q,
    a_id := at_manual_id (wq_attr q) \<rparr>"
  define a1 where "a1 = ?a0\<lparr> a_addr := wq_addr q, a_burst := BURST_INCR, a_atop := atop_decode 0, a_lock := False, a_id := i,
    a_len := (if ?single then 0 else of_nat n - 1), a_size := (if ?single then of_nat (ctz32 (of_nat n)) else 0) \<rparr>"
  have "a_seqid ?a0 = 0"
    by (simp add: a_blank_def a_of_no_id_def a_no_id_new_def a_base.defs)
  then have wrap: "a_wrapper f d (wq_addr q) n ?a0 True s = Some (Some a1, s1, [])"
    using free page fresh(3) by (simp add: a_wrapper_def Let_def a1_def)
  define a where "a = (if wq_size_override q \<noteq> 0 then (apply_attr (wq_attr q) a1)\<lparr> a_size := wq_size_override q \<rparr> else apply_attr (wq_attr q) a1)"
  have a: "a_w a" "a_id a = i" "a_addr a = wq_addr q" "a_burst a = BURST_INCR" "a_len a = (if ?single then 0 else of_nat n - 1)"
    "a_size a = (if wq_size_override q \<noteq> 0 then wq_size_override q else if ?single then of_nat (ctz32 (of_nat n)) else 0)"
    by (simp_all add: a_def a1_def apply_attr_def a_blank_def a_of_no_id_def a_no_id_new_def a_base.defs)
  note shape = write_packet_shape [OF bus len(4,5) ov a(5,6)]
  have "unat i < length (mst_exp_err s1)" "unat i < length (mst_decerr s1)" "unat i < length (mst_slverr s1)"
    using fresh wf(2) by (simp_all add: mst_tables_def)
  then obtain e r l where flags: "set_resp_flags a s1 = Some (s1\<lparr> mst_exp_err := e, mst_decerr := r, mst_slverr := l \<rparr>)"
    by (auto simp: set_resp_flags_def a(2) vec_set_def)
  let ?s2 = "s1\<lparr> mst_exp_err := e, mst_decerr := r, mst_slverr := l \<rparr>"
  have s2: "mst_bus bus ?s2" "mst_sizes ?s2 = mst_sizes s" "mst_txns ?s2 = mst_txns s" "mst_ids ?s2 = (mst_ids s)[unat i := False]"
    "mst_aw ?s2 = mst_aw s" "mst_w ?s2 = mst_w s"
    using bus fresh(3) by (simp_all add: mst_bus_def)
  obtain ws where ws: "those (map (\<lambda>beat. write_beat_of q a beat ?s2) [0..<Suc (unat (a_len a))]) = Some ws" "payload_on_lanes bus q a ws"
    using write_beats_built [OF s2(1) len(2-4) _ shape(1), unfolded s2(2), OF al shape(3)] by blast
  have "push_write_request f d q s = map_option (\<lambda>(s', evs). (Some i, s', evs)) (enqueue f (A_txn a # map W_txn ws) ?s2)"
    using man wrap flags ws(1) a(2) len(1)
    by (cases "enqueue f (A_txn a # map W_txn ws) ?s2") (auto simp: push_write_request_def Let_def a_def [symmetric] simp del: upt_Suc)
  moreover have "n = length ws * 2 ^ unat (a_size a)" if "wq_size_override q = 0"
    using shape(2) ws(2) that by (simp only: payload_on_lanes_def)
  moreover have "if ?single then a_len a = 0 else unat (a_len a) = n - 1"
    using shape(3) a(5) by (simp split: if_splits)
  ultimately show ?thesis
    using a(1-4) ws(2) s2(3-6) a(6) by (intro exI [of _ a] exI [of _ ws] exI [of _ ?s2]) auto
qed

theorem write_request_lanes_witness:
  "\<exists>a ws s2. push_write_request sample_mst_flags 0 (write_request 0x1003 3 [7, 8, 9] [True, False, True] False) sample_mst =
      map_option (\<lambda>(s', evs). (Some 0, s', evs)) (enqueue sample_mst_flags (A_txn a # map W_txn ws) s2) \<and>
    length ws = 3 \<and> w_data (ws ! 2) ! 5 = 9 \<and> w_strb (ws ! 2) ! 5 \<and> \<not> w_strb (ws ! 1) ! 4 \<and> w_last (ws ! 2)"
proof -
  let ?q = "write_request 0x1003 3 [7, 8, 9] [True, False, True] False"
  have b: "mst_wf sample_mst" "mst_tables sample_mst" "mst_bus 8 sample_mst" "3 \<notin> set (mst_sizes sample_mst)"
    by (simp_all add: sample_mst_def mst_new_def mst_wf_def mst_tables_def mst_bus_def sizes_upto_def Let_def upt_rec)
  have "map_option fst (next_id sample_mst_flags 0 0 sample_mst) = Some (Some 0)"
    by code_simp
  then obtain s1 where n: "next_id sample_mst_flags 0 0 sample_mst = Some (Some 0, s1)"
    by auto
  have q: "wq_addr ?q = 0x1003" "wq_data ?q = [7, 8, 9]" "wq_strb ?q = [True, False, True]" "wq_length ?q = 3"
    "wq_size_override ?q = 0" "\<not> at_is_manual_id (wq_attr ?q)"
    by (simp_all add: write_request_def attr_default_def)
  obtain a ws s2 where r: "push_write_request sample_mst_flags 0 ?q sample_mst =
      map_option (\<lambda>(s', evs). (Some 0, s', evs)) (enqueue sample_mst_flags (A_txn a # map W_txn ws) s2)"
      "unat (a_len a) = 2" "3 = length ws * 2 ^ unat (a_size a)" "payload_on_lanes 8 ?q a ws"
    using write_request_lanes [OF n b(1-3) q(6), of 3, unfolded q] b(4) by auto
  then have z: "length ws = 3" "a_size a = 0"
    by (auto simp: payload_on_lanes_def unsigned_eq_0_iff)
  have p: "\<forall>b < 3. w_last (ws ! b) = (b = 2)" "\<forall>j < 3. w_data (ws ! j) ! ((unat (0x1003 :: u64) + j) mod 8) = [7, 8, 9] ! j \<and>
      w_strb (ws ! j) ! ((unat (0x1003 :: u64) + j) mod 8) = [True, False, True] ! j"
    using r(4) by (simp_all add: payload_on_lanes_def q z Let_def)
  have "w_data (ws ! 2) ! 5 = 9 \<and> w_strb (ws ! 2) ! 5" "\<not> w_strb (ws ! 1) ! 4" "w_last (ws ! 2)"
    using p(2) [rule_format, of 2] p(2) [rule_format, of 1] p(1) [rule_format, of 2] by simp_all
  then show ?thesis
    using r(1) z(1) by blast
qed

end
