(* ===== verification/Device.thy ===== *)
theory Device
  imports AxiTypes Bytes
begin

text \<open>
  The device framework of \<^verbatim>\<open>sysmod/device.h\<close>: a device owns an address window, and a
  request inside the window is handed to its read or write handler and then
  acknowledged to the transactor it came from.  The locale \<^verbatim>\<open>mmio_device\<close> states what
  the framework expects of the handlers; every device model interprets it.
\<close>

section \<open>Model\<close>

record device_id =
  dv_tag :: string
  dv_addr :: u64
  dv_size :: u64

definition has_addr :: "device_id \<Rightarrow> u64 \<Rightarrow> bool" where
  "has_addr d v \<longleftrightarrow> dv_addr d \<le> v \<and> v < dv_addr d + dv_size d"

definition serve_write :: "(write_t \<Rightarrow> 's \<Rightarrow> ('s \<times> 'e list) option) \<Rightarrow> write_t \<Rightarrow> 's \<Rightarrow>
    (write_response_t \<times> 's \<times> 'e list) option" where
  "serve_write dev_write w s = do {
     (s', evs) \<leftarrow> dev_write w s;
     Some (\<lparr> wp_id = wr_id w, wp_resp = 0 \<rparr>, s', evs)
   }"

definition serve_read :: "(read_t \<Rightarrow> data_t \<Rightarrow> 's \<Rightarrow> (data_t \<times> 's) option) \<Rightarrow> read_t \<Rightarrow> 's \<Rightarrow>
    (read_response_t \<times> 's) option" where
  "serve_read dev_read r s = do {
     (data, s') \<leftarrow> dev_read r (replicate (rd_length r) 0) s;
     Some (\<lparr> rr_id = rd_id r, rr_data = data, rr_resp = 0 \<rparr>, s')
   }"

datatype request = Read_req read_t | Write_req write_t

fun request_id :: "request \<Rightarrow> u32" where
  "request_id (Read_req r) = rd_id r"
| "request_id (Write_req w) = wr_id w"

fun serve_all :: "(read_t \<Rightarrow> data_t \<Rightarrow> 's \<Rightarrow> (data_t \<times> 's) option) \<Rightarrow>
    (write_t \<Rightarrow> 's \<Rightarrow> ('s \<times> 'e list) option) \<Rightarrow> request list \<Rightarrow> 's \<Rightarrow>
    (u32 list \<times> 's \<times> 'e list) option" where
  "serve_all dr dw [] s = Some ([], s, [])"
| "serve_all dr dw (Read_req r # qs) s = do {
     (resp, s) \<leftarrow> serve_read dr r s;
     (ids, s, evs) \<leftarrow> serve_all dr dw qs s;
     Some (rr_id resp # ids, s, evs)
   }"
| "serve_all dr dw (Write_req w # qs) s = do {
     (resp, s, evs) \<leftarrow> serve_write dw w s;
     (ids, s, evs') \<leftarrow> serve_all dr dw qs s;
     Some (wp_id resp # ids, s, evs @ evs')
   }"

section \<open>The handler interface\<close>

definition bus_write :: "write_t \<Rightarrow> bool" where
  "bus_write w \<longleftrightarrow> 8 \<le> length (wr_data w)"

locale mmio_device =
  fixes inv :: "'s \<Rightarrow> bool"
    and accepts :: "write_t \<Rightarrow> bool"
    and dev_read :: "read_t \<Rightarrow> data_t \<Rightarrow> 's \<Rightarrow> (data_t \<times> 's) option"
    and dev_write :: "write_t \<Rightarrow> 's \<Rightarrow> ('s \<times> 'e list) option"
  assumes read_ok: "inv s \<Longrightarrow> length data = rd_length r \<Longrightarrow>
      \<exists>data' s'. dev_read r data s = Some (data', s') \<and> length data' = length data \<and> inv s'"
    and write_ok: "inv s \<Longrightarrow> accepts w \<Longrightarrow> \<exists>s' evs. dev_write w s = Some (s', evs) \<and> inv s'"
begin

lemma serve_read_ok:
  assumes "inv s"
  shows "\<exists>resp s'. serve_read dev_read r s = Some (resp, s') \<and> rr_id resp = rd_id r \<and>
    length (rr_data resp) = rd_length r \<and> inv s'"
  using read_ok [OF assms, of "replicate (rd_length r) 0" r] by (auto simp: serve_read_def)

lemma serve_write_ok:
  assumes "inv s" and "accepts w"
  shows "\<exists>resp s' evs. serve_write dev_write w s = Some (resp, s', evs) \<and> wp_id resp = wr_id w \<and> inv s'"
  using write_ok [OF assms] by (auto simp: serve_write_def)

lemma serve_all_ok:
  assumes "inv s" and "\<forall>w. Write_req w \<in> set qs \<longrightarrow> accepts w"
  shows "\<exists>s' evs. serve_all dev_read dev_write qs s = Some (map request_id qs, s', evs) \<and> inv s'"
  using assms
proof (induction qs arbitrary: s)
  case (Cons q qs)
  show ?case
  proof (cases q)
    case (Read_req r)
    then show ?thesis
      using serve_read_ok [OF Cons.prems(1), of r] Cons by fastforce
  next
    case (Write_req w)
    then show ?thesis
      using serve_write_ok [OF Cons.prems(1), of w] Cons by fastforce
  qed
qed simp

end

end
