(* ===== verification/MmrRouter.thy ===== *)
theory MmrRouter
  imports Device AxiMst
begin

text \<open>
  The register router of \<^verbatim>\<open>sysmod/mmr_txn_router\<close>: accesses to its window are sent back to the
  design through the AXI manager.  The manager and the design behind it are the
  environment argument; a response that never comes is \<^const>\<open>None\<close>.
\<close>

section \<open>Model\<close>

record 'e mmr_env =
  mmr_push_ar :: "a_no_id_t \<Rightarrow> 'e \<Rightarrow> u32 option \<times> 'e"
  mmr_push_write :: "write_request_t \<Rightarrow> 'e \<Rightarrow> u32 option \<times> 'e"
  mmr_clear_r :: "'e \<Rightarrow> 'e"
  mmr_clear_w :: "'e \<Rightarrow> 'e"
  mmr_wait_r :: "u32 \<Rightarrow> 'e \<Rightarrow> (read_response_t \<times> 'e) option"
  mmr_wait_w :: "u32 \<Rightarrow> 'e \<Rightarrow> (write_response_t \<times> 'e) option"
  mmr_rng :: "'e \<Rightarrow> u32 \<times> 'e"

record mmr_flags =
  fl_attr_randomize :: bool
  fl_attr_fields :: u32
  fl_user_codepoints :: bool
  fl_srcid01_every :: u32
  fl_size_gt8_every :: u32
  fl_aw_size_gt8_every :: u32

record mmr_router =
  mr_attr_random :: bool
  mr_attr_fields :: u32
  mr_write_count :: u32
  mr_size_gt8_every :: u32
  mr_read_count :: u32
  mr_aw_size_gt8_every :: u32
  mr_aw_size_count :: u32
  mr_data_bytes :: u64
  mr_max_beats :: u64

definition upsized_axsize :: u8 where
  "upsized_axsize = 4"

definition upsized_align_mask :: u64 where
  "upsized_align_mask = NOT (push_bit 4 1 - 1)"

definition make_ar :: "u64 \<Rightarrow> u64 \<Rightarrow> bool \<Rightarrow> u64 \<Rightarrow> a_no_id_t" where
  "make_ar addr len upsize_narrow bus_bytes =
     (let axi_length = (if upsize_narrow \<and> len > 0 \<and> len < 4 then 4 else len);
          beat_bytes = (if bus_bytes \<noteq> 0 \<and> bus_bytes < axi_length then bus_bytes else axi_length);
          pow2_beat = (beat_bytes \<noteq> 0 \<and> beat_bytes AND (beat_bytes - 1) = 0)
      in if pow2_beat \<and> axi_length mod beat_bytes = 0
         then (a_no_id_new False addr 0)\<lparr> a_size := of_nat (ctz32 (ucast beat_bytes)), a_len := ucast (axi_length div beat_bytes - 1) \<rparr>
         else (a_no_id_new False addr 0)\<lparr> a_size := 0, a_len := ucast (axi_length - 1) \<rparr>)"

definition pick_attr :: "'e mmr_env \<Rightarrow> mmr_flags \<Rightarrow> bool \<Rightarrow> mmr_router \<Rightarrow> 'e \<Rightarrow> axi_attr_t \<times> mmr_router \<times> 'e" where
  "pick_attr E F is_write s e =
     (if \<not> mr_attr_random s then (attr_default, s, e)
      else
        let (r, e) = mmr_rng E e; fields = mr_attr_fields s;
            t = attr_default;
            t = (if bit fields 0 then t\<lparr> at_cache := ucast (r AND 0xf) \<rparr> else t);
            t = (if bit fields 1 then t\<lparr> at_prot := ucast (drop_bit 4 r AND 7) \<rparr> else t);
            t = (if bit fields 2 then t\<lparr> at_qos := ucast (drop_bit 8 r AND 0xf) \<rparr> else t);
            t = (if bit fields 3 then t\<lparr> at_region := ucast (drop_bit 12 r AND 0xf) \<rparr> else t);
            t = (if bit fields 4 then t\<lparr> at_user :=
                   (if fl_user_codepoints F then [0, 1, 3] ! unat (drop_bit 16 r mod 3) else ucast (drop_bit 16 r AND 0xff)) \<rparr> else t)
        in if is_write \<and> fl_srcid01_every F \<noteq> 0 then
             let n = mr_write_count s + 1; s = s\<lparr> mr_write_count := n \<rparr> in
             if n mod fl_srcid01_every F = 0
             then (t\<lparr> at_is_manual_id := True, at_manual_id := 0x4000 OR (n AND 7) \<rparr>, s, e)
             else (t, s, e)
           else (t, s, e))"

definition mmr_configure :: "mmr_flags \<Rightarrow> u64 \<Rightarrow> u64 option \<Rightarrow> mmr_router \<Rightarrow> mmr_router" where
  "mmr_configure F data_width max_axlen s =
     s\<lparr> mr_attr_random := fl_attr_randomize F, mr_attr_fields := fl_attr_fields F,
        mr_size_gt8_every := fl_size_gt8_every F, mr_aw_size_gt8_every := fl_aw_size_gt8_every F,
        mr_data_bytes := data_width div 8,
        mr_max_beats := (case max_axlen of None \<Rightarrow> 0 | Some n \<Rightarrow> n + 1) \<rparr>"

text \<open>A request through the manager: the channel is drained after the push and before the wait.\<close>

definition issue_read :: "'e mmr_env \<Rightarrow> a_no_id_t \<Rightarrow> 'e \<Rightarrow> (read_response_t option \<times> 'e) option" where
  "issue_read E ar e =
     (case mmr_push_ar E ar e of
        (None, e) \<Rightarrow> Some (None, e)
      | (Some i, e) \<Rightarrow> do { (r, e) \<leftarrow> mmr_wait_r E i (mmr_clear_r E e); Some (Some r, e) })"

definition issue_write :: "'e mmr_env \<Rightarrow> write_request_t \<Rightarrow> 'e \<Rightarrow> (write_response_t option \<times> 'e) option" where
  "issue_write E q e =
     (case mmr_push_write E q e of
        (None, e) \<Rightarrow> Some (None, e)
      | (Some i, e) \<Rightarrow> do { (r, e) \<leftarrow> mmr_wait_w E i (mmr_clear_w E e); Some (Some r, e) })"

text \<open>The copy loop of a split read, over the addresses from \<^verbatim>\<open>b\<close> on.\<close>

fun copy_lanes :: "u64 \<Rightarrow> u64 \<Rightarrow> data_t \<Rightarrow> u64 \<Rightarrow> nat \<Rightarrow> data_t \<Rightarrow> data_t option" where
  "copy_lanes addr beat resp b 0 data = Some data"
| "copy_lanes addr beat resp b (Suc k) data =
     (if unat (b - beat) < length resp then do {
        data \<leftarrow> vec_set data (unat (b - addr)) (resp ! unat (b - beat));
        copy_lanes addr beat resp (b + 1) k data
      } else Some data)"

partial_function (option) read_split_loop ::
    "'e mmr_env \<Rightarrow> a_no_id_t \<Rightarrow> u64 \<Rightarrow> u64 \<Rightarrow> u64 \<Rightarrow> u64 \<Rightarrow> data_t \<Rightarrow> 'e \<Rightarrow> (resp_t \<times> data_t \<times> 'e) option" where
  "read_split_loop E tmpl bus addr stop beat data e =
     (if \<not> beat < stop then Some (RESP_OKAY, data, e)
      else
        Option.bind (issue_read E (tmpl\<lparr> a_addr := beat, a_size := of_nat (ctz32 (ucast bus)), a_len := 0, is_manual_id := False \<rparr>) e)
          (\<lambda>x. case x of
             (None, e) \<Rightarrow> Some (RESP_DECERR, data, e)
           | (Some r, e) \<Rightarrow>
               Option.bind (copy_lanes addr beat (rr_data r) (max addr beat) (unat (min stop (beat + bus)) - unat (max addr beat)) data)
                 (\<lambda>data. if rr_resp r \<noteq> RESP_OKAY then Some (rr_resp r, data, e)
                    else read_split_loop E tmpl bus addr stop (beat + bus) data e)))"

definition read_split :: "'e mmr_env \<Rightarrow> a_no_id_t \<Rightarrow> u64 \<Rightarrow> u64 \<Rightarrow> nat \<Rightarrow> 'e \<Rightarrow> (resp_t \<times> data_t \<times> 'e) option" where
  "read_split E tmpl bus addr len e =
     read_split_loop E tmpl bus addr (addr + of_nat len) (addr AND NOT (bus - 1)) (replicate len 0) e"

definition mmr_read :: "'e mmr_env \<Rightarrow> mmr_flags \<Rightarrow> bool \<Rightarrow> read_t \<Rightarrow> mmr_router \<Rightarrow> 'e \<Rightarrow>
    (resp_t \<times> data_t \<times> mmr_router \<times> 'e) option" where
  "mmr_read E F hardware_read r s e =
     (let addr = rd_addr r; len = rd_length r;
          ar = make_ar addr (of_nat len) (\<not> hardware_read) (mr_data_bytes s);
          ar = (if hardware_read then ar\<lparr> a_allow_decerr_resp := True \<rparr> else ar);
          (t, s, e) = pick_attr E F False s e;
          ar = ar\<lparr> a_cache := at_cache t, a_prot := at_prot t, a_qos := at_qos t, a_region := at_region t, a_user := at_user t \<rparr>
      in if mr_max_beats s \<noteq> 0 \<and> mr_max_beats s - 1 < ucast (a_len ar)
         then do { (resp, data, e) \<leftarrow> read_split E ar (mr_data_bytes s) addr len e; Some (resp, data, s, e) }
         else
           let (hit, s) = (if mr_size_gt8_every s \<noteq> 0
                 then ((mr_read_count s + 1) mod mr_size_gt8_every s = 0, s\<lparr> mr_read_count := mr_read_count s + 1 \<rparr>)
                 else (False, s));
               ar = (if hit then ar\<lparr> a_addr := a_addr ar AND upsized_align_mask, a_size := upsized_axsize, a_allow_decerr_resp := True \<rparr>
                     else ar)
           in do {
             (x, e) \<leftarrow> issue_read E ar e;
             (case x of
                None \<Rightarrow> Some (RESP_DECERR, replicate len 0, s, e)
              | Some resp \<Rightarrow>
                  let n = length (rr_data resp);
                      data = (if n \<noteq> 0 \<and> len < n
                        then let lane = unat (addr mod of_nat n) in take (min len (n - lane)) (drop lane (rr_data resp))
                        else take len (rr_data resp))
                  in Some (rr_resp resp, data, s, e))
           })"

fun fill_beat :: "write_t \<Rightarrow> u64 \<Rightarrow> u64 \<Rightarrow> nat \<Rightarrow> data_t \<Rightarrow> strb_t \<Rightarrow> (data_t \<times> strb_t) option" where
  "fill_beat w beat b 0 d s = Some (d, s)"
| "fill_beat w beat b (Suc k) d s = do {
     x \<leftarrow> vec_get (wr_data w) (unat (b - wr_addr w));
     d \<leftarrow> vec_set d (unat (b - beat)) x;
     y \<leftarrow> vec_get (wr_strb w) (unat (b - wr_addr w));
     s \<leftarrow> vec_set s (unat (b - beat)) y;
     fill_beat w beat (b + 1) k d s
   }"

partial_function (option) write_split_loop ::
    "'e mmr_env \<Rightarrow> axi_attr_t \<Rightarrow> u64 \<Rightarrow> write_t \<Rightarrow> u64 \<Rightarrow> u64 \<Rightarrow> 'e \<Rightarrow> (resp_t \<times> 'e) option" where
  "write_split_loop E t bus w stop beat e =
     (if \<not> beat < stop then Some (RESP_OKAY, e)
      else
        Option.bind (fill_beat w beat (max (wr_addr w) beat) (unat (min stop (beat + bus)) - unat (max (wr_addr w) beat))
            (replicate (unat bus) 0) (replicate (unat bus) False))
          (\<lambda>(d, st). Option.bind (issue_write E ((write_request beat (unat bus) d st False)\<lparr> wq_allow_decerr_resp := True,
                wq_attr := t\<lparr> at_is_manual_id := False \<rparr> \<rparr>) e)
             (\<lambda>x. case x of
                (None, e) \<Rightarrow> Some (RESP_DECERR, e)
              | (Some r, e) \<Rightarrow>
                  if wp_resp r \<noteq> RESP_OKAY then Some (wp_resp r, e) else write_split_loop E t bus w stop (beat + bus) e)))"

definition write_split :: "'e mmr_env \<Rightarrow> axi_attr_t \<Rightarrow> u64 \<Rightarrow> write_t \<Rightarrow> 'e \<Rightarrow> (resp_t \<times> 'e) option" where
  "write_split E t bus w e =
     write_split_loop E t bus w (wr_addr w + of_nat (wr_length w)) (wr_addr w AND NOT (bus - 1)) e"

definition mmr_write :: "'e mmr_env \<Rightarrow> mmr_flags \<Rightarrow> write_t \<Rightarrow> mmr_router \<Rightarrow> 'e \<Rightarrow> (resp_t \<times> mmr_router \<times> 'e) option" where
  "mmr_write E F w s e =
     (let (t, s, e) = pick_attr E F True s e; len = of_nat (wr_length w) :: u64;
          single = (len \<noteq> 0 \<and> len AND (len - 1) = 0 \<and> len \<le> mr_data_bytes s);
          beats = (if single then 1 else len)
      in if mr_max_beats s \<noteq> 0 \<and> mr_max_beats s < beats
         then do { (resp, e) \<leftarrow> write_split E t (mr_data_bytes s) w e; Some (resp, s, e) }
         else
           let q = (write_request (wr_addr w) (wr_length w) (wr_data w) (wr_strb w) False)\<lparr> wq_allow_decerr_resp := True, wq_attr := t \<rparr>;
               (hit, s) = (if mr_aw_size_gt8_every s \<noteq> 0
                 then ((mr_aw_size_count s + 1) mod mr_aw_size_gt8_every s = 0, s\<lparr> mr_aw_size_count := mr_aw_size_count s + 1 \<rparr>)
                 else (False, s));
               q = (if hit then q\<lparr> wq_addr := wq_addr q AND upsized_align_mask, wq_size_override := upsized_axsize \<rparr> else q)
           in do {
             (x, e) \<leftarrow> issue_write E q e;
             (case x of
                None \<Rightarrow> Some (RESP_DECERR, s, e)
              | Some r \<Rightarrow> Some (wp_resp r, s, e))
           })"

section \<open>Split transfers\<close>

text \<open>
  The bus behind the manager, seen by whole bus words: \<^verbatim>\<open>mem e a\<close> is the byte at address
  \<^verbatim>\<open>a\<close>; aligned reads return it and aligned writes change the strobed bytes.
\<close>

definition word_reads :: "'e mmr_env \<Rightarrow> ('e \<Rightarrow> u64 \<Rightarrow> u8) \<Rightarrow> nat \<Rightarrow> bool" where
  "word_reads E mem n \<longleftrightarrow> (\<forall>ar e. a_len ar = 0 \<and> (n < 2 ^ 32 \<longrightarrow> 2 ^ unat (a_size ar) = n) \<and> unat (a_addr ar) mod n = 0 \<longrightarrow>
     (\<exists>r e'. issue_read E ar e = Some (Some r, e') \<and> rr_resp r = RESP_OKAY \<and> mem e' = mem e \<and>
        rr_data r = map (\<lambda>i. mem e (a_addr ar + of_nat i)) [0..<n]))"

definition word_writes :: "'e mmr_env \<Rightarrow> ('e \<Rightarrow> u64 \<Rightarrow> u8) \<Rightarrow> nat \<Rightarrow> bool" where
  "word_writes E mem n \<longleftrightarrow> (\<forall>q e. wq_length q = n \<and> length (wq_data q) = n \<and> length (wq_strb q) = n \<and> unat (wq_addr q) mod n = 0 \<longrightarrow>
     (\<exists>r e'. issue_write E q e = Some (Some r, e') \<and> wp_resp r = RESP_OKAY \<and>
        (\<forall>x. mem e' x = (let j = unat (x - wq_addr q) in if j < n \<and> wq_strb q ! j then wq_data q ! j else mem e x))))"

lemma align_down:
  fixes addr bus :: u64
  assumes "unat bus = 2 ^ k" and "k < 64"
  shows "unat (addr AND NOT (bus - 1)) = unat addr div 2 ^ k * 2 ^ k"
proof -
  have "bus = 2 ^ k"
    using assms by (intro word_unat_eq_iff [THEN iffD2]) (simp add: unat_pow2)
  then have m: "bus - 1 = mask k"
    by (simp add: mask_eq_exp_minus_1)
  have "addr AND NOT (bus - 1) = push_bit k (drop_bit k addr)"
    unfolding m by (rule bit_word_eqI) (auto simp: bit_simps)
  moreover have "unat (drop_bit k addr) = unat addr div 2 ^ k"
    using assms by (simp add: drop_bit_eq_div unat_div_distrib unat_pow2)
  moreover have "unat addr div 2 ^ k * 2 ^ k < 2 ^ 64"
    using unsigned_less [of addr] by (auto intro: le_less_trans [OF div_times_less_eq_dividend])
  ultimately show ?thesis
    using assms by (simp add: push_bit_eq_mult unat_mult_less unat_pow2)
qed

lemma copy_lanes_result:
  assumes "addr \<le> b" and "beat \<le> b" and "unat b + k \<le> unat beat + length resp" and "unat b + k \<le> unat addr + length data"
    and "unat b + k < 2 ^ 64"
  shows "\<exists>data'. copy_lanes addr beat resp b k data = Some data' \<and> length data' = length data \<and>
    (\<forall>j < length data. data' ! j = (if unat b \<le> unat addr + j \<and> unat addr + j < unat b + k
       then resp ! (unat addr + j - unat beat) else data ! j))"
  using assms
proof (induction k arbitrary: b data)
  case 0
  then show ?case
    by auto
next
  case (Suc k)
  have b1: "unat (b + 1) = unat b + 1"
    using Suc.prems(5) by (subst unat_add_less) simp_all
  have sub: "unat (b - addr) = unat b - unat addr" "unat (b - beat) = unat b - unat beat"
    "unat addr \<le> unat b" "unat beat \<le> unat b"
    using Suc.prems(1,2) by (simp_all add: unat_sub word_le_nat_alt)
  let ?d = "data[unat b - unat addr := resp ! (unat b - unat beat)]"
  have "addr \<le> b + 1" "beat \<le> b + 1"
    using sub b1 by (simp_all add: word_le_nat_alt)
  with Suc.IH [of "b + 1" ?d] Suc.prems b1 obtain data' where
    r: "copy_lanes addr beat resp (b + 1) k ?d = Some data'" "length data' = length data"
      "\<forall>j < length data. data' ! j = (if unat b + 1 \<le> unat addr + j \<and> unat addr + j < unat b + 1 + k
         then resp ! (unat addr + j - unat beat) else ?d ! j)"
    by auto
  have "unat b - unat beat < length resp" "unat b - unat addr < length data"
    using Suc.prems(3,4) sub(3,4) by linarith+
  then have "copy_lanes addr beat resp b (Suc k) data = Some data'"
    using r(1) sub(1,2) by simp
  moreover have "data' ! j = (if unat b \<le> unat addr + j \<and> unat addr + j < unat b + Suc k
      then resp ! (unat addr + j - unat beat) else data ! j)" if "j < length data" for j
  proof (cases "unat addr + j = unat b")
    case True
    then have "j = unat b - unat addr"
      by simp
    then show ?thesis
      using r(3) that True by simp
  next
    case False
    then have "j \<noteq> unat b - unat addr"
      using sub(3) by linarith
    then show ?thesis
      using r(3) that False by auto
  qed
  ultimately show ?case
    using r(2) by blast
qed

lemma transfer_end:
  fixes addr bus beat :: u64
  assumes "unat addr + len + n \<le> 2 ^ 64" and "0 < n" and "unat bus = n"
  shows "unat (addr + of_nat len) = unat addr + len"
    and "unat beat < unat addr + len \<Longrightarrow> unat (beat + bus) = unat beat + n"
proof -
  have "unat (of_nat len :: u64) = len"
    using assms by (intro unat_of_nat_less) simp
  then show "unat (addr + of_nat len) = unat addr + len"
    using assms by (subst unat_add_less) simp_all
  show "unat beat < unat addr + len \<Longrightarrow> unat (beat + bus) = unat beat + n"
    using assms by (subst unat_add_less) simp_all
qed

lemma beat_span:
  fixes addr bus beat :: u64
  assumes "unat addr + len + n \<le> 2 ^ 64" and "0 < n" and "unat bus = n" and "unat beat < unat addr + len"
    and "unat addr < unat beat + n"
  defines "lo_addr \<equiv> max addr beat"
  shows "unat lo_addr = max (unat addr) (unat beat)"
    and "unat lo_addr + (unat (min (addr + of_nat len) (beat + bus)) - unat lo_addr) = min (unat addr + len) (unat beat + n)"
proof -
  show lo: "unat lo_addr = max (unat addr) (unat beat)"
    by (simp add: lo_addr_def max_def word_le_nat_alt)
  have "unat (min (addr + of_nat len) (beat + bus)) = min (unat addr + len) (unat beat + n)"
    using transfer_end(1) [OF assms(1-3)] transfer_end(2) [OF assms(1-4)] by (simp add: min_def word_le_nat_alt)
  then show "unat lo_addr + (unat (min (addr + of_nat len) (beat + bus)) - unat lo_addr) = min (unat addr + len) (unat beat + n)"
    using assms(4,5) unfolding lo by linarith
qed

lemma split_read_beat:
  assumes reads: "word_reads E mem n" and pow: "n = 2 ^ k" and b: "unat addr + len + n \<le> 2 ^ 64" "0 < n" "unat bus = n" "unat beat < unat addr + len"
      "unat addr < unat beat + n" and beat: "unat beat mod n = 0" and len: "length data = len"
  shows "\<exists>data' e'. read_split_loop E tmpl bus addr (addr + of_nat len) beat data e =
      read_split_loop E tmpl bus addr (addr + of_nat len) (beat + bus) data' e' \<and> mem e' = mem e \<and> length data' = len \<and>
    (\<forall>j < len. data' ! j = (if unat beat \<le> unat addr + j \<and> unat addr + j < unat beat + n then mem e (addr + of_nat j) else data ! j))"
proof -
  let ?ar = "tmpl\<lparr> a_addr := beat, a_size := of_nat (ctz32 (ucast bus)), a_len := 0, is_manual_id := False \<rparr>"
  have "2 ^ unat (a_size ?ar) = n" if "n < 2 ^ 32"
  proof -
    have k: "k < 32"
      using that unfolding pow by (rule power_less_imp_less_exp [rotated]) simp
    have "ucast bus = (of_nat n :: u32)"
      unfolding b(3) [symmetric] by simp
    then show ?thesis
      using ctz32_pow2 [OF k] k by (simp add: pow unat_of_nat_less)
  qed
  then obtain r e' where r: "issue_read E ?ar e = Some (Some r, e')" "rr_resp r = RESP_OKAY" "mem e' = mem e"
      "rr_data r = map (\<lambda>i. mem e (beat + of_nat i)) [0..<n]"
    using reads [unfolded word_reads_def, rule_format, of ?ar e] beat by auto
  let ?lo = "max addr beat"
  define k where "k = unat (min (addr + of_nat len) (beat + bus)) - unat ?lo"
  note lo = beat_span(1) [OF b] and k = beat_span(2) [OF b, folded k_def]
  have "addr \<le> ?lo" "beat \<le> ?lo" "unat ?lo + k \<le> unat beat + length (rr_data r)" "unat ?lo + k \<le> unat addr + length data"
    "unat ?lo + k < 2 ^ 64"
    using len b(1,2) unfolding k r(4) by auto
  from copy_lanes_result [OF this] obtain data' where
    c: "copy_lanes addr beat (rr_data r) ?lo k data = Some data'" "length data' = length data"
      "\<forall>j < length data. data' ! j = (if unat ?lo \<le> unat addr + j \<and> unat addr + j < unat ?lo + k
         then rr_data r ! (unat addr + j - unat beat) else data ! j)"
    by blast
  note c3 = c(3) [unfolded k, unfolded lo, rule_format]
  have "data' ! j = (if unat beat \<le> unat addr + j \<and> unat addr + j < unat beat + n then mem e (addr + of_nat j) else data ! j)"
    if j: "j < len" for j
  proof (cases "unat beat \<le> unat addr + j \<and> unat addr + j < unat beat + n")
    case True
    let ?i = "unat addr + j - unat beat"
    have "data' ! j = rr_data r ! ?i"
      using c3 [of j] j True len by simp
    also have "\<dots> = mem e (beat + of_nat ?i)"
      using True unfolding r(4) by (subst nth_map) auto
    also have "beat + of_nat ?i = addr + of_nat j"
      using True by simp
    finally show ?thesis
      using True by simp
  qed (use c3 [of j] j len in auto)
  moreover have "read_split_loop E tmpl bus addr (addr + of_nat len) beat data e =
      read_split_loop E tmpl bus addr (addr + of_nat len) (beat + bus) data' e'"
    using r c(1) b(4) transfer_end(1) [OF b(1-3)] by (subst read_split_loop.simps) (simp add: word_less_nat_alt k_def)
  ultimately show ?thesis
    using c(2) len r(3) by (intro exI [of _ data'] exI [of _ e']) blast
qed

lemma read_split_loop_result:
  assumes reads: "word_reads E mem n" and pow: "n = 2 ^ k" and b: "unat addr + len + n \<le> 2 ^ 64" "0 < n" "unat bus = n"
    and "length data = len" and "unat beat mod n = 0" and "unat addr < unat beat + n"
  shows "\<exists>data' e'. read_split_loop E tmpl bus addr (addr + of_nat len) beat data e = Some (RESP_OKAY, data', e') \<and>
    mem e' = mem e \<and> length data' = len \<and>
    (\<forall>j < len. data' ! j = (if unat beat \<le> unat addr + j then mem e (addr + of_nat j) else data ! j))"
  using assms(6-)
proof (induction "unat addr + len - unat beat" arbitrary: beat data e rule: less_induct)
  case less
  show ?case
  proof (cases "unat beat < unat addr + len")
    case False
    then show ?thesis
      using less.prems transfer_end(1) [OF b] by (subst read_split_loop.simps) (simp add: word_less_nat_alt)
  next
    case True
    note nb = transfer_end(2) [OF b True]
    from split_read_beat [OF reads pow b True less.prems(3,2,1)] obtain data1 e1 where
      1: "read_split_loop E tmpl bus addr (addr + of_nat len) beat data e =
        read_split_loop E tmpl bus addr (addr + of_nat len) (beat + bus) data1 e1" "mem e1 = mem e" "length data1 = len"
        "\<forall>j < len. data1 ! j = (if unat beat \<le> unat addr + j \<and> unat addr + j < unat beat + n then mem e (addr + of_nat j) else data ! j)"
      by blast
    have m: "unat addr + len - unat (beat + bus) < unat addr + len - unat beat" "unat (beat + bus) mod n = 0"
      "unat addr < unat (beat + bus) + n"
      using True less.prems b(2) unfolding nb by simp_all
    from less.hyps [OF m(1) 1(3) m(2,3), of e1] obtain data2 e2 where
      2: "read_split_loop E tmpl bus addr (addr + of_nat len) (beat + bus) data1 e1 = Some (RESP_OKAY, data2, e2)"
        "mem e2 = mem e1" "length data2 = len"
        "\<forall>j < len. data2 ! j = (if unat (beat + bus) \<le> unat addr + j then mem e1 (addr + of_nat j) else data1 ! j)"
      by blast
    have "data2 ! j = (if unat beat \<le> unat addr + j then mem e (addr + of_nat j) else data ! j)" if "j < len" for j
      using 1(2,4) 2(4) that unfolding nb by auto
    then show ?thesis
      using 1(1,2) 2(1-3) by auto
  qed
qed

text \<open>
  C11: A read that exceeds the burst limit is split into aligned bus words and put together
  again.  If the bus answers aligned reads of its full width and the transfer ends at least one bus word
  below the top of the address space, the split read always returns, with an OKAY
  response and exactly the bytes at the requested addresses.
\<close>
theorem split_read_reassembles:
  assumes "word_reads E mem (unat bus)" and "unat bus = 2 ^ k" and "k < 64" and "unat addr + len + unat bus \<le> 2 ^ 64"
  shows "\<exists>e'. read_split E tmpl bus addr len e = Some (RESP_OKAY, map (\<lambda>j. mem e (addr + of_nat j)) [0..<len], e') \<and> mem e' = mem e"
proof -
  let ?beat = "addr AND NOT (bus - 1)"
  have pos: "0 < unat bus"
    using assms(2) by simp
  have base: "unat ?beat = unat addr div unat bus * unat bus"
    using align_down [OF assms(2,3), of addr] assms(2) by simp
  then have "unat ?beat mod unat bus = 0" "unat addr < unat ?beat + unat bus" "unat ?beat \<le> unat addr"
    using pos dividend_less_div_times [OF pos, of "unat addr"] by simp_all
  with read_split_loop_result [OF assms(1,2,4) pos refl, of "replicate len 0" ?beat tmpl e] obtain data e' where
    r: "read_split E tmpl bus addr len e = Some (RESP_OKAY, data, e')" "mem e' = mem e" "length data = len"
      "\<forall>j < len. data ! j = mem e (addr + of_nat j)"
    by (auto simp: read_split_def)
  have "data = map (\<lambda>j. mem e (addr + of_nat j)) [0..<len]"
    using r(3,4) by (intro nth_equalityI) simp_all
  then show ?thesis
    using r(1,2) by simp
qed

text \<open>A bus of eight byte words over a flat memory; the second component is the address of the last read.\<close>

definition flat_bus :: "((u64 \<Rightarrow> u8) \<times> u64) mmr_env" where
  "flat_bus = \<lparr>
     mmr_push_ar = (\<lambda>ar (m, _). (Some 0, (m, a_addr ar))),
     mmr_push_write = (\<lambda>q (m, a). (Some 0, (\<lambda>x. let j = unat (x - wq_addr q) in if j < 8 \<and> wq_strb q ! j then wq_data q ! j else m x, a))),
     mmr_clear_r = (\<lambda>e. e), mmr_clear_w = (\<lambda>e. e),
     mmr_wait_r = (\<lambda>i (m, a). Some (\<lparr> rr_id = i, rr_data = map (\<lambda>j. m (a + of_nat j)) [0..<8], rr_resp = RESP_OKAY \<rparr>, (m, a))),
     mmr_wait_w = (\<lambda>i e. Some (\<lparr> wp_id = i, wp_resp = RESP_OKAY \<rparr>, e)),
     mmr_rng = (\<lambda>e. (0, e)) \<rparr>"

lemma flat_bus_ok: "word_reads flat_bus fst (unat (8 :: u64))" "word_writes flat_bus fst (unat (8 :: u64))"
  by (auto simp: word_reads_def word_writes_def flat_bus_def issue_read_def issue_write_def case_prod_beta)

theorem split_read_reassembles_witness:
  "\<exists>e'. read_split flat_bus (a_no_id_new False 0 0) 8 0x1006 4 (\<lambda>x. ucast x, 0) = Some (RESP_OKAY, [6, 7, 8, 9], e')"
  using split_read_reassembles [OF flat_bus_ok(1), of 3 "0x1006" 4 "a_no_id_new False 0 0" "(\<lambda>x. ucast x, 0)"]
  by (auto simp: upt_rec)

lemma fill_beat_result:
  assumes "wr_addr w \<le> b" and "beat \<le> b" and "unat b + k \<le> unat beat + length d" and "length s = length d"
    and "unat b + k \<le> unat (wr_addr w) + length (wr_data w)" and "length (wr_strb w) = length (wr_data w)" and "unat b + k < 2 ^ 64"
  shows "\<exists>d' s'. fill_beat w beat b k d s = Some (d', s') \<and> length d' = length d \<and> length s' = length d \<and>
    (\<forall>i < length d. let x = unat beat + i; covered = (unat b \<le> x \<and> x < unat b + k) in
       d' ! i = (if covered then wr_data w ! (x - unat (wr_addr w)) else d ! i) \<and>
       s' ! i = (if covered then wr_strb w ! (x - unat (wr_addr w)) else s ! i))"
  using assms
proof (induction k arbitrary: b d s)
  case 0
  then show ?case
    by (auto simp: Let_def)
next
  case (Suc k)
  let ?A = "unat (wr_addr w)" and ?i = "unat b - unat beat"
  have b1: "unat (b + 1) = unat b + 1"
    using Suc.prems(7) by (subst unat_add_less) simp_all
  have sub: "unat (b - wr_addr w) = unat b - ?A" "unat (b - beat) = ?i" "?A \<le> unat b" "unat beat \<le> unat b"
    using Suc.prems(1,2) by (simp_all add: unat_sub word_le_nat_alt)
  let ?d = "d[?i := wr_data w ! (unat b - ?A)]" and ?s = "s[?i := wr_strb w ! (unat b - ?A)]"
  have "wr_addr w \<le> b + 1" "beat \<le> b + 1"
    using sub b1 by (simp_all add: word_le_nat_alt)
  with Suc.IH [of "b + 1" ?d ?s] Suc.prems b1 obtain d' s' where
    r: "fill_beat w beat (b + 1) k ?d ?s = Some (d', s')" "length d' = length d" "length s' = length d"
      "\<And>i. i < length d \<Longrightarrow> let x = unat beat + i; covered = (unat b + 1 \<le> x \<and> x < unat b + 1 + k) in
         d' ! i = (if covered then wr_data w ! (x - ?A) else ?d ! i) \<and> s' ! i = (if covered then wr_strb w ! (x - ?A) else ?s ! i)"
    by auto
  have lt: "?i < length d" "unat b - ?A < length (wr_data w)"
    using Suc.prems(3,5) sub(3,4) by linarith+
  then have "fill_beat w beat b (Suc k) d s = Some (d', s')"
    using r(1) sub(1,2) Suc.prems(4,6) by simp
  moreover have "let x = unat beat + i; covered = (unat b \<le> x \<and> x < unat b + Suc k) in
      d' ! i = (if covered then wr_data w ! (x - ?A) else d ! i) \<and> s' ! i = (if covered then wr_strb w ! (x - ?A) else s ! i)"
    if "i < length d" for i
  proof (cases "i = ?i")
    case True
    then show ?thesis
      using r(4) [OF that] sub(4) lt Suc.prems(4) by (simp add: Let_def)
  next
    case False
    then have "unat beat + i \<noteq> unat b"
      using sub(4) by linarith
    then show ?thesis
      using r(4) [OF that] False by (auto simp: Let_def)
  qed
  ultimately show ?case
    using r(2,3) by blast
qed

definition merged :: "write_t \<Rightarrow> (u64 \<Rightarrow> u8) \<Rightarrow> nat \<Rightarrow> nat \<Rightarrow> u64 \<Rightarrow> u8" where
  "merged w m from_addr to_addr x =
     (let j = unat x - unat (wr_addr w) in
      if from_addr \<le> unat x \<and> unat x < to_addr \<and> unat (wr_addr w) \<le> unat x \<and> unat x < unat (wr_addr w) + wr_length w \<and> wr_strb w ! j
      then wr_data w ! j else m x)"

lemma split_write_beat:
  assumes writes: "word_writes E mem n" and b: "unat (wr_addr w) + wr_length w + n \<le> 2 ^ 64" "0 < n" "unat bus = n"
      "unat beat < unat (wr_addr w) + wr_length w" "unat (wr_addr w) < unat beat + n" and beat: "unat beat mod n = 0"
    and len: "length (wr_data w) = wr_length w" "length (wr_strb w) = wr_length w"
  shows "\<exists>e'. write_split_loop E t bus w (wr_addr w + of_nat (wr_length w)) beat e =
      write_split_loop E t bus w (wr_addr w + of_nat (wr_length w)) (beat + bus) e' \<and>
    mem e' = merged w (mem e) (unat beat) (unat beat + n)"
proof -
  let ?A = "unat (wr_addr w)" and ?lo = "max (wr_addr w) beat"
  define k where "k = unat (min (wr_addr w + of_nat (wr_length w)) (beat + bus)) - unat ?lo"
  note lo = beat_span(1) [OF b] and k = beat_span(2) [OF b, folded k_def]
  have "wr_addr w \<le> ?lo" "beat \<le> ?lo" "unat ?lo + k \<le> unat beat + length (replicate n (0 :: u8))"
    "length (replicate n False) = length (replicate n (0 :: u8))" "unat ?lo + k \<le> ?A + length (wr_data w)"
    "length (wr_strb w) = length (wr_data w)" "unat ?lo + k < 2 ^ 64"
    using len b(1,2) unfolding k by auto
  from fill_beat_result [OF this] obtain d st where
    f: "fill_beat w beat ?lo k (replicate n 0) (replicate n False) = Some (d, st)" "length d = n" "length st = n"
      "\<And>i. i < n \<Longrightarrow> let x = unat beat + i; covered = (unat ?lo \<le> x \<and> x < unat ?lo + k) in
         d ! i = (if covered then wr_data w ! (x - ?A) else 0) \<and> st ! i = (if covered then wr_strb w ! (x - ?A) else False)"
    by (auto simp: Let_def)
  note f4 = f(4) [unfolded k, unfolded lo]
  let ?q = "(write_request beat n d st False)\<lparr> wq_allow_decerr_resp := True, wq_attr := t\<lparr> at_is_manual_id := False \<rparr> \<rparr>"
  have q: "wq_length ?q = n" "wq_data ?q = d" "wq_strb ?q = st" "wq_addr ?q = beat"
    by (simp_all add: write_request_def)
  obtain r e' where r: "issue_write E ?q e = Some (Some r, e')" "wp_resp r = RESP_OKAY"
      "\<And>x. mem e' x = (let j = unat (x - beat) in if j < n \<and> st ! j then d ! j else mem e x)"
    using writes [unfolded word_writes_def, rule_format, of ?q e] beat f(2,3) unfolding q by auto
  have "mem e' x = merged w (mem e) (unat beat) (unat beat + n) x" for x
  proof (cases "beat \<le> x")
    case True
    let ?i = "unat x - unat beat"
    have x: "unat (x - beat) = ?i" "unat beat + ?i = unat x"
      using True by (simp_all add: unat_sub word_le_nat_alt)
    show ?thesis
      using r(3) [of x] f4 [of ?i] x unfolding merged_def Let_def by (auto split: if_splits)
  next
    case False
    have top: "unat beat + n \<le> 2 ^ 64"
      using b(1,4) by linarith
    have "unat (x - beat) = unat x + 2 ^ 64 - unat beat"
      using False by (simp add: unat_sub_if_size word_size word_le_nat_alt)
    then have "\<not> unat (x - beat) < n"
      using top by linarith
    then show ?thesis
      using r(3) [of x] False by (simp add: merged_def Let_def word_le_nat_alt)
  qed
  moreover have "write_split_loop E t bus w (wr_addr w + of_nat (wr_length w)) beat e =
      write_split_loop E t bus w (wr_addr w + of_nat (wr_length w)) (beat + bus) e'"
    using r(1,2) f(1) b(3,4) transfer_end(1) [OF b(1-3)] by (subst write_split_loop.simps) (simp add: word_less_nat_alt k_def)
  ultimately show ?thesis
    by blast
qed

lemma write_split_loop_result:
  assumes writes: "word_writes E mem n" and b: "unat (wr_addr w) + wr_length w + n \<le> 2 ^ 64" "0 < n" "unat bus = n"
    and len: "length (wr_data w) = wr_length w" "length (wr_strb w) = wr_length w"
    and "unat beat mod n = 0" and "unat (wr_addr w) < unat beat + n"
  shows "\<exists>e'. write_split_loop E t bus w (wr_addr w + of_nat (wr_length w)) beat e = Some (RESP_OKAY, e') \<and>
    mem e' = merged w (mem e) (unat beat) (2 ^ 64)"
  using assms(7-)
proof (induction "unat (wr_addr w) + wr_length w - unat beat" arbitrary: beat e rule: less_induct)
  case less
  have all: "unat x < 2 ^ 64" for x :: u64
    using unsigned_less [of x] by simp
  show ?case
  proof (cases "unat beat < unat (wr_addr w) + wr_length w")
    case False
    then have "merged w (mem e) (unat beat) (2 ^ 64) = mem e"
      by (auto simp: merged_def Let_def fun_eq_iff)
    then show ?thesis
      using False transfer_end(1) [OF b] by (subst write_split_loop.simps) (simp add: word_less_nat_alt)
  next
    case True
    note nb = transfer_end(2) [OF b True]
    obtain e1 where 1: "write_split_loop E t bus w (wr_addr w + of_nat (wr_length w)) beat e =
        write_split_loop E t bus w (wr_addr w + of_nat (wr_length w)) (beat + bus) e1"
        "mem e1 = merged w (mem e) (unat beat) (unat beat + n)"
      using split_write_beat [OF writes b True less.prems(2,1) len] by blast
    have m: "unat (wr_addr w) + wr_length w - unat (beat + bus) < unat (wr_addr w) + wr_length w - unat beat"
      "unat (beat + bus) mod n = 0" "unat (wr_addr w) < unat (beat + bus) + n"
      using True less.prems b(2) unfolding nb by simp_all
    from less.hyps [OF m, of e1] obtain e2 where 2: "write_split_loop E t bus w (wr_addr w + of_nat (wr_length w)) (beat + bus) e1 = Some (RESP_OKAY, e2)"
        "mem e2 = merged w (mem e1) (unat beat + n) (2 ^ 64)"
      unfolding nb by blast
    have "merged w (merged w (mem e) (unat beat) (unat beat + n)) (unat beat + n) (2 ^ 64) = merged w (mem e) (unat beat) (2 ^ 64)"
      using all by (auto simp: merged_def Let_def fun_eq_iff)
    then show ?thesis
      using 1 2 by simp
  qed
qed

text \<open>
  C12: A write that exceeds the burst limit is split into aligned bus words and has the effect of
  one write.  If the bus performs aligned strobed word writes and the transfer ends at least
  one bus word below the top of the address space, the split write always returns with an
  OKAY response; the bytes of the transfer whose strobe is set hold the written
  values and every other byte is unchanged.
\<close>
theorem split_write_merges:
  assumes "word_writes E mem (unat bus)" and "unat bus = 2 ^ k" and "k < 64"
    and "unat (wr_addr w) + wr_length w + unat bus \<le> 2 ^ 64"
    and "length (wr_data w) = wr_length w" and "length (wr_strb w) = wr_length w"
  shows "\<exists>e'. write_split E t bus w e = Some (RESP_OKAY, e') \<and>
    (\<forall>x. mem e' x = (let j = unat (x - wr_addr w) in if j < wr_length w \<and> wr_strb w ! j then wr_data w ! j else mem e x))"
proof -
  let ?beat = "wr_addr w AND NOT (bus - 1)" and ?A = "unat (wr_addr w)"
  have pos: "0 < unat bus"
    using assms(2) by simp
  have base: "unat ?beat = ?A div unat bus * unat bus"
    using align_down [OF assms(2,3), of "wr_addr w"] assms(2) by simp
  then have al: "unat ?beat mod unat bus = 0" "?A < unat ?beat + unat bus" "unat ?beat \<le> ?A"
    using pos dividend_less_div_times [OF pos, of ?A] by simp_all
  from write_split_loop_result [OF assms(1,4) pos refl assms(5,6) al(1,2), of t e] obtain e' where
    r: "write_split E t bus w e = Some (RESP_OKAY, e')" "mem e' = merged w (mem e) (unat ?beat) (2 ^ 64)"
    by (auto simp: write_split_def)
  have "mem e' x = (let j = unat (x - wr_addr w) in if j < wr_length w \<and> wr_strb w ! j then wr_data w ! j else mem e x)" for x
  proof (cases "wr_addr w \<le> x")
    case True
    then have "unat (x - wr_addr w) = unat x - ?A" "?A \<le> unat x"
      by (simp_all add: unat_sub word_le_nat_alt)
    moreover have "unat x < 2 ^ 64"
      using unsigned_less [of x] by simp
    ultimately show ?thesis
      using al(3) unfolding r(2) by (auto simp: merged_def Let_def)
  next
    case False
    then have "unat (x - wr_addr w) = unat x + 2 ^ 64 - ?A"
      by (simp add: unat_sub_if_size word_size word_le_nat_alt)
    then have "\<not> unat (x - wr_addr w) < wr_length w"
      using assms(4) by linarith
    then show ?thesis
      using False unfolding r(2) by (simp add: merged_def Let_def word_le_nat_alt)
  qed
  then show ?thesis
    using r(1) by blast
qed

theorem split_write_merges_witness:
  "\<exists>e'. write_split flat_bus attr_default 8 \<lparr> wr_addr = 0x1006, wr_length = 4, wr_data = [1, 2, 3, 4],
       wr_strb = [True, False, True, True], wr_id = 0 \<rparr> (\<lambda>x. 9, 0) = Some (RESP_OKAY, e') \<and>
     fst e' 0x100a = 9 \<and> fst e' 0x1006 = 1 \<and> fst e' 0x1007 = 9 \<and> fst e' 0x1009 = 4"
proof -
  let ?w = "\<lparr> wr_addr = 0x1006, wr_length = 4, wr_data = [1, 2, 3, 4], wr_strb = [True, False, True, True], wr_id = 0 \<rparr>"
  obtain e' where "write_split flat_bus attr_default 8 ?w (\<lambda>x. 9, 0) = Some (RESP_OKAY, e')"
      "\<And>x. fst e' x = (let j = unat (x - 0x1006) in if j < 4 \<and> [True, False, True, True] ! j then [1, 2, 3, 4] ! j else 9)"
    using split_write_merges [OF flat_bus_ok(2), of 3 ?w attr_default "(\<lambda>x. 9, 0)"] by (auto simp: Let_def)
  then show ?thesis
    by (simp add: Let_def)
qed

end
