(* ===== verification/Clint.thy ===== *)
theory Clint
  imports Device Strings
begin

text \<open>
  The core local interruptor of \<^verbatim>\<open>sysmod/clint\<close>: software interrupt words, time compare
  registers and the timer, with the timer interrupt lines of the harts raised and
  lowered by the events the device emits.
\<close>

section \<open>Model\<close>

datatype clint_event = Timer_int nat bool u64 | Soft_int nat bool | Tick_error u64

record clint =
  c_base :: u64
  hartCount :: u32
  soft :: "u32 list"
  timeCompare :: "u64 list"
  timerIntPrev :: "bool list"
  timer :: u64
  tickDivisor :: u64

definition clint_new :: "u64 \<Rightarrow> u32 \<Rightarrow> u64 \<Rightarrow> clint" where
  "clint_new addr harts divisor = \<lparr> c_base = addr, hartCount = harts, soft = replicate (unat harts) 0,
     timeCompare = replicate (unat harts) (- 1), timerIntPrev = replicate (unat harts) False,
     timer = 0, tickDivisor = divisor \<rparr>"

definition clint_id :: "string \<Rightarrow> u64 \<Rightarrow> device_id" where
  "clint_id tag addr = \<lparr> dv_tag = tag, dv_addr = addr, dv_size = 0xc000 \<rparr>"

fun timer_loop :: "nat \<Rightarrow> nat \<Rightarrow> clint \<Rightarrow> (clint \<times> clint_event list) option" where
  "timer_loop i 0 s = Some (s, [])"
| "timer_loop i (Suc k) s = do {
     cmp \<leftarrow> vec_get (timeCompare s) i;
     prev \<leftarrow> vec_get (timerIntPrev s) i;
     let flag = (cmp \<le> timer s);
     prevs \<leftarrow> vec_set (timerIntPrev s) i flag;
     (s', evs) \<leftarrow> timer_loop (Suc i) k (s\<lparr> timerIntPrev := prevs \<rparr>);
     Some (s', (if prev \<noteq> flag then [Timer_int i flag (timer s)] else []) @ evs)
   }"

definition processTimerInterrupts :: "clint \<Rightarrow> (clint \<times> clint_event list) option" where
  "processTimerInterrupts s = timer_loop 0 (unat (hartCount s)) s"

definition clint_read :: "read_t \<Rightarrow> data_t \<Rightarrow> clint \<Rightarrow> (data_t \<times> clint) option" where
  "clint_read r data s =
     (let offset = rd_addr r - c_base s; len = rd_length r in
      if offset < 0x4000 then
        if offset mod 4 \<noteq> 0 then Some (data, s)
        else let hartIx = ucast (offset div 4) :: u32 in do {
          word \<leftarrow> (if hartIx < hartCount s then vec_get (soft s) (unat hartIx) else Some 0);
          data' \<leftarrow> serializeInt word len data;
          Some (data', s)
        }
      else if offset = 0xbff8 then do {
        data' \<leftarrow> serializeInt (timer s) len data;
        Some (data', s)
      }
      else if offset mod 8 \<noteq> 0 then Some (data, s)
      else let hartIx = ucast ((offset - 0x4000) div 8) :: u32 in do {
        dword \<leftarrow> (if hartIx < hartCount s then vec_get (timeCompare s) (unat hartIx) else Some 0);
        data' \<leftarrow> serializeInt dword len data;
        Some (data', s)
      })"

definition clint_write :: "write_t \<Rightarrow> clint \<Rightarrow> (clint \<times> clint_event list) option" where
  "clint_write w s =
     (let offset = wr_addr w - c_base s in
      if offset < 0x4000 then
        let hartIx = ucast (offset div 4) :: u32 in
        if offset mod 4 \<noteq> 0 \<or> wr_length w < 4 \<or> hartCount s \<le> hartIx then Some (s, [])
        else do {
          word \<leftarrow> (deserializeInt (wr_data w) :: u32 option);
          soft' \<leftarrow> vec_set (soft s) (unat hartIx) (word AND 1);
          Some (s\<lparr> soft := soft' \<rparr>, [Soft_int (unat hartIx) (word AND 1 \<noteq> 0)])
        }
      else if wr_length w = 8 then
        let offset = offset - 0x4000 in
        if offset = 0x7ff8 then do {
          dword \<leftarrow> deserializeInt (wr_data w);
          processTimerInterrupts (s\<lparr> timer := dword \<rparr>)
        }
        else let hartIx = ucast (offset div 8) :: u32 in
          if hartCount s \<le> hartIx then Some (s, [])
          else do {
            dword \<leftarrow> deserializeInt (wr_data w);
            cmps \<leftarrow> vec_set (timeCompare s) (unat hartIx) dword;
            processTimerInterrupts (s\<lparr> timeCompare := cmps \<rparr>)
          }
      else Some (s, []))"

definition clint_tick :: "u64 \<Rightarrow> clint \<Rightarrow> (clint \<times> clint_event list) option" where
  "clint_tick advance s =
     (if tickDivisor s = 0 then None
      else do {
        (s', evs) \<leftarrow> processTimerInterrupts (s\<lparr> timer := timer s + advance div tickDivisor s \<rparr>);
        Some (s', (if advance mod tickDivisor s \<noteq> 0 then [Tick_error advance] else []) @ evs)
      })"

section \<open>Snapshots\<close>

text \<open>A snapshot is a list of lines, each a list of blank separated words.\<close>

definition clint_save :: "clint \<Rightarrow> string list list" where
  "clint_save s = [''timer'', dec (unat (timer s))] #
     map (\<lambda>i. [''cmp'', dec i, dec (unat (timeCompare s ! i))]) [0..<length (timeCompare s)]"

definition clint_load_line :: "string list \<Rightarrow> clint \<Rightarrow> clint option" where
  "clint_load_line ws s =
     (if ws \<noteq> [] \<and> hd ws = ''timer'' then Some (s\<lparr> timer := strtoull [] \<rparr>)
      else if ws \<noteq> [] \<and> hd ws = ''cmp'' then do {
        let num = word_at ws 1 [];
        cmps \<leftarrow> vec_set (timeCompare s) (unat (strtoull num)) (strtoull (word_at ws 2 num));
        Some (s\<lparr> timeCompare := cmps \<rparr>)
      }
      else Some s)"

fun clint_load :: "string list list \<Rightarrow> clint \<Rightarrow> clint option" where
  "clint_load [] s = Some s"
| "clint_load (ws # lines) s = do {
     s' \<leftarrow> clint_load_line ws s;
     clint_load lines s'
   }"

section \<open>The device contract\<close>

definition clint_inv :: "clint \<Rightarrow> bool" where
  "clint_inv s \<longleftrightarrow> length (soft s) = unat (hartCount s) \<and> length (timeCompare s) = unat (hartCount s) \<and>
     length (timerIntPrev s) = unat (hartCount s) \<and> tickDivisor s \<noteq> 0"

definition levels :: "clint \<Rightarrow> bool list" where
  "levels s = map (\<lambda>c. c \<le> timer s) (timeCompare s)"

fun changes :: "u64 \<Rightarrow> nat \<Rightarrow> bool list \<Rightarrow> bool list \<Rightarrow> clint_event list" where
  "changes t i (p # ps) (f # fs) = (if p \<noteq> f then [Timer_int i f t] else []) @ changes t (Suc i) ps fs"
| "changes t i _ _ = []"

fun drive :: "clint_event list \<Rightarrow> bool list \<Rightarrow> bool list" where
  "drive [] lines = lines"
| "drive (Timer_int i f t # evs) lines = drive evs (lines[i := f])"
| "drive (_ # evs) lines = drive evs lines"

fun edges :: "clint_event list \<Rightarrow> bool list \<Rightarrow> bool" where
  "edges [] lines \<longleftrightarrow> True"
| "edges (Timer_int i f t # evs) lines \<longleftrightarrow> i < length lines \<and> lines ! i \<noteq> f \<and> edges evs (lines[i := f])"
| "edges (_ # evs) lines \<longleftrightarrow> edges evs lines"

datatype clint_op = C_write write_t | C_tick u64

fun clint_step :: "clint_op \<Rightarrow> clint \<Rightarrow> (clint \<times> clint_event list) option" where
  "clint_step (C_write w) s = clint_write w s"
| "clint_step (C_tick n) s = clint_tick n s"

fun clint_run :: "clint_op list \<Rightarrow> clint \<Rightarrow> (clint \<times> clint_event list) option" where
  "clint_run [] s = Some (s, [])"
| "clint_run (x # ops) s = do {
     (s', evs) \<leftarrow> clint_step x s;
     (s'', evs') \<leftarrow> clint_run ops s';
     Some (s'', evs @ evs')
   }"

section \<open>Interrupt lines\<close>

lemma drive_append: "drive (xs @ ys) l = drive ys (drive xs l)"
  by (induction xs l rule: drive.induct) simp_all

lemma edges_append: "edges (xs @ ys) l \<longleftrightarrow> edges xs l \<and> edges ys (drive xs l)"
  by (induction xs l rule: edges.induct) simp_all

lemma changes_lines:
  assumes "length old = length new"
  shows "drive (changes t (length pre) old new) (pre @ old) = pre @ new \<and>
    edges (changes t (length pre) old new) (pre @ old)"
  using assms
proof (induction old new arbitrary: pre rule: list_induct2)
  case (Cons p ps f fs)
  from Cons.IH [of "pre @ [f]"] show ?case
    by (auto simp: list_update_append)
qed simp

lemma timer_loop_eq:
  assumes "length (timeCompare s) = i + k" and "length (timerIntPrev s) = i + k"
  shows "timer_loop i k s =
    Some (s\<lparr> timerIntPrev := take i (timerIntPrev s) @ drop i (levels s) \<rparr>,
      changes (timer s) i (drop i (timerIntPrev s)) (drop i (levels s)))"
  using assms
proof (induction k arbitrary: i s)
  case 0
  then show ?case
    by (simp add: levels_def)
next
  case (Suc k)
  let ?f = "timeCompare s ! i \<le> timer s"
  let ?s = "s\<lparr> timerIntPrev := (timerIntPrev s)[i := ?f] \<rparr>"
  have "i < length (timerIntPrev s)" "i < length (levels s)"
    using Suc.prems by (simp_all add: levels_def)
  then have d: "drop i (timerIntPrev s) = timerIntPrev s ! i # drop (Suc i) (timerIntPrev s)"
    "drop i (levels s) = ?f # drop (Suc i) (levels s)"
    using Suc.prems by (simp_all add: Cons_nth_drop_Suc [symmetric] levels_def)
  have l: "levels ?s = levels s"
    by (simp add: levels_def)
  have t: "take (Suc i) ((timerIntPrev s)[i := ?f]) = take i (timerIntPrev s) @ [?f]"
    using Suc.prems by (simp add: take_Suc_conv_app_nth)
  show ?case
    using Suc.prems Suc.IH [of ?s "Suc i"] by (simp add: d l t Let_def)
qed

lemma processTimerInterrupts_eq:
  assumes "clint_inv s"
  shows "processTimerInterrupts s =
    Some (s\<lparr> timerIntPrev := levels s \<rparr>, changes (timer s) 0 (timerIntPrev s) (levels s))"
  using assms timer_loop_eq [of s 0 "unat (hartCount s)"]
  by (simp add: processTimerInterrupts_def clint_inv_def)

text \<open>A step that leaves the remembered lines equal to the comparisons and reports only changes.\<close>

definition tracks :: "clint \<Rightarrow> clint \<Rightarrow> clint_event list \<Rightarrow> bool" where
  "tracks s s' evs \<longleftrightarrow> clint_inv s' \<and> timerIntPrev s' = levels s' \<and>
     drive evs (timerIntPrev s) = timerIntPrev s' \<and> edges evs (timerIntPrev s)"

lemma process_tracks:
  assumes "clint_inv s"
  shows "\<exists>s' evs. processTimerInterrupts s = Some (s', evs) \<and> tracks s s' evs"
proof -
  have "length (timerIntPrev s) = length (levels s)"
    using assms by (simp add: clint_inv_def levels_def)
  from changes_lines [OF this, of "timer s" "[]"] show ?thesis
    using assms by (auto simp: processTimerInterrupts_eq tracks_def clint_inv_def levels_def)
qed

lemma tracks_refl: "clint_inv s \<Longrightarrow> timerIntPrev s = levels s \<Longrightarrow> tracks s s []"
  by (simp add: tracks_def)

lemma clint_write_tracks:
  assumes inv: "clint_inv s" and lv: "timerIntPrev s = levels s" and w: "bus_write w"
  shows "\<exists>s' evs. clint_write w s = Some (s', evs) \<and> tracks s s' evs"
proof -
  let ?off = "wr_addr w - c_base s"
  let ?soft = "ucast (?off div 4) :: u32" and ?cmp = "ucast ((?off - 0x4000) div 8) :: u32"
  obtain d4 :: u32 where d4: "deserializeInt (wr_data w) = Some d4"
    using w deserializeInt_Some [where 'a = 32, of "wr_data w"] by (auto simp: bus_write_def)
  obtain d8 :: u64 where d8: "deserializeInt (wr_data w) = Some d8"
    using w deserializeInt_Some [where 'a = 64, of "wr_data w"] by (auto simp: bus_write_def)
  have in_soft: "unat ?soft < length (soft s)" if "\<not> hartCount s \<le> ?soft"
    using that inv by (simp add: clint_inv_def word_le_nat_alt)
  have in_cmp: "unat ?cmp < length (timeCompare s)" if "\<not> hartCount s \<le> ?cmp"
    using that inv by (simp add: clint_inv_def word_le_nat_alt)
  have soft_ok: "tracks s (s\<lparr> soft := (soft s)[unat ?soft := x] \<rparr>) [Soft_int (unat ?soft) b]" for x b
    using inv lv by (simp add: tracks_def clint_inv_def levels_def)
  have tm: "\<exists>s' evs. processTimerInterrupts (s\<lparr> timer := d8 \<rparr>) = Some (s', evs) \<and> tracks s s' evs"
    using process_tracks [of "s\<lparr> timer := d8 \<rparr>"] inv by (simp add: clint_inv_def tracks_def)
  have cm: "\<exists>s' evs. processTimerInterrupts (s\<lparr> timeCompare := (timeCompare s)[unat ?cmp := d8] \<rparr>) =
      Some (s', evs) \<and> tracks s s' evs"
    using process_tracks [of "s\<lparr> timeCompare := (timeCompare s)[unat ?cmp := d8] \<rparr>"] inv
    by (simp add: clint_inv_def tracks_def)
  consider (soft) "?off < 0x4000" | (timer) "\<not> ?off < 0x4000" "?off - 0x4000 = 0x7ff8"
    | (cmp) "\<not> ?off < 0x4000" "?off - 0x4000 \<noteq> 0x7ff8" by blast
  then show ?thesis
  proof cases
    case soft
    then show ?thesis
      using tracks_refl [OF inv lv] in_soft soft_ok by (auto simp: clint_write_def Let_def d4)
  next
    case timer
    then show ?thesis
      using tracks_refl [OF inv lv] tm by (auto simp: clint_write_def Let_def d8)
  next
    case cmp
    then show ?thesis
      using tracks_refl [OF inv lv] in_cmp cm by (auto simp: clint_write_def Let_def d8)
  qed
qed

lemma clint_tick_tracks:
  assumes inv: "clint_inv s"
  shows "\<exists>s' evs. clint_tick n s = Some (s', evs) \<and> tracks s s' evs"
proof -
  let ?s = "s\<lparr> timer := timer s + n div tickDivisor s \<rparr>"
  from process_tracks [of ?s] inv obtain s' evs where
    "processTimerInterrupts ?s = Some (s', evs)" "tracks s s' evs"
    by (auto simp: clint_inv_def tracks_def)
  then show ?thesis
    using inv by (auto simp: clint_tick_def clint_inv_def tracks_def)
qed

lemma clint_run_tracks:
  assumes "clint_inv s" and "timerIntPrev s = levels s" and "\<forall>w. C_write w \<in> set ops \<longrightarrow> bus_write w"
  shows "\<exists>s' evs. clint_run ops s = Some (s', evs) \<and> tracks s s' evs"
  using assms
proof (induction ops arbitrary: s)
  case Nil
  then show ?case
    by (simp add: tracks_refl)
next
  case (Cons x ops)
  obtain s1 e1 where s1: "clint_step x s = Some (s1, e1)" "tracks s s1 e1"
    using Cons.prems clint_write_tracks [of s] clint_tick_tracks [of s] by (cases x) fastforce+
  moreover from s1(2) Cons.prems(3) obtain s2 e2 where "clint_run ops s1 = Some (s2, e2)" "tracks s1 s2 e2"
    using Cons.IH [of s1] by (auto simp: tracks_def)
  ultimately show ?case
    by (auto simp: tracks_def drive_append edges_append)
qed

lemma clint_new_tracks:
  assumes "d \<noteq> 0"
  shows "clint_inv (clint_new a h d)" "timerIntPrev (clint_new a h d) = levels (clint_new a h d)"
  using assms by (simp_all add: clint_inv_def clint_new_def levels_def)

lemma clint_read_ok:
  assumes "clint_inv s" and "length data = rd_length r"
  shows "\<exists>data'. clint_read r data s = Some (data', s) \<and> length data' = length data"
  using assms by (auto simp: clint_read_def Let_def byte_simps clint_inv_def word_less_nat_alt)

lemma clint_write_inv:
  assumes "clint_inv s" and "bus_write w"
  shows "\<exists>s' evs. clint_write w s = Some (s', evs) \<and> clint_inv s'"
proof -
  have keep: "\<exists>s' evs. processTimerInterrupts t = Some (s', evs) \<and> clint_inv s'" if "clint_inv t" for t
    using process_tracks [OF that] by (auto simp: tracks_def)
  obtain d4 :: u32 where d4: "deserializeInt (wr_data w) = Some d4"
    using assms deserializeInt_Some [where 'a = 32, of "wr_data w"] by (auto simp: bus_write_def)
  obtain d8 :: u64 where d8: "deserializeInt (wr_data w) = Some d8"
    using assms deserializeInt_Some [where 'a = 64, of "wr_data w"] by (auto simp: bus_write_def)
  show ?thesis
    using assms(1) keep
    by (auto simp: clint_write_def Let_def d4 d8 clint_inv_def word_le_nat_alt)
qed

interpretation clint_dev: mmio_device clint_inv bus_write clint_read clint_write
proof
  show "\<exists>data' s'. clint_read r data s = Some (data', s') \<and> length data' = length data \<and> clint_inv s'"
    if "clint_inv s" "length data = rd_length r" for s data r
    using clint_read_ok [OF that] that by blast
qed (rule clint_write_inv)

text \<open>
  C3: The timer interrupt lines of the harts follow the timer.  From a fresh device, after
  any sequence of bus writes and clock advances, the lines obtained from the emitted
  interrupt events (starting low) are exactly the comparisons of the timer with the time
  compare registers, and every emitted timer event is a change of its line.  A line is high
  when the timer has reached the compare register, as the privileged architecture has
  it; the comment above the loop (\<^verbatim>\<open>clint.h\<close>, line 74) states the opposite comparison.
\<close>
theorem timer_lines_follow:
  assumes "divisor \<noteq> 0" and "\<forall>w. C_write w \<in> set ops \<longrightarrow> bus_write w"
  shows "\<exists>s evs. clint_run ops (clint_new addr harts divisor) = Some (s, evs) \<and>
    drive evs (replicate (unat harts) False) = map (\<lambda>cmp. cmp \<le> timer s) (timeCompare s) \<and>
    edges evs (replicate (unat harts) False)"
proof -
  have "timerIntPrev (clint_new addr harts divisor) = replicate (unat harts) False"
    by (simp add: clint_new_def)
  with clint_run_tracks [OF clint_new_tracks [OF assms(1)] assms(2), of addr harts] show ?thesis
    by (auto simp: tracks_def levels_def)
qed

definition sample_ops :: "clint_op list" where
  "sample_ops = [C_write \<lparr> wr_addr = 0x2004008, wr_length = 8, wr_data = [5, 0, 0, 0, 0, 0, 0, 0],
     wr_strb = replicate 8 True, wr_id = 1 \<rparr>, C_tick 60, C_tick 10]"

theorem timer_lines_follow_witness:
  "\<exists>s evs. clint_run sample_ops (clint_new 0x2000000 2 10) = Some (s, evs) \<and>
    drive evs (replicate 2 False) = map (\<lambda>cmp. cmp \<le> timer s) (timeCompare s) \<and>
    edges evs (replicate 2 False)"
proof -
  have "\<forall>w. C_write w \<in> set sample_ops \<longrightarrow> bus_write w"
    by (simp add: sample_ops_def bus_write_def)
  from timer_lines_follow [OF _ this, of 10 "0x2000000" 2] show ?thesis
    by simp
qed

lemma mtimecmp_offset:
  assumes "h < 0xfff"
  defines "off \<equiv> 0x4000 + 8 * of_nat h :: u64"
  shows "\<not> off < 0x4000" "off \<noteq> 0xbff8" "off mod 8 = 0" "unat (ucast ((off - 0x4000) div 8) :: u32) = h"
proof -
  let ?h = "of_nat h :: u64"
  have h: "unat ?h = h"
    using assms(1) by (simp add: unat_of_nat_less)
  have e: "unat (8 * ?h) = 8 * h"
    using assms(1) h by (simp add: unat_mult_less)
  have o: "unat off = 0x4000 + 8 * h"
    using assms(1) e by (simp add: unat_add_less off_def)
  show "\<not> off < 0x4000" "off \<noteq> 0xbff8"
    using assms(1) by (auto simp: word_less_nat_alt word_unat_eq_iff o)
  show "off mod 8 = 0"
    by (simp add: word_unat_eq_iff unat_mod_distrib o)
  have "(8 * ?h) div 8 = ?h"
    by (simp add: word_unat_eq_iff unat_div_distrib e h)
  then show "unat (ucast ((off - 0x4000) div 8) :: u32) = h"
    using assms(1) h by (simp add: unsigned_ucast_eq take_bit_eq_mod off_def)
qed

lemma clint_read_mtimecmp:
  assumes "clint_inv s" and "h < unat (hartCount s)" and "h < 0xfff" and "rd_length r = 8"
    and "rd_addr r = c_base s + 0x4000 + 8 * of_nat h" and "length data = 8"
  shows "clint_read r data s = Some (map (byte_of (timeCompare s ! h)) [0..<8], s)"
proof -
  have "rd_addr r - c_base s = 0x4000 + 8 * of_nat h"
    using assms(5) by simp
  with mtimecmp_offset [OF assms(3)] show ?thesis
    using assms by (simp add: clint_read_def Let_def byte_simps word_less_nat_alt clint_inv_def)
qed

lemma clint_write_mtimecmp:
  assumes "clint_inv s" and "h < unat (hartCount s)" and "h < 0xfff"
    and "wr_addr w = c_base s + 0x4000 + 8 * of_nat h" and "wr_length w = 8"
    and "deserializeInt (wr_data w) = Some d"
  shows "clint_write w s = processTimerInterrupts (s\<lparr> timeCompare := (timeCompare s)[h := d] \<rparr>)"
proof -
  have off: "wr_addr w - c_base s = 0x4000 + 8 * of_nat h"
    using assms(4) by simp
  have "0x4000 + 8 * of_nat h - 0x4000 \<noteq> (0x7ff8 :: u64)"
  proof
    assume "0x4000 + 8 * of_nat h - 0x4000 = (0x7ff8 :: u64)"
    then have "0x4000 + 8 * of_nat h = (0xbff8 :: u64)"
      by (simp only: diff_eq_eq) simp
    with mtimecmp_offset(2) [OF assms(3)] show False
      by contradiction
  qed
  with mtimecmp_offset [OF assms(3)] show ?thesis
    using assms by (simp only: clint_write_def Let_def off) (simp add: word_le_nat_alt clint_inv_def)
qed

text \<open>
  C31: The time compare registers behave as a register file: an eight byte bus write to the
  register of hart \<^verbatim>\<open>h\<close> is accepted, and a later read of the register of any hart
  \<^verbatim>\<open>k\<close> returns the written bytes if \<^verbatim>\<open>k = h\<close> and the old contents otherwise.
\<close>
theorem mtimecmp_register_file:
  assumes inv: "clint_inv s" and h: "h < unat (hartCount s)" "h < 0xfff" and k: "k < unat (hartCount s)" "k < 0xfff"
    and w: "wr_addr w = c_base s + 0x4000 + 8 * of_nat h" "wr_length w = 8" "length (wr_data w) = 8"
    and r: "rd_addr r = c_base s + 0x4000 + 8 * of_nat k" "rd_length r = 8"
  shows "\<exists>s' evs. clint_write w s = Some (s', evs) \<and>
    serve_read clint_read r s' = Some (\<lparr> rr_id = rd_id r,
      rr_data = (if k = h then wr_data w else map (byte_of (timeCompare s ! k)) [0..<8]), rr_resp = 0 \<rparr>, s')"
proof -
  obtain d8 :: u64 where d8: "deserializeInt (wr_data w) = Some d8"
    using w deserializeInt_Some [where 'a = 64, of "wr_data w"] by auto
  let ?s = "s\<lparr> timeCompare := (timeCompare s)[h := d8] \<rparr>"
  let ?s' = "?s\<lparr> timerIntPrev := levels ?s \<rparr>"
  have inv': "clint_inv ?s" "clint_inv ?s'"
    using inv by (simp_all add: clint_inv_def levels_def)
  have "clint_write w s = Some (?s', changes (timer ?s) 0 (timerIntPrev ?s) (levels ?s))"
    using clint_write_mtimecmp [OF inv h w(1,2) d8] processTimerInterrupts_eq [OF inv'(1)] by simp
  moreover have "map (byte_of d8) [0..<8] = wr_data w"
    using bytes_of_deserializeInt [OF d8, of 8] w(3) by simp
  ultimately show ?thesis
    using clint_read_mtimecmp [OF inv'(2), of k r "replicate 8 0"] k r h inv
    by (simp add: serve_read_def clint_inv_def)
qed

theorem mtimecmp_register_file_witness:
  "\<exists>s' evs. clint_write \<lparr> wr_addr = 0x2004008, wr_length = 8, wr_data = [5, 6, 0, 0, 0, 0, 0, 0],
      wr_strb = replicate 8 True, wr_id = 1 \<rparr> (clint_new 0x2000000 2 10) = Some (s', evs) \<and>
    serve_read clint_read \<lparr> rd_id = 9, rd_addr = 0x2004008, rd_length = 8 \<rparr> s' =
      Some (\<lparr> rr_id = 9, rr_data = [5, 6, 0, 0, 0, 0, 0, 0], rr_resp = 0 \<rparr>, s')"
  using mtimecmp_register_file [of "clint_new 0x2000000 2 10" 1 1
      "\<lparr> wr_addr = 0x2004008, wr_length = 8, wr_data = [5, 6, 0, 0, 0, 0, 0, 0],
         wr_strb = replicate 8 True, wr_id = 1 \<rparr>" "\<lparr> rd_id = 9, rd_addr = 0x2004008, rd_length = 8 \<rparr>"]
  by (simp add: clint_new_tracks) (simp add: clint_new_def)

section \<open>Snapshots of the timer\<close>

lemma clint_load_cmps:
  assumes "map f [i..<n] = lines" and "n = length (timeCompare t)" and "n < 2 ^ 64"
    and "\<And>j. f j = [''cmp'', dec j, dec (unat (v j :: u64))]"
  shows "clint_load lines t = Some (t\<lparr> timeCompare := take i (timeCompare t) @ map v [i..<n] \<rparr>)"
  using assms
proof (induction lines arbitrary: i t)
  case Nil
  then have "take i (timeCompare t) @ map v [i..<n] = timeCompare t"
    by auto
  then show ?case
    by simp
next
  case (Cons l ls)
  then have i: "i < n"
    by (cases "i < n") auto
  then have u: "[i..<n] = i # [Suc i..<n]"
    by (rule upt_conv_Cons)
  have st: "strtoull (dec (unat (v i))) = v i"
    using strtoull_dec [of "unat (v i)"] by (simp add: unat_less_u64)
  have si: "unat (strtoull (dec i)) = i"
    using strtoull_dec [of i] i Cons.prems(3) by (simp add: unat_of_nat_less)
  have l: "l = f i" "map f [Suc i..<n] = ls"
    using Cons.prems(1) u by auto
  let ?t = "t\<lparr> timeCompare := (timeCompare t)[i := v i] \<rparr>"
  have "clint_load_line l t = Some ?t"
    using i Cons.prems(2) by (simp add: clint_load_line_def l Cons.prems(4) word_at_def si st)
  moreover have "take (Suc i) ((timeCompare t)[i := v i]) = take i (timeCompare t) @ [v i]"
    using i Cons.prems(2) by (simp add: take_Suc_conv_app_nth)
  ultimately show ?case
    using Cons.IH [OF l(2), of ?t] Cons.prems(2-4) u by simp
qed

text \<open>
  C39: A snapshot restores the time compare registers of every hart but not the timer: the
  reader never extracts the value of the timer line, so a device rebuilt from a
  snapshot of any state starts its timer at zero.
\<close>
theorem snapshot_loses_timer:
  assumes "clint_inv s"
  shows "clint_load (clint_save s) (clint_new addr (hartCount s) divisor) =
    Some (clint_new addr (hartCount s) divisor\<lparr> timeCompare := timeCompare s, timer := 0 \<rparr>)"
proof -
  let ?t = "clint_new addr (hartCount s) divisor"
  have len: "length (timeCompare ?t) = length (timeCompare s)" "length (timeCompare s) < 2 ^ 64"
    using assms unat_less_u32 [of "hartCount s"] by (simp_all add: clint_inv_def clint_new_def)
  have z: "strtoull [] = 0" "?t\<lparr> timer := 0 \<rparr> = ?t"
    by (simp_all add: strtoull_def strto_def strip_sign_def base_and_digits_def has_hex_prefix_def clint_new_def)
  have "map (\<lambda>j. timeCompare s ! j) [0..<length (timeCompare s)] = timeCompare s"
    by (rule map_nth)
  then show ?thesis
    using len z clint_load_cmps [OF refl, of "length (timeCompare s)" ?t
        "\<lambda>i. [''cmp'', dec i, dec (unat (timeCompare s ! i))]" "\<lambda>i. timeCompare s ! i" 0]
    by (simp add: clint_save_def clint_load_line_def) (simp add: clint_new_def)
qed

theorem snapshot_loses_timer_witness:
  "let s = clint_new 0x2000000 2 10\<lparr> timer := 77, timeCompare := [5, 9] \<rparr> in
   clint_load (clint_save s) (clint_new 0x2000000 2 10) =
     Some (clint_new 0x2000000 2 10\<lparr> timeCompare := [5, 9], timer := 0 \<rparr>)"
  using snapshot_loses_timer [of "clint_new 0x2000000 2 10\<lparr> timer := 77, timeCompare := [5, 9] \<rparr>" "0x2000000" 10]
  by (simp add: clint_inv_def clint_new_def)

end
