(* ===== verification/Aclint.thy ===== *)
theory Aclint
  imports Device Strings
begin

text \<open>
  The advanced interruptor of \<^verbatim>\<open>sysmod/aclint\<close>: the SystemVerilog half (\<^verbatim>\<open>aclint.sv\<close>) with
  the counter, the staged compare registers and the interrupt comparison, and the C++
  half (\<^verbatim>\<open>aclint.cpp\<close>), which serves the bus and calls the SystemVerilog functions.
\<close>

section \<open>The SystemVerilog half\<close>

definition NUM_MTIMECMP :: nat where
  "NUM_MTIMECMP = 9"

definition MTIMECMP_RESET :: u64 where
  "MTIMECMP_RESET = 0x00000000ffffffff"

record aclint_model =
  mtime_q :: u64
  mtime_dpi :: u64
  mtime_wr_req :: u32
  mtime_wr_ack :: u32
  mtimecmp :: "u64 list"
  mtimecmp_dpi :: "u64 list"
  mtimecmp_wr_req :: "u32 list"
  mtimecmp_wr_ack :: "u32 list"
  ts_sync_req :: u32
  ts_sync_ack :: u32
  aclint_time_sync_q :: bool
  ref_clk_sync :: "bool \<times> bool"

definition aclint_model_init :: aclint_model where
  "aclint_model_init = \<lparr> mtime_q = 0, mtime_dpi = 0, mtime_wr_req = 0, mtime_wr_ack = 0,
     mtimecmp = replicate NUM_MTIMECMP MTIMECMP_RESET, mtimecmp_dpi = replicate NUM_MTIMECMP MTIMECMP_RESET,
     mtimecmp_wr_req = replicate NUM_MTIMECMP 0, mtimecmp_wr_ack = replicate NUM_MTIMECMP 0,
     ts_sync_req = 0, ts_sync_ack = 0, aclint_time_sync_q = False, ref_clk_sync = (False, False) \<rparr>"

definition set_mtimecmp :: "nat \<Rightarrow> u64 \<Rightarrow> aclint_model \<Rightarrow> aclint_model" where
  "set_mtimecmp h val m = m\<lparr> mtimecmp_dpi := (mtimecmp_dpi m)[h := val],
     mtimecmp_wr_req := (mtimecmp_wr_req m)[h := mtimecmp_wr_req m ! h + 1] \<rparr>"

definition set_mtime :: "u64 \<Rightarrow> aclint_model \<Rightarrow> aclint_model" where
  "set_mtime val m = m\<lparr> mtime_dpi := val, mtime_wr_req := mtime_wr_req m + 1 \<rparr>"

definition get_mtime :: "aclint_model \<Rightarrow> u64" where
  "get_mtime m = (if mtime_wr_req m \<noteq> mtime_wr_ack m then mtime_dpi m else mtime_q m)"

definition pulse_timesync :: "aclint_model \<Rightarrow> aclint_model" where
  "pulse_timesync m = m\<lparr> ts_sync_req := ts_sync_req m + 1 \<rparr>"

definition ref_mtime :: "bool \<Rightarrow> aclint_model \<Rightarrow> aclint_model" where
  "ref_mtime ref_reset m =
     (if ref_reset then m\<lparr> mtime_q := 0, mtime_wr_ack := mtime_wr_req m \<rparr>
      else if mtime_wr_req m \<noteq> mtime_wr_ack m then
        m\<lparr> mtime_q := mtime_dpi m, mtime_wr_ack := mtime_wr_req m \<rparr>
      else m\<lparr> mtime_q := mtime_q m + 10 \<rparr>)"

definition ref_mtimecmp :: "bool \<Rightarrow> aclint_model \<Rightarrow> aclint_model" where
  "ref_mtimecmp ref_reset m = m\<lparr>
     mtimecmp := map (\<lambda>i. if ref_reset then MTIMECMP_RESET
        else if mtimecmp_wr_req m ! i \<noteq> mtimecmp_wr_ack m ! i then mtimecmp_dpi m ! i
        else mtimecmp m ! i) [0..<NUM_MTIMECMP],
     mtimecmp_wr_ack := map (\<lambda>i. if ref_reset \<or> mtimecmp_wr_req m ! i \<noteq> mtimecmp_wr_ack m ! i
        then mtimecmp_wr_req m ! i else mtimecmp_wr_ack m ! i) [0..<NUM_MTIMECMP] \<rparr>"

definition ref_edge :: "bool \<Rightarrow> aclint_model \<Rightarrow> aclint_model" where
  "ref_edge ref_reset m = ref_mtimecmp ref_reset (ref_mtime ref_reset m)"

definition clk_edge :: "bool \<Rightarrow> bool \<Rightarrow> aclint_model \<Rightarrow> aclint_model" where
  "clk_edge reset ref_clk m = m\<lparr>
     ref_clk_sync := (if reset then (False, False) else (ref_clk, fst (ref_clk_sync m))),
     aclint_time_sync_q := (\<not> reset \<and> ts_sync_req m \<noteq> ts_sync_ack m),
     ts_sync_ack := ts_sync_req m \<rparr>"

definition aclint_ref_pulse :: "aclint_model \<Rightarrow> bool" where
  "aclint_ref_pulse m \<longleftrightarrow> fst (ref_clk_sync m) \<and> \<not> snd (ref_clk_sync m)"

definition mtip :: "aclint_model \<Rightarrow> nat \<Rightarrow> bool" where
  "mtip m h \<longleftrightarrow> h < NUM_MTIMECMP - 1 \<and> mtimecmp m ! h \<le> mtime_q m"

section \<open>The C++ half\<close>

record aclint_flags =
  mtime_offset :: u64
  timesync_offset :: u64
  mtimecmp0_offset :: u64

record aclint =
  a_base :: u64
  a_timeCompare :: "u64 list"
  ctimeAddr :: u64
  a_sv :: aclint_model

definition aclint_new :: "u64 \<Rightarrow> u64 \<Rightarrow> aclint_model \<Rightarrow> aclint" where
  "aclint_new addr ctime v = \<lparr> a_base = addr, a_timeCompare = replicate NUM_MTIMECMP MTIMECMP_RESET,
     ctimeAddr = ctime, a_sv = v \<rparr>"

definition aclint_load_line :: "string list \<Rightarrow> aclint \<Rightarrow> aclint option" where
  "aclint_load_line ws s =
     (if ws \<noteq> [] \<and> hd ws = ''cmp'' then
        let num = word_at ws 1 [] in
        if NUM_MTIMECMP \<le> unat (strtoull num) then Some s
        else do {
          cmps \<leftarrow> vec_set (a_timeCompare s) (unat (strtoull num)) (strtoull (word_at ws 2 num));
          Some (s\<lparr> a_timeCompare := cmps \<rparr>)
        }
      else Some s)"

fun aclint_load :: "string list list \<Rightarrow> aclint \<Rightarrow> aclint option" where
  "aclint_load [] s = Some s"
| "aclint_load (ws # lines) s = do {
     s' \<leftarrow> aclint_load_line ws s;
     aclint_load lines s'
   }"

definition aclint_save :: "aclint \<Rightarrow> string list list" where
  "aclint_save s = map (\<lambda>i. [''cmp'', dec i, dec (unat (a_timeCompare s ! i))]) [0..<length (a_timeCompare s)]"

definition broadcastTime :: "aclint \<Rightarrow> aclint \<times> write_request_t list" where
  "broadcastTime s =
     (if ctimeAddr s = 0 then (s, [])
      else let t = get_mtime (a_sv s) in
        (s\<lparr> a_sv := pulse_timesync (a_sv s) \<rparr>,
         [write_request (ctimeAddr s) 8 (map (\<lambda>i. ucast (drop_bit (8 * i) t)) [0..<8]) (replicate 8 True) False]))"

definition in_mtimecmp :: "aclint_flags \<Rightarrow> u64 \<Rightarrow> bool" where
  "in_mtimecmp f aligned \<longleftrightarrow> mtimecmp0_offset f \<le> aligned \<and>
     aligned < mtimecmp0_offset f + of_nat NUM_MTIMECMP * 8"

definition aclint_read :: "aclint_flags \<Rightarrow> read_t \<Rightarrow> data_t \<Rightarrow> aclint \<Rightarrow>
    (data_t \<times> aclint) option" where
  "aclint_read f r data s =
     (let len = rd_length r in
      if len \<noteq> 4 \<and> len \<noteq> 8 then Some (data, s)
      else
        let offset = rd_addr r - a_base s;
            aligned = offset AND NOT 7;
            hi = (offset AND 4 \<noteq> 0)
        in do {
          reg \<leftarrow>
            (if aligned = mtime_offset f then Some (Some (get_mtime (a_sv s)))
             else if aligned = timesync_offset f then Some (Some 0)
             else if in_mtimecmp f aligned then
               map_option Some (vec_get (a_timeCompare s)
                 (unat (ucast ((aligned - mtimecmp0_offset f) div 8) :: u32)))
             else Some None);
          case reg of
            None \<Rightarrow> Some (data, s)
          | Some reg \<Rightarrow> do {
              data' \<leftarrow> serializeInt
                (if len = 4 then (if hi then drop_bit 32 reg else reg AND 0xffffffff) else reg) len data;
              Some (data', s)
            }
        })"

definition merge :: "nat \<Rightarrow> bool \<Rightarrow> u64 \<Rightarrow> u64 \<Rightarrow> u64" where
  "merge len hi wdata old =
     (if len = 8 then wdata
      else if hi then (old AND 0x00000000ffffffff) OR push_bit 32 (wdata AND 0xffffffff)
      else (old AND 0xffffffff00000000) OR (wdata AND 0xffffffff))"

definition aclint_write :: "aclint_flags \<Rightarrow> write_t \<Rightarrow> aclint \<Rightarrow>
    (aclint \<times> write_request_t list) option" where
  "aclint_write f w s =
     (let len = wr_length w in
      if len \<noteq> 4 \<and> len \<noteq> 8 then Some (s, [])
      else
        let offset = wr_addr w - a_base s;
            aligned = offset AND NOT 7;
            hi = (offset AND 4 \<noteq> 0)
        in do {
          wdata \<leftarrow> deserialize_loop (wr_data w) 0 (min len 8) 0;
          if aligned = mtime_offset f then
            Some (broadcastTime
              (s\<lparr> a_sv := set_mtime (merge len hi wdata (get_mtime (a_sv s))) (a_sv s) \<rparr>))
          else if aligned = timesync_offset f then
            (if wdata AND 0xff \<noteq> 0 then Some (broadcastTime s) else Some (s, []))
          else if in_mtimecmp f aligned then do {
            let cmpIx = unat (ucast ((aligned - mtimecmp0_offset f) div 8) :: u32);
            old \<leftarrow> vec_get (a_timeCompare s) cmpIx;
            let val = merge len hi wdata old;
            cmps \<leftarrow> vec_set (a_timeCompare s) cmpIx val;
            Some (s\<lparr> a_timeCompare := cmps, a_sv := set_mtimecmp cmpIx val (a_sv s) \<rparr>, [])
          }
          else Some (s, [])
        })"

section \<open>The device contract\<close>

definition aclint_inv :: "aclint \<Rightarrow> bool" where
  "aclint_inv s \<longleftrightarrow> length (a_timeCompare s) = NUM_MTIMECMP \<and>
     length (mtimecmp (a_sv s)) = NUM_MTIMECMP \<and> length (mtimecmp_dpi (a_sv s)) = NUM_MTIMECMP \<and>
     length (mtimecmp_wr_req (a_sv s)) = NUM_MTIMECMP \<and> length (mtimecmp_wr_ack (a_sv s)) = NUM_MTIMECMP"

definition cmp_index :: "aclint_flags \<Rightarrow> u64 \<Rightarrow> nat" where
  "cmp_index f aligned = unat (ucast ((aligned - mtimecmp0_offset f) div 8) :: u32)"

lemma unat_window:
  fixes a b n :: "'a::len word"
  assumes "b \<le> a" and "a < b + n"
  shows "unat (a - b) < unat n"
proof -
  have "unat (b + n) \<le> unat b + unat n"
    by (simp add: unat_word_ariths)
  with assms show ?thesis
    by (simp add: unat_sub word_less_nat_alt word_le_nat_alt)
qed

lemma cmp_index_less:
  assumes "in_mtimecmp f aligned"
  shows "cmp_index f aligned < NUM_MTIMECMP"
proof -
  have "unat (aligned - mtimecmp0_offset f) < 72"
    using assms unat_window [of "mtimecmp0_offset f" aligned 72] by (simp add: in_mtimecmp_def NUM_MTIMECMP_def)
  then show ?thesis
    by (simp add: cmp_index_def unsigned_ucast_eq take_bit_eq_mod unat_div_distrib NUM_MTIMECMP_def)
qed

lemma broadcastTime_frame [simp]:
  "a_timeCompare (fst (broadcastTime s)) = a_timeCompare s" "a_base (fst (broadcastTime s)) = a_base s"
  "mtimecmp (a_sv (fst (broadcastTime s))) = mtimecmp (a_sv s)"
  "mtimecmp_dpi (a_sv (fst (broadcastTime s))) = mtimecmp_dpi (a_sv s)"
  "mtimecmp_wr_req (a_sv (fst (broadcastTime s))) = mtimecmp_wr_req (a_sv s)"
  "mtimecmp_wr_ack (a_sv (fst (broadcastTime s))) = mtimecmp_wr_ack (a_sv s)"
  by (simp_all add: broadcastTime_def pulse_timesync_def Let_def)

text \<open>A bus write leaves the compare registers alone or stores one register on both sides.\<close>

definition store_cmp :: "nat \<Rightarrow> u64 \<Rightarrow> aclint \<Rightarrow> aclint" where
  "store_cmp i v s = s\<lparr> a_timeCompare := (a_timeCompare s)[i := v], a_sv := set_mtimecmp i v (a_sv s) \<rparr>"

definition same_cmps :: "aclint \<Rightarrow> aclint \<Rightarrow> bool" where
  "same_cmps s s' \<longleftrightarrow> a_timeCompare s' = a_timeCompare s \<and> mtimecmp (a_sv s') = mtimecmp (a_sv s) \<and>
     mtimecmp_dpi (a_sv s') = mtimecmp_dpi (a_sv s) \<and> mtimecmp_wr_req (a_sv s') = mtimecmp_wr_req (a_sv s) \<and>
     mtimecmp_wr_ack (a_sv s') = mtimecmp_wr_ack (a_sv s)"

lemma aclint_write_cmp:
  assumes "wr_length w = 4 \<or> wr_length w = 8" and "aligned = (wr_addr w - a_base s) AND NOT 7"
    and "aligned \<noteq> mtime_offset f" "aligned \<noteq> timesync_offset f" "in_mtimecmp f aligned"
    and "cmp_index f aligned < length (a_timeCompare s)"
    and "deserialize_loop (wr_data w) 0 (wr_length w) 0 = Some d"
  shows "aclint_write f w s = Some (store_cmp (cmp_index f aligned)
    (merge (wr_length w) ((wr_addr w - a_base s) AND 4 \<noteq> 0) d (a_timeCompare s ! cmp_index f aligned)) s, [])"
  using assms by (auto simp: aclint_write_def Let_def cmp_index_def store_cmp_def)

lemma aclint_write_cases:
  assumes "aclint_inv s" and "bus_write w"
  obtains (same) s' reqs where "aclint_write f w s = Some (s', reqs)" "same_cmps s s'"
  | (cmp) i v where "i < NUM_MTIMECMP" "aclint_write f w s = Some (store_cmp i v s, [])"
proof -
  let ?al = "(wr_addr w - a_base s) AND NOT 7"
  have "min (wr_length w) 8 \<le> length (wr_data w)"
    using assms(2) by (simp add: bus_write_def)
  from bit_deserialize_loop [of 0, simplified, OF this, of 0] obtain d :: u64 where
    d: "deserialize_loop (wr_data w) 0 (min (wr_length w) 8) 0 = Some d"
    by auto
  have ix: "cmp_index f ?al < length (a_timeCompare s)" if "in_mtimecmp f ?al"
    using cmp_index_less [OF that] assms(1) by (simp add: aclint_inv_def)
  have self: "same_cmps s s"
    by (simp add: same_cmps_def)
  have bc: "same_cmps s (fst (broadcastTime t))" if "same_cmps s t" for t
    using that by (simp add: same_cmps_def)
  have mt: "same_cmps s (s\<lparr> a_sv := set_mtime v (a_sv s) \<rparr>)" for v
    by (simp add: same_cmps_def set_mtime_def)
  note defs = aclint_write_def Let_def d
  consider (len) "wr_length w \<noteq> 4 \<and> wr_length w \<noteq> 8" | (mtime) "?al = mtime_offset f"
    | (sync) "?al = timesync_offset f" | (reg) "wr_length w = 4 \<or> wr_length w = 8" "?al \<noteq> mtime_offset f"
      "?al \<noteq> timesync_offset f" "in_mtimecmp f ?al"
    | (none) "?al \<noteq> mtime_offset f" "?al \<noteq> timesync_offset f" "\<not> in_mtimecmp f ?al"
    by blast
  then show ?thesis
  proof cases
    case reg
    then have "deserialize_loop (wr_data w) 0 (wr_length w) 0 = Some d"
      using d by auto
    from that(2) [OF cmp_index_less [OF reg(4)] aclint_write_cmp [OF reg(1) refl reg(2-4) ix [OF reg(4)] this]]
    show ?thesis .
  qed (rule that(1) [of "fst (the (aclint_write f w s))" "snd (the (aclint_write f w s))"];
    use self bc mt in \<open>auto simp: defs split: if_splits\<close>)+
qed

lemma aclint_write_inv:
  assumes "aclint_inv s" and "bus_write w"
  shows "\<exists>s' reqs. aclint_write f w s = Some (s', reqs) \<and> aclint_inv s'"
  using assms
proof (cases rule: aclint_write_cases [where f = f])
  case (same s' reqs)
  then show ?thesis
    using assms(1) by (simp add: aclint_inv_def same_cmps_def)
next
  case (cmp i v)
  then show ?thesis
    using assms(1) by (simp add: aclint_inv_def store_cmp_def set_mtimecmp_def)
qed

lemma aclint_read_ok:
  assumes "aclint_inv s" and "length data = rd_length r"
  shows "\<exists>data'. aclint_read f r data s = Some (data', s) \<and> length data' = length data"
proof -
  let ?al = "(rd_addr r - a_base s) AND NOT 7"
  have "cmp_index f ?al < length (a_timeCompare s)" if "in_mtimecmp f ?al"
    using cmp_index_less [OF that] assms(1) by (simp add: aclint_inv_def)
  with assms(2) show ?thesis
    by (auto simp: aclint_read_def Let_def byte_simps cmp_index_def)
qed

interpretation aclint_dev: mmio_device aclint_inv bus_write "aclint_read f" "aclint_write f" for f
proof
  show "\<exists>data' s'. aclint_read f r data s = Some (data', s') \<and> length data' = length data \<and> aclint_inv s'"
    if "aclint_inv s" "length data = rd_length r" for s data r
    using aclint_read_ok [OF that] that by blast
qed (rule aclint_write_inv)

section \<open>The mirror and the hardware registers\<close>

datatype aclint_op = A_write write_t | A_ref bool | A_clk bool bool

fun aclint_step :: "aclint_flags \<Rightarrow> aclint_op \<Rightarrow> aclint \<Rightarrow> (aclint \<times> write_request_t list) option" where
  "aclint_step f (A_write w) s = aclint_write f w s"
| "aclint_step f (A_ref rst) s = Some (s\<lparr> a_sv := ref_edge rst (a_sv s) \<rparr>, [])"
| "aclint_step f (A_clk rst ref) s = Some (s\<lparr> a_sv := clk_edge rst ref (a_sv s) \<rparr>, [])"

fun aclint_run :: "aclint_flags \<Rightarrow> aclint_op list \<Rightarrow> aclint \<Rightarrow> (aclint \<times> write_request_t list) option" where
  "aclint_run f [] s = Some (s, [])"
| "aclint_run f (x # ops) s = do {
     (s', reqs) \<leftarrow> aclint_step f x s;
     (s'', reqs') \<leftarrow> aclint_run f ops s';
     Some (s'', reqs @ reqs')
   }"

lemma aclint_run_append:
  "aclint_run f (xs @ ys) s = do {
     (s', r) \<leftarrow> aclint_run f xs s;
     (s'', r') \<leftarrow> aclint_run f ys s';
     Some (s'', r @ r')
   }"
  by (induction xs arbitrary: s) (auto simp: case_prod_beta split: Option.bind_splits)

definition op_ok :: "aclint_op \<Rightarrow> bool" where
  "op_ok x \<longleftrightarrow> (case x of A_write w \<Rightarrow> bus_write w | A_ref rst \<Rightarrow> \<not> rst | A_clk rst ref \<Rightarrow> True)"

text \<open>The value the hardware register holds or will take on the next reference edge.\<close>

definition staged :: "aclint_model \<Rightarrow> nat \<Rightarrow> u64" where
  "staged m i = (if mtimecmp_wr_req m ! i \<noteq> mtimecmp_wr_ack m ! i then mtimecmp_dpi m ! i else mtimecmp m ! i)"

definition coherent :: "nat \<Rightarrow> aclint \<Rightarrow> bool" where
  "coherent k s \<longleftrightarrow> aclint_inv s \<and> (\<forall>i < NUM_MTIMECMP. staged (a_sv s) i = a_timeCompare s ! i \<and>
     unat (mtimecmp_wr_req (a_sv s) ! i - mtimecmp_wr_ack (a_sv s) ! i) \<le> k)"

lemma coherent_mono: "coherent k s \<Longrightarrow> k \<le> n \<Longrightarrow> coherent n s"
  by (fastforce simp: coherent_def)

lemma coherent_same: "coherent k s \<Longrightarrow> same_cmps s s' \<Longrightarrow> coherent k s'"
proof -
  assume "coherent k s" and same: "same_cmps s s'"
  have "staged (a_sv s') = staged (a_sv s)"
    using same by (simp add: same_cmps_def staged_def fun_eq_iff)
  with \<open>coherent k s\<close> same show "coherent k s'"
    by (simp add: coherent_def same_cmps_def aclint_inv_def)
qed

lemma coherent_store:
  assumes c: "coherent k s" and k: "Suc k < 2 ^ 32" and i: "i < NUM_MTIMECMP"
  shows "coherent (Suc k) (store_cmp i v s)"
proof -
  let ?req = "mtimecmp_wr_req (a_sv s) ! i" and ?ack = "mtimecmp_wr_ack (a_sv s) ! i"
  have "unat (?req - ?ack) \<le> k"
    using c i by (simp add: coherent_def)
  then have "unat (?req - ?ack) + unat (1 :: u32) < 2 ^ LENGTH(32)"
    using k by simp
  then have "unat ((?req - ?ack) + 1) = Suc (unat (?req - ?ack))"
    by (simp only: unat_add_less) simp
  moreover have "?req + 1 - ?ack = (?req - ?ack) + 1"
    by simp
  ultimately have n: "unat (?req + 1 - ?ack) = Suc (unat (?req - ?ack))"
    by (simp only:)
  have ne: "?req + 1 \<noteq> ?ack"
  proof
    assume "?req + 1 = ?ack"
    then have "unat (?req + 1 - ?ack) = 0"
      by (simp only: diff_self unat_0)
    with n show False
      by simp
  qed
  have le: "unat (?req + 1 - ?ack) \<le> Suc k"
    using n \<open>unat (?req - ?ack) \<le> k\<close> by simp
  have inv: "aclint_inv s"
    using c by (simp add: coherent_def)
  have st: "staged (set_mtimecmp i v (a_sv s)) j = (if j = i then v else staged (a_sv s) j)"
    if "j < NUM_MTIMECMP" for j
    using ne inv i that by (auto simp: aclint_inv_def staged_def set_mtimecmp_def nth_list_update)
  have cnt: "unat (mtimecmp_wr_req (set_mtimecmp i v (a_sv s)) ! j - mtimecmp_wr_ack (set_mtimecmp i v (a_sv s)) ! j) \<le> Suc k"
    if j: "j < NUM_MTIMECMP" for j
  proof (cases "j = i")
    case True
    then show ?thesis
      using le inv i by (simp add: aclint_inv_def set_mtimecmp_def)
  next
    case False
    then show ?thesis
      using c j by (simp add: coherent_def set_mtimecmp_def le_SucI)
  qed
  have "aclint_inv (store_cmp i v s)"
    using c by (simp add: coherent_def aclint_inv_def store_cmp_def set_mtimecmp_def)
  moreover have "a_sv (store_cmp i v s) = set_mtimecmp i v (a_sv s)"
    "a_timeCompare (store_cmp i v s) ! j = (if j = i then v else a_timeCompare s ! j)" if "j < NUM_MTIMECMP" for j
    using c i that by (simp_all add: store_cmp_def coherent_def aclint_inv_def)
  ultimately show ?thesis
    using c i st cnt by (simp add: coherent_def)
qed

lemma ref_mtime_frame [simp]:
  "mtimecmp (ref_mtime b m) = mtimecmp m" "mtimecmp_dpi (ref_mtime b m) = mtimecmp_dpi m"
  "mtimecmp_wr_req (ref_mtime b m) = mtimecmp_wr_req m" "mtimecmp_wr_ack (ref_mtime b m) = mtimecmp_wr_ack m"
  by (simp_all add: ref_mtime_def)

lemma ref_edge_fields:
  "mtimecmp (ref_edge False m) = map (staged m) [0..<NUM_MTIMECMP]"
  "mtimecmp_wr_ack (ref_edge False m) = map (\<lambda>i. mtimecmp_wr_req m ! i) [0..<NUM_MTIMECMP]"
  "mtimecmp_wr_req (ref_edge False m) = mtimecmp_wr_req m" "mtimecmp_dpi (ref_edge False m) = mtimecmp_dpi m"
  by (simp_all add: ref_edge_def ref_mtimecmp_def staged_def)

lemma coherent_ref:
  assumes "coherent k s"
  shows "coherent 0 (s\<lparr> a_sv := ref_edge False (a_sv s) \<rparr>)"
    "mtimecmp (ref_edge False (a_sv s)) = a_timeCompare s"
proof -
  show eq: "mtimecmp (ref_edge False (a_sv s)) = a_timeCompare s"
    using assms by (auto simp: ref_edge_fields coherent_def aclint_inv_def intro!: nth_equalityI)
  have "staged (ref_edge False (a_sv s)) i = mtimecmp (ref_edge False (a_sv s)) ! i" if "i < NUM_MTIMECMP" for i
    using that by (simp add: staged_def ref_edge_fields(2,3))
  then show "coherent 0 (s\<lparr> a_sv := ref_edge False (a_sv s) \<rparr>)"
    using assms eq by (simp add: coherent_def aclint_inv_def) (simp add: ref_edge_fields)
qed

lemma coherent_step:
  assumes "coherent k s" and "Suc k < 2 ^ 32" and "op_ok x"
  shows "\<exists>s' reqs. aclint_step f x s = Some (s', reqs) \<and> coherent (Suc k) s'"
proof (cases x)
  case (A_write w)
  have "aclint_inv s" "bus_write w"
    using assms A_write by (simp_all add: coherent_def op_ok_def)
  then show ?thesis
  proof (cases rule: aclint_write_cases [where f = f])
    case (same s' reqs)
    with coherent_mono [OF coherent_same [OF assms(1) same(2)], of "Suc k"] show ?thesis
      by (simp add: A_write)
  next
    case (cmp i v)
    with coherent_store [OF assms(1,2)] show ?thesis
      by (simp add: A_write)
  qed
next
  case (A_ref rst)
  then show ?thesis
    using assms(3) coherent_mono [OF coherent_ref(1) [OF assms(1)], of "Suc k"] by (simp add: op_ok_def)
next
  case (A_clk rst ref)
  then show ?thesis
    using coherent_mono [OF coherent_same [OF assms(1)], of "s\<lparr> a_sv := clk_edge rst ref (a_sv s) \<rparr>" "Suc k"]
    by (simp add: same_cmps_def clk_edge_def)
qed

lemma coherent_run:
  assumes "coherent k s" and "k + length ops < 2 ^ 32" and "list_all op_ok ops"
  shows "\<exists>s' reqs. aclint_run f ops s = Some (s', reqs) \<and> coherent (k + length ops) s'"
  using assms
proof (induction ops arbitrary: k s)
  case (Cons x ops)
  obtain s1 r1 where s1: "aclint_step f x s = Some (s1, r1)" "coherent (Suc k) s1"
    using coherent_step [of k s x f] Cons.prems by auto
  with Cons.IH [of "Suc k" s1] Cons.prems show ?case
    by auto
qed simp

lemma coherent_new: "coherent 0 (aclint_new addr ctime aclint_model_init)"
  by (simp add: coherent_def aclint_inv_def aclint_new_def aclint_model_init_def staged_def)

text \<open>
  C4: Compare values written over the bus reach the interrupt comparison.  From power-up,
  after any sequence of bus writes, clock edges and reference edges outside reset (fewer
  than \<^verbatim>\<open>2^32\<close> of them, the width of the handshake counters), the next reference
  edge makes the hardware compare registers equal to the registers the bus reads, and
  the interrupt line of hart \<^verbatim>\<open>h < 8\<close> is the comparison of the hardware time with the register.
\<close>
theorem compare_reaches_hardware:
  assumes "list_all op_ok ops" and "length ops < 2 ^ 32"
  shows "\<exists>s reqs. aclint_run f (ops @ [A_ref False]) (aclint_new addr ctime aclint_model_init) = Some (s, reqs) \<and>
    mtimecmp (a_sv s) = a_timeCompare s \<and>
    (\<forall>h. mtip (a_sv s) h = (h < 8 \<and> a_timeCompare s ! h \<le> mtime_q (a_sv s)))"
proof -
  from coherent_run [OF coherent_new, of ops f addr ctime] assms obtain s r where
    s: "aclint_run f ops (aclint_new addr ctime aclint_model_init) = Some (s, r)" "coherent (length ops) s"
    by auto
  then show ?thesis
    using coherent_ref(2) [OF s(2)] by (simp add: aclint_run_append mtip_def NUM_MTIMECMP_def)
qed

definition sample_aclint_ops :: "aclint_op list" where
  "sample_aclint_ops = [A_write \<lparr> wr_addr = 0x8008, wr_length = 8, wr_data = [20, 0, 0, 0, 0, 0, 0, 0],
     wr_strb = replicate 8 True, wr_id = 1 \<rparr>, A_ref False, A_clk False True, A_ref False]"

theorem compare_reaches_hardware_witness:
  "\<exists>s reqs. aclint_run \<lparr> mtime_offset = 0x4000, timesync_offset = 0x4008, mtimecmp0_offset = 0 \<rparr>
      (sample_aclint_ops @ [A_ref False]) (aclint_new 0x8000 0 aclint_model_init) = Some (s, reqs) \<and>
    mtimecmp (a_sv s) = a_timeCompare s \<and>
    (\<forall>h. mtip (a_sv s) h = (h < 8 \<and> a_timeCompare s ! h \<le> mtime_q (a_sv s)))"
proof (rule compare_reaches_hardware)
  show "list_all op_ok sample_aclint_ops"
    by (simp add: sample_aclint_ops_def op_ok_def bus_write_def)
  show "length sample_aclint_ops < 2 ^ 32"
    by (simp add: sample_aclint_ops_def)
qed

section \<open>Half width accesses\<close>

lemma bit_seven: "bit (7 :: u64) n \<longleftrightarrow> n < 3"
proof -
  have "(7::u64) = mask 3"
    by (simp add: mask_eq_exp_minus_1)
  then show ?thesis by (simp only: bit_mask_iff) auto
qed

lemma bit_four: "bit (4 :: u64) n \<longleftrightarrow> n = 2"
proof -
  have "(4::u64) = push_bit 2 1" by simp
  then show ?thesis by (simp only: bit_push_bit_iff) (auto simp: bit_1_iff)
qed

lemma low_bits:  fixes x :: u64
  assumes "x AND 7 = 0" "n < 3" shows "\<not> bit x n"
proof
  assume "bit x n"
  then have "bit (x AND 7) n" using assms(2) by (simp only: bit_and_iff bit_seven)
  then show False by (simp only: assms(1) bit_0_eq)  simp
qed

lemma aligned_halves:
  fixes x :: u64
  assumes "x AND 7 = 0"
  shows "x AND NOT 7 = x" "x AND 4 = 0" "(x + 4) AND NOT 7 = x" "(x + 4) AND 4 = 4"
proof -
  note low = low_bits [OF assms]
  show "x AND NOT 7 = x"
    by (rule bit_word_eqI) (use low in \<open>auto simp only: bit_and_iff bit_not_iff bit_seven possible_bit_word\<close>)
  show dis: "x AND 4 = 0"
    by (rule bit_word_eqI) (use low [of 2, simplified] in \<open>auto simp only: bit_and_iff bit_four bit_0_eq bot_apply bot_bool_def\<close>)
  then have eq: "x + 4 = x OR 4"
    by (rule disjunctive_add_eq_or)
  show "(x + 4) AND NOT 7 = x"
    unfolding eq by (rule bit_word_eqI) (use low in \<open>auto simp only: bit_and_iff bit_or_iff bit_not_iff bit_seven possible_bit_word bit_four\<close>)
  show "(x + 4) AND 4 = 4"
    unfolding eq by (rule bit_word_eqI) (auto simp only: bit_and_iff bit_or_iff bit_four)
qed
lemma bit_low_word: "bit (0xffffffff :: u64) n \<longleftrightarrow> n < 32"
proof -
  have "(0xffffffff :: u64) = mask 32"
    by (simp add: mask_eq_exp_minus_1)
  then show ?thesis
    by (simp only: bit_mask_iff possible_bit_word) auto
qed

lemma bit_high_word: "bit (0xffffffff00000000 :: u64) n \<longleftrightarrow> 32 \<le> n \<and> n < 64"
proof -
  have "(0xffffffff00000000 :: u64) = NOT 0xffffffff"
    by simp
  then show ?thesis
    by (simp only: bit_not_iff bit_low_word possible_bit_word) auto
qed

lemma bit_merge:
  assumes "n < 64"
  shows "bit (merge 4 hi d old) n =
    (if hi then (if n < 32 then bit old n else bit d (n - 32)) else (if n < 32 then bit d n else bit old n))"
proof -
  have "bit (merge 4 hi d old) n = (if hi then bit old n \<and> n < 32 \<or> 32 \<le> n \<and> bit d (n - 32) \<and> n - 32 < 32
      else bit old n \<and> 32 \<le> n \<and> n < 64 \<or> bit d n \<and> n < 32)"
    using assms by (cases hi) (simp_all only: merge_def if_True if_False numeral_eq_iff num.distinct num.inject
        bit_and_iff bit_or_iff bit_push_bit_iff bit_low_word bit_high_word possible_bit_word, auto)
  then show ?thesis
    using assms by auto
qed

lemma merge_halves:
  assumes lo: "\<And>n. n < 32 \<Longrightarrow> bit lo4 n = bit d n" and hi: "\<And>n. n < 32 \<Longrightarrow> bit hi4 n = bit d (32 + n)"
  shows "merge 4 True hi4 (merge 4 False lo4 old) = d" "merge 4 False lo4 (merge 4 True hi4 old) = d"
  by (rule bit_word_eqI, simp add: bit_merge lo hi)+

definition half :: "bool \<Rightarrow> write_t \<Rightarrow> write_t" where
  "half hi w = w\<lparr> wr_addr := (if hi then wr_addr w + 4 else wr_addr w), wr_length := 4,
     wr_data := (if hi then drop 4 (wr_data w) else wr_data w) \<rparr>"

lemma store_cmp_twice:
  assumes "i < length (a_timeCompare s)"
  shows "a_timeCompare (store_cmp i v (store_cmp i u s)) = (a_timeCompare s)[i := v]"
  using assms by (simp add: store_cmp_def)

text \<open>
  C32: A 64-bit write to a compare register and the two 32-bit writes of its halves, in
  either order, leave the same compare registers.  The code merges writes of other lengths
  than 8 into the register; the comment in \<^verbatim>\<open>aclint.h\<close> (line 74) says they are dropped.
\<close>
theorem half_writes_compose:
  assumes inv: "aclint_inv s" and w: "wr_length w = 8" "length (wr_data w) = 8"
    and x: "x = wr_addr w - a_base s" "x AND 7 = 0" "x \<noteq> mtime_offset f" "x \<noteq> timesync_offset f" "in_mtimecmp f x"
  shows "\<exists>s1 s2 s3. aclint_write f w s = Some (s1, []) \<and>
    aclint_run f [A_write (half False w), A_write (half True w)] s = Some (s2, []) \<and>
    aclint_run f [A_write (half True w), A_write (half False w)] s = Some (s3, []) \<and>
    a_timeCompare s2 = a_timeCompare s1 \<and> a_timeCompare s3 = a_timeCompare s1"
proof -
  let ?i = "cmp_index f x"
  have i: "?i < length (a_timeCompare s)"
    using cmp_index_less [OF x(5)] inv by (simp add: aclint_inv_def)
  obtain d where d: "deserialize_loop (wr_data w) 0 8 (0 :: u64) = Some d"
      "\<And>n. bit d n = (n < 64 \<and> bit (wr_data w ! (n div 8)) (n mod 8))"
    using bit_deserialize_loop [of 0 8 "wr_data w" "0 :: u64"] w(2) by auto
  obtain l where l: "deserialize_loop (wr_data (half False w)) 0 4 (0 :: u64) = Some l" "\<And>n. n < 32 \<Longrightarrow> bit l n = bit d n"
    using bit_deserialize_loop [of 0 4 "wr_data w" "0 :: u64"] w(2) by (auto simp: half_def d(2))
  have dm: "(32 + n) div 8 = 4 + n div 8" "(32 + n) mod 8 = n mod 8" for n :: nat
    by presburger+
  obtain h where h: "deserialize_loop (wr_data (half True w)) 0 4 (0 :: u64) = Some h" "\<And>n. n < 32 \<Longrightarrow> bit h n = bit d (32 + n)"
    using bit_deserialize_loop [of 0 4 "drop 4 (wr_data w)" "0 :: u64"] w(2) by (auto simp: half_def d(2) dm)
  have full: "aclint_write f w s = Some (store_cmp ?i d s, [])"
    using aclint_write_cmp [of w x s f d] w x d i aligned_halves [OF x(2)] by (simp add: merge_def)
  have part: "aclint_write f (half b w) t = Some (store_cmp ?i (merge 4 b (if b then h else l) (a_timeCompare t ! ?i)) t, [])"
    if "a_base t = a_base s" "?i < length (a_timeCompare t)" for b t
  proof -
    have o: "wr_addr (half b w) - a_base t = (if b then x + 4 else x)"
      using that x(1) by (simp add: half_def)
    have al: "x = (wr_addr (half b w) - a_base t) AND NOT 7" "((wr_addr (half b w) - a_base t) AND 4 \<noteq> 0) = b"
      unfolding o using aligned_halves [OF x(2)] by (cases b; simp)+
    have len: "wr_length (half b w) = 4" for b
      by (simp add: half_def)
    have "deserialize_loop (wr_data (half b w)) 0 (wr_length (half b w)) 0 = Some (if b then h else l)"
      using l(1) h(1) by (cases b) (simp_all add: len)
    from aclint_write_cmp [OF _ al(1) x(3-5) that(2) this] show ?thesis
      by (simp add: len al(2))
  qed
  have b: "a_base (store_cmp j v t) = a_base t" "length (a_timeCompare (store_cmp j v t)) = length (a_timeCompare t)"
    "a_timeCompare (store_cmp ?i v s) ! ?i = v" for j v t
    using i by (simp_all add: store_cmp_def)
  show ?thesis
    using i by (simp add: full part b merge_halves [OF l(2) h(2)] store_cmp_twice) (simp add: store_cmp_def)
qed

definition sample_aclint_flags :: aclint_flags where
  "sample_aclint_flags = \<lparr> mtime_offset = 0x4000, timesync_offset = 0x4008, mtimecmp0_offset = 0 \<rparr>"

definition sample_cmp_write :: write_t where
  "sample_cmp_write = \<lparr> wr_addr = 0x8010, wr_length = 8, wr_data = [1, 2, 3, 4, 5, 6, 7, 8],
     wr_strb = replicate 8 True, wr_id = 1 \<rparr>"

theorem half_writes_compose_witness:
  "let s = aclint_new 0x8000 0 aclint_model_init; f = sample_aclint_flags; w = sample_cmp_write in
   \<exists>s1 s2 s3. aclint_write f w s = Some (s1, []) \<and>
    aclint_run f [A_write (half False w), A_write (half True w)] s = Some (s2, []) \<and>
    aclint_run f [A_write (half True w), A_write (half False w)] s = Some (s3, []) \<and>
    a_timeCompare s2 = a_timeCompare s1 \<and> a_timeCompare s3 = a_timeCompare s1"
  unfolding Let_def
proof (rule half_writes_compose [where x = "0x10"])
  show "aclint_inv (aclint_new 0x8000 0 aclint_model_init)"
    using coherent_new by (simp add: coherent_def)
qed (simp_all add: sample_cmp_write_def sample_aclint_flags_def aclint_new_def in_mtimecmp_def NUM_MTIMECMP_def)

section \<open>Time broadcasts, snapshots and reset\<close>

text \<open>
  C33: A 64-bit write of the time register, made while the mailbox to the hardware has room,
  takes effect: reads of the time return the new value, the next reference edge loads it into
  the counter, and the device issues exactly one eight byte write of the new time to the
  broadcast target if one is configured and none if the target is 0, as by default.  The code
  looks at the address of the register's word only, so this holds for every address
  in the word, although the comment in \<^verbatim>\<open>aclint.h\<close> (line 74) says that
  an address that is not aligned makes the write a no-op.
\<close>
theorem mtime_write_broadcasts:
  assumes w: "wr_length w = 8" "length (wr_data w) = 8" "(wr_addr w - a_base s) AND NOT 7 = mtime_offset f"
    and room: "mtime_wr_req (a_sv s) + 1 \<noteq> mtime_wr_ack (a_sv s)"
  shows "\<exists>s' v. aclint_write f w s =
      Some (s', if ctimeAddr s = 0 then [] else [write_request (ctimeAddr s) 8 (wr_data w) (replicate 8 True) False]) \<and>
    deserializeInt (wr_data w) = Some v \<and> get_mtime (a_sv s') = v \<and> mtime_q (ref_edge False (a_sv s')) = v"
proof -
  obtain v :: u64 where v: "deserializeInt (wr_data w) = Some v"
    using w deserializeInt_Some [where 'a = 64, of "wr_data w"] by auto
  then have d: "deserialize_loop (wr_data w) 0 8 0 = Some v"
    by (simp add: deserializeInt_def)
  have "map (\<lambda>i. ucast (drop_bit (8 * i) v)) [0..<8] = wr_data w"
    using bytes_of_deserializeInt [OF v, of 8] w(2) by (simp add: byte_of_def [abs_def])
  with w room v d show ?thesis
    by (simp add: aclint_write_def Let_def merge_def broadcastTime_def set_mtime_def get_mtime_def
        pulse_timesync_def ref_edge_def ref_mtimecmp_def ref_mtime_def)
qed

theorem mtime_write_broadcasts_witness:
  "\<exists>s' v. aclint_write sample_aclint_flags (sample_cmp_write\<lparr> wr_addr := 0xc000 \<rparr>)
        (aclint_new 0x8000 0x1234 aclint_model_init) =
      Some (s', [write_request 0x1234 8 [1, 2, 3, 4, 5, 6, 7, 8] (replicate 8 True) False]) \<and>
    deserializeInt [1, 2, 3, 4, 5, 6, 7, 8] = Some v \<and> get_mtime (a_sv s') = v \<and>
    mtime_q (ref_edge False (a_sv s')) = v"
  using mtime_write_broadcasts [of "sample_cmp_write\<lparr> wr_addr := 0xc000 \<rparr>"
      "aclint_new 0x8000 0x1234 aclint_model_init" sample_aclint_flags]
  by (simp add: sample_cmp_write_def sample_aclint_flags_def aclint_new_def aclint_model_init_def)

lemma aclint_load_cmps:
  assumes "map (\<lambda>j. [''cmp'', dec j, dec (unat (v j :: u64))]) [i..<n] = lines" and "n = length (a_timeCompare t)"
    and "n = NUM_MTIMECMP"
  shows "aclint_load lines t = Some (t\<lparr> a_timeCompare := take i (a_timeCompare t) @ map v [i..<n] \<rparr>)"
  using assms
proof (induction lines arbitrary: i t)
  case Nil
  then have "take i (a_timeCompare t) @ map v [i..<n] = a_timeCompare t"
    by auto
  then show ?case
    by simp
next
  case (Cons l ls)
  then have i: "i < n"
    by (cases "i < n") auto
  then have u: "[i..<n] = i # [Suc i..<n]"
    by (rule upt_conv_Cons)
  have st: "strtoull (dec (unat (v i))) = v i"
    using strtoull_dec [of "unat (v i)"] by (simp add: unat_less_u64)
  have si: "unat (strtoull (dec i)) = i"
    using strtoull_dec [of i] i Cons.prems(3) by (simp add: unat_of_nat_less NUM_MTIMECMP_def)
  have l: "l = [''cmp'', dec i, dec (unat (v i))]" "map (\<lambda>j. [''cmp'', dec j, dec (unat (v j))]) [Suc i..<n] = ls"
    using Cons.prems(1) u by auto
  let ?t = "t\<lparr> a_timeCompare := (a_timeCompare t)[i := v i] \<rparr>"
  have "aclint_load_line l t = Some ?t"
    using i Cons.prems(2,3) by (simp add: aclint_load_line_def l word_at_def si st)
  moreover have "take (Suc i) ((a_timeCompare t)[i := v i]) = take i (a_timeCompare t) @ [v i]"
    using i Cons.prems(2) by (simp add: take_Suc_conv_app_nth)
  ultimately show ?case
    using Cons.IH [OF l(2), of ?t] Cons.prems(2,3) u by simp
qed

text \<open>
  C40: A snapshot restores only the registers the bus reads.  Loading a saved device
  yields its compare values, while the hardware registers that drive the interrupt
  lines stay at their reset value.
\<close>
theorem snapshot_leaves_hardware:
  assumes "aclint_inv s"
  shows "aclint_load (aclint_save s) (aclint_new addr ctime m) =
    Some (aclint_new addr ctime m\<lparr> a_timeCompare := a_timeCompare s, a_sv := m \<rparr>)"
proof -
  let ?t = "aclint_new addr ctime m"
  have "aclint_load (aclint_save s) ?t =
      Some (?t\<lparr> a_timeCompare := take 0 (a_timeCompare ?t) @ map (\<lambda>j. a_timeCompare s ! j) [0..<NUM_MTIMECMP] \<rparr>)"
    by (rule aclint_load_cmps) (use assms in \<open>simp_all add: aclint_save_def aclint_inv_def aclint_new_def\<close>)
  moreover have "map (\<lambda>j. a_timeCompare s ! j) [0..<NUM_MTIMECMP] = a_timeCompare s"
    using assms map_nth [of "a_timeCompare s"] by (simp add: aclint_inv_def)
  ultimately show ?thesis
    by (simp add: aclint_new_def)
qed

theorem snapshot_leaves_hardware_witness:
  "let s = aclint_new 0x8000 0 aclint_model_init\<lparr> a_timeCompare := [1, 2, 3, 4, 5, 6, 7, 8, 9] \<rparr> in
   aclint_load (aclint_save s) (aclint_new 0x8000 0 aclint_model_init) =
    Some (aclint_new 0x8000 0 aclint_model_init\<lparr> a_timeCompare := [1, 2, 3, 4, 5, 6, 7, 8, 9], a_sv := aclint_model_init \<rparr>)"
  using snapshot_leaves_hardware [of "aclint_new 0x8000 0 aclint_model_init\<lparr> a_timeCompare := [1, 2, 3, 4, 5, 6, 7, 8, 9] \<rparr>"]
  by (simp add: aclint_inv_def aclint_new_def aclint_model_init_def NUM_MTIMECMP_def)

end
