(* ===== verification/Htif.thy ===== *)
theory Htif
  imports Device Strings
begin

text \<open>
  The host interface of \<^verbatim>\<open>sysmod/htif\<close>: console output and input over the
  \<^verbatim>\<open>tohost\<close>/\<^verbatim>\<open>fromhost\<close> pair and the accounting of exiting harts that ends a simulation.
  The terminal is an input: \<^verbatim>\<open>h_console\<close> holds the results of the successive
  polls (of the pseudo-terminal, or of standard input if that has none), zero when there
  is nothing pending.
\<close>

section \<open>Model\<close>

record htif_flags =
  htif_flip :: bool
  htif_log :: bool
  htif_pty :: bool
  payload_has_hart_id :: bool
  hart_enable_id :: string
  htif_eot :: string
  num_harts :: u32

datatype htif_event =
    Log_char u8
  | Put_char u8
  | Pass_exit u32
  | Fail_exit u32
  | Illegal_exit u16 u32
  | Terminate bool

record htif =
  h_base :: u64
  h_to :: u64
  h_from :: u64
  h_console :: "int list"
  h_passed :: int
  h_failed :: int
  enabled_harts :: "u16 list"
  passed_harts :: "u16 list"
  failed_harts :: "u16 list"

definition htif_id :: "string \<Rightarrow> u64 \<Rightarrow> device_id" where
  "htif_id tag addr = \<lparr> dv_tag = tag, dv_addr = addr, dv_size = 16 \<rparr>"

fun insert_all :: "string list \<Rightarrow> u16 list \<Rightarrow> u16 list option" where
  "insert_all [] hs = Some hs"
| "insert_all (t # ts) hs = do {
     v \<leftarrow> stoull 10 t;
     insert_all ts (List.insert (ucast v) hs)
   }"

definition htif_new :: "htif_flags \<Rightarrow> u64 \<Rightarrow> int list \<Rightarrow> htif option" where
  "htif_new f addr console = do {
     harts \<leftarrow> (if payload_has_hart_id f then insert_all (getline_tokens CHR '','' (hart_enable_id f)) []
               else Some []);
     Some \<lparr> h_base = addr, h_to = 0, h_from = 0, h_console = console, h_passed = 0, h_failed = 0,
       enabled_harts = harts, passed_harts = [], failed_harts = [] \<rparr>
   }"

definition poll :: "htif \<Rightarrow> int \<times> htif" where
  "poll s = (case h_console s of [] \<Rightarrow> (0, s) | ch # r \<Rightarrow> (ch, s\<lparr> h_console := r \<rparr>))"

definition htif_read :: "htif_flags \<Rightarrow> read_t \<Rightarrow> data_t \<Rightarrow> htif \<Rightarrow> (data_t \<times> htif) option" where
  "htif_read f r data s =
     (if rd_length r \<noteq> 8 \<or> rd_addr r mod 8 \<noteq> 0 then Some (data, s)
      else
        let di = (rd_addr r - h_base s) div 8;
            to = ((di = 0) \<noteq> htif_flip f);
            s' = (if to \<or> \<not> htif_pty f then s
                  else let (ch, s1) = poll s
                    in s1\<lparr> h_from := (if 0 < ch then push_bit 56 1 OR of_int ch else 0) \<rparr>);
            dword = (if to then h_to s' else h_from s')
        in do {
          data' \<leftarrow> serializeInt dword (rd_length r) data;
          Some (data', s')
        })"

definition pass_status :: "u64 \<Rightarrow> bool" where
  "pass_status v \<longleftrightarrow> v AND 1 \<noteq> 0 \<and> drop_bit 1 v = 0"

definition hart_exit :: "u64 \<Rightarrow> u32 \<Rightarrow> htif \<Rightarrow> htif \<times> htif_event list" where
  "hart_exit payload axi s =
     (let hart = ucast (drop_bit 16 payload AND 0xffff) :: u16 in
      if hart \<notin> set (enabled_harts s) then (s, [Illegal_exit hart axi])
      else
        let status = payload AND NOT (push_bit 16 0xffff);
            (s, evs) =
              (if pass_status status then
                 ((if hart \<in> set (passed_harts s) then s
                   else s\<lparr> passed_harts := hart # passed_harts s, h_passed := h_passed s + 1 \<rparr>), [Pass_exit axi])
               else
                 ((if hart \<in> set (failed_harts s) then s
                   else s\<lparr> failed_harts := hart # failed_harts s, h_failed := h_failed s + 1 \<rparr>), [Fail_exit axi]))
        in (s, evs @
          (if length (passed_harts s) + length (failed_harts s) = length (enabled_harts s)
           then [Terminate (failed_harts s = [])] else [])))"

definition htif_exit :: "htif_flags \<Rightarrow> u64 \<Rightarrow> u32 \<Rightarrow> htif \<Rightarrow> htif \<times> htif_event list" where
  "htif_exit f payload axi s =
     (let (s, evs) =
        (if payload_has_hart_id f then hart_exit payload axi s
         else if pass_status payload then
           (s\<lparr> h_passed := h_passed s + 1 \<rparr>,
            Pass_exit axi # (if htif_eot f \<noteq> ''tohost_all'' then [Terminate True] else []))
         else (s\<lparr> h_failed := h_failed s + 1 \<rparr>, [Fail_exit axi]))
      in (s, evs @
        (if htif_eot f = ''tohost_all'' \<and> h_passed s + h_failed s = sint (num_harts f)
         then [Terminate (h_failed s = 0)] else [])))"

definition htif_write :: "htif_flags \<Rightarrow> write_t \<Rightarrow> htif \<Rightarrow> (htif \<times> htif_event list) option" where
  "htif_write f w s =
     (if wr_addr w mod 8 \<noteq> 0 then Some (s, [])
      else do {
        dword \<leftarrow> deserializeInt (wr_data w);
        let di = (wr_addr w - h_base s) div 8;
        if (di = 1) \<noteq> htif_flip f then Some (s\<lparr> h_from := dword \<rparr>, [])
        else
          let payload = drop_bit 16 (push_bit 16 dword);
              cmd = drop_bit 48 dword AND 0xff;
              dev = drop_bit 56 dword AND 0xff
          in
          if dev = 1 \<and> cmd = 1 then
            let c = ucast payload :: u8 in
            Some (s, if c \<noteq> 0 then (if htif_log f then [Log_char c] else []) @ [Put_char c] else [])
          else if dev = 1 \<and> cmd = 0 then
            if \<not> htif_pty f then
              let (ch, s1) = poll s in
              Some (if 0 < ch then s1\<lparr> h_from := push_bit 48 (drop_bit 48 payload) OR of_int ch \<rparr> else s1, [])
            else Some (s, [])
          else if dev = 0 \<and> cmd = 0 then Some (htif_exit f payload (wr_id w) s)
          else None
      })"

section \<open>The device contract\<close>

text \<open>A write is legal unless it sends the host a command it does not know.\<close>

definition htif_legal :: "write_t \<Rightarrow> bool" where
  "htif_legal w \<longleftrightarrow> bus_write w \<and> (case deserializeInt (wr_data w) :: u64 option of None \<Rightarrow> False
     | Some dword \<Rightarrow> (drop_bit 56 dword AND 0xff, drop_bit 48 dword AND 0xff) \<in> {(1, 1), (1, 0), (0, 0)})"

interpretation htif_dev: mmio_device "\<lambda>_. True" htif_legal "htif_read f" "htif_write f" for f
proof
  show "\<exists>data' s'. htif_read f r data s = Some (data', s') \<and> length data' = length data \<and> True"
    if "length data = rd_length r" for s data r
    using that by (auto simp: htif_read_def Let_def byte_simps case_prod_beta)
  show "\<exists>s' evs. htif_write f w s = Some (s', evs) \<and> True" if "htif_legal w" for s w
    using that by (auto simp: htif_write_def htif_legal_def Let_def case_prod_beta split: option.splits)
qed

section \<open>Exits of the harts\<close>

definition tohost_exit :: "u64 \<Rightarrow> u32 \<Rightarrow> u16 \<Rightarrow> u16 \<Rightarrow> write_t" where
  "tohost_exit addr axi hart status = \<lparr> wr_addr = addr, wr_length = 8,
     wr_data = map (byte_of (push_bit 16 (ucast hart) OR ucast status :: u64)) [0..<8],
     wr_strb = replicate 8 True, wr_id = axi \<rparr>"

fun htif_run :: "htif_flags \<Rightarrow> write_t list \<Rightarrow> htif \<Rightarrow> (htif \<times> htif_event list) option" where
  "htif_run f [] s = Some (s, [])"
| "htif_run f (w # ws) s = do {
     (s', evs) \<leftarrow> htif_write f w s;
     (s'', evs') \<leftarrow> htif_run f ws s';
     Some (s'', evs @ evs')
   }"

definition terminations :: "htif_event list \<Rightarrow> bool list" where
  "terminations evs = concat (map (\<lambda>e. case e of Terminate b \<Rightarrow> [b] | _ \<Rightarrow> []) evs)"

lemma bit_exit_word: "bit (push_bit 16 (ucast (h :: u16)) OR ucast (st :: u16) :: u64) n =
    (if n < 16 then bit st n else bit h (n - 16) \<and> n < 64)"
  by (auto simp: bit_or_iff bit_push_bit_iff bit_ucast_iff dest: bit_imp_le_length)

lemma mask_words: "(0xffff :: u64) = mask 16" "(0xff :: u64) = mask 8"
  by (simp_all add: mask_eq_exp_minus_1)

lemma exit_word:
  fixes h st :: u16
  defines "d \<equiv> push_bit 16 (ucast h) OR ucast st :: u64"
  shows "drop_bit 48 d AND 0xff = 0" "drop_bit 56 d AND 0xff = 0" "drop_bit 16 (push_bit 16 d) = d"
    "ucast (drop_bit 16 d AND 0xffff) = h" "d AND NOT (push_bit 16 0xffff) = ucast st"
proof -
  have b: "bit d n = (if n < 16 then bit st n else bit h (n - 16) \<and> n < 64)" for n
    by (simp only: d_def bit_exit_word)
  have z: "bit w n \<Longrightarrow> n < 16" for w :: u16 and n
    by (auto dest: bit_imp_le_length)
  note bs = bit_and_iff bit_drop_bit_eq comp_def bit_push_bit_iff bit_mask_iff bit_ucast_iff bit_not_iff
    possible_bit_word b bit_0_eq bot_apply bot_bool_def mask_words
  show "drop_bit 48 d AND 0xff = 0" "drop_bit 56 d AND 0xff = 0" "drop_bit 16 (push_bit 16 d) = d"
    "ucast (drop_bit 16 d AND 0xffff) = h" "d AND NOT (push_bit 16 0xffff) = ucast st"
    by (rule bit_word_eqI; auto simp only: bs split: if_splits; (frule z)?; simp)+
qed

lemma pass_status_ucast: "pass_status (ucast (st :: u16)) \<longleftrightarrow> st = 1"
proof -
  have "pass_status v \<longleftrightarrow> v = 1" for v
  proof
    assume "pass_status v"
    then have "v mod 2 \<noteq> 0" "v div 2 = 0"
      by (simp_all add: pass_status_def drop_bit_eq_div and_one_eq mod_2_eq_odd)
    then show "v = 1"
      using div_mult_mod_eq [of v 2] by (simp add: mod_2_eq_odd split: if_splits)
  qed (simp add: pass_status_def)
  have "unat st < 2 ^ LENGTH(16)"
    by (rule unsigned_less)
  then have "take_bit 64 (unat st) = unat st"
    by (simp add: take_bit_nat_eq_self)
  then have "(ucast st :: u64) = 1 \<longleftrightarrow> st = 1"
    by (simp add: word_unat_eq_iff unsigned_ucast_eq)
  with \<open>\<And>v. pass_status v \<longleftrightarrow> v = 1\<close> show ?thesis by blast
qed

text \<open>The bookkeeping when every hart exits at most once.\<close>

definition exits_ok :: "(u16 \<times> u16) list \<Rightarrow> htif \<Rightarrow> bool" where
  "exits_ok dn s \<longleftrightarrow> distinct (enabled_harts s) \<and> distinct (map fst dn) \<and> fst ` set dn \<subseteq> set (enabled_harts s) \<and>
     passed_harts s = map fst (filter (\<lambda>(h, st). st = 1) (rev dn)) \<and>
     failed_harts s = map fst (filter (\<lambda>(h, st). st \<noteq> 1) (rev dn))"

lemma exits_ok_total:
  "exits_ok dn s \<Longrightarrow> length (passed_harts s) + length (failed_harts s) = length dn"
  using sum_length_filter_compl [of "\<lambda>(h, st). st = 1" "rev dn"]
  by (simp add: exits_ok_def case_prod_unfold)

lemma hart_exit_step:
  fixes h st :: u16
  assumes ok: "exits_ok dn s" and h: "h \<in> set (enabled_harts s)" "h \<notin> fst ` set dn"
  defines "d \<equiv> push_bit 16 (ucast h) OR ucast st :: u64"
  shows "\<exists>s' e. hart_exit d axi s = (s', e # (if length (enabled_harts s) = Suc (length dn)
      then [Terminate (list_all (\<lambda>(h, st). st = 1) (dn @ [(h, st)]))] else [])) \<and>
    exits_ok (dn @ [(h, st)]) s' \<and> (e = Pass_exit axi \<or> e = Fail_exit axi) \<and>
    h_base s' = h_base s \<and> enabled_harts s' = enabled_harts s"
proof -
  note w = exit_word [of h st, folded d_def]
  have p: "pass_status (d AND NOT (push_bit 16 0xffff)) = (st = 1)"
    by (simp only: w pass_status_ucast)
  have n: "h \<notin> set (passed_harts s)" "h \<notin> set (failed_harts s)"
    using ok h(2) by (auto simp: exits_ok_def)
  have f: "failed_harts s = [] \<longleftrightarrow> list_all (\<lambda>(h, st). st = 1) dn"
    using ok by (auto simp: exits_ok_def filter_empty_conv list_all_iff)
  show ?thesis
    using ok h n f exits_ok_total [OF ok]
    by (cases "st = 1") (auto simp: hart_exit_def w(4) p [simplified] Let_def exits_ok_def)
qed

definition tohost_addr :: "htif_flags \<Rightarrow> htif \<Rightarrow> u64 \<Rightarrow> bool" where
  "tohost_addr f s addr \<longleftrightarrow> addr mod 8 = 0 \<and> ((addr - h_base s) div 8 = 1) = htif_flip f"

lemma htif_write_exit:
  assumes "payload_has_hart_id f" and "htif_eot f \<noteq> ''tohost_all''" and "tohost_addr f s addr"
  shows "htif_write f (tohost_exit addr axi h st) s =
    Some (hart_exit (push_bit 16 (ucast h) OR ucast st) axi s)"
proof -
  let ?d = "push_bit 16 (ucast h) OR ucast st :: u64"
  have "deserializeInt (map (byte_of ?d) [0..<8] @ []) = Some ?d"
    by (rule deserializeInt_bytes) simp_all
  then have "deserializeInt (wr_data (tohost_exit addr axi h st)) = Some ?d"
    by (simp add: tohost_exit_def)
  moreover have "wr_addr (tohost_exit addr axi h st) = addr" "wr_id (tohost_exit addr axi h st) = axi"
    by (simp_all add: tohost_exit_def)
  ultimately show ?thesis
    using assms exit_word [of h st]
    by (simp add: htif_write_def tohost_addr_def htif_exit_def Let_def case_prod_beta)
qed

lemma terminations_append: "terminations (xs @ ys) = terminations xs @ terminations ys"
  by (simp add: terminations_def)

lemma distinct_subset_length:
  assumes "distinct xs" and "set xs \<subseteq> set ys"
  shows "length xs \<le> length ys"
  using assms card_mono [OF finite_set assms(2)] card_length [of ys] by (simp add: distinct_card [symmetric])

lemma htif_run_exits:
  assumes "payload_has_hart_id f" and "htif_eot f \<noteq> ''tohost_all''" and "tohost_addr f s addr"
    and "exits_ok dn s" and "distinct (map fst (dn @ rest))" and "fst ` set (dn @ rest) \<subseteq> set (enabled_harts s)"
  shows "\<exists>s' evs. htif_run f (map (\<lambda>(h, st). tohost_exit addr axi h st) rest) s = Some (s', evs) \<and>
    terminations evs = (if rest \<noteq> [] \<and> length (enabled_harts s) = length (dn @ rest)
      then [list_all (\<lambda>(h, st). st = 1) (dn @ rest)] else [])"
  using assms(3-)
proof (induction rest arbitrary: dn s)
  case Nil
  then show ?case
    by (simp add: terminations_def)
next
  case (Cons x rest)
  obtain h st where x: "x = (h, st)"
    by (cases x)
  have "h \<in> set (enabled_harts s)" "h \<notin> fst ` set dn"
    using Cons.prems by (auto simp: x)
  from hart_exit_step [OF Cons.prems(2) this, of st axi] obtain s1 e where
    s1: "hart_exit (push_bit 16 (ucast h) OR ucast st) axi s = (s1, e # (if length (enabled_harts s) = Suc (length dn)
        then [Terminate (list_all (\<lambda>(h, st). st = 1) (dn @ [(h, st)]))] else []))"
      "exits_ok (dn @ [(h, st)]) s1" "e = Pass_exit axi \<or> e = Fail_exit axi"
      "h_base s1 = h_base s" "enabled_harts s1 = enabled_harts s"
    by auto
  have "length (dn @ x # rest) \<le> length (enabled_harts s)"
    by (rule distinct_subset_length [OF Cons.prems(3), of "enabled_harts s", simplified length_map set_map])
      (rule Cons.prems(4))
  moreover have "tohost_addr f s1 addr"
    using Cons.prems(1) s1(4) by (simp add: tohost_addr_def)
  moreover obtain s2 evs where "htif_run f (map (\<lambda>(h, st). tohost_exit addr axi h st) rest) s1 = Some (s2, evs)"
    "terminations evs = (if rest \<noteq> [] \<and> length (enabled_harts s1) = length (dn @ x # rest)
      then [list_all (\<lambda>(h, st). st = 1) (dn @ x # rest)] else [])"
    using Cons.IH [of s1 "dn @ [(h, st)]"] \<open>tohost_addr f s1 addr\<close> s1(2,5) Cons.prems(3,4) by (auto simp: x)
  ultimately show ?case
    using s1 htif_write_exit [OF assms(1,2) Cons.prems(1), of axi h st]
    by (cases "rest = []") (auto simp: x terminations_def)
qed

lemma insert_all_distinct: "insert_all ts hs = Some hs' \<Longrightarrow> distinct hs \<Longrightarrow> distinct hs'"
  by (induction ts arbitrary: hs) (auto split: Option.bind_splits)

text \<open>
  C17: With hart ids in the payload, the simulation ends exactly when the last enabled hart
  has exited.  If enabled harts write their exit codes, each at most once and in any order, no
  termination is requested while one of them is missing, and the write of the last one
  requests exactly one termination, reported as passed if and only if every exit code
  is 1.
\<close>
theorem terminates_with_last_hart:
  assumes "payload_has_hart_id f" and "htif_eot f \<noteq> ''tohost_all''" and new: "htif_new f base console = Some s"
    and "tohost_addr f s addr" and "exits \<noteq> []" and d: "distinct (map fst exits)"
    and sub: "fst ` set exits \<subseteq> set (enabled_harts s)"
  shows "\<exists>s' evs. htif_run f (map (\<lambda>(h, st). tohost_exit addr axi h st) exits) s = Some (s', evs) \<and>
    terminations evs = (if fst ` set exits = set (enabled_harts s)
      then [list_all (\<lambda>(h, st). st = 1) exits] else [])"
proof -
  have ok: "exits_ok [] s"
    using new insert_all_distinct by (auto simp: htif_new_def exits_ok_def split: Option.bind_splits if_splits)
  then have "distinct (enabled_harts s)"
    by (simp add: exits_ok_def)
  then have "length (enabled_harts s) = card (set (enabled_harts s))" "length exits = card (fst ` set exits)"
    using distinct_card d by (fastforce simp: distinct_card [symmetric])+
  then have "length (enabled_harts s) = length exits \<longleftrightarrow> fst ` set exits = set (enabled_harts s)"
    using sub card_subset_eq [of "set (enabled_harts s)" "fst ` set exits"] by auto
  moreover from htif_run_exits [OF assms(1,2,4) ok, of exits axi] d sub obtain s' evs where
    "htif_run f (map (\<lambda>(h, st). tohost_exit addr axi h st) exits) s = Some (s', evs)"
    "terminations evs = (if exits \<noteq> [] \<and> length (enabled_harts s) = length exits
      then [list_all (\<lambda>(h, st). st = 1) exits] else [])"
    by auto
  ultimately show ?thesis
    using assms(5) by auto
qed

definition sample_htif_flags :: htif_flags where
  "sample_htif_flags = \<lparr> htif_flip = False, htif_log = True, htif_pty = False, payload_has_hart_id = True,
     hart_enable_id = ''0,1'', htif_eot = ''tohost'', num_harts = 2 \<rparr>"

lemma sample_htif_new:
  "htif_new sample_htif_flags 0x70000000 [] = Some \<lparr> h_base = 0x70000000, h_to = 0, h_from = 0, h_console = [],
     h_passed = 0, h_failed = 0, enabled_harts = [1, 0], passed_harts = [], failed_harts = [] \<rparr>"
  by code_simp

theorem terminates_with_last_hart_witness:
  "\<exists>s s' evs. htif_new sample_htif_flags 0x70000000 [] = Some s \<and>
    htif_run sample_htif_flags [tohost_exit 0x70000000 7 1 1, tohost_exit 0x70000000 7 0 5] s = Some (s', evs) \<and>
    terminations evs = [False]"
proof -
  have "payload_has_hart_id sample_htif_flags" "htif_eot sample_htif_flags \<noteq> ''tohost_all''"
    by (simp_all add: sample_htif_flags_def)
  from terminates_with_last_hart [OF this sample_htif_new, of "0x70000000" "[(1, 1), (0, 5)]" 7] show ?thesis
    unfolding sample_htif_new by (simp add: tohost_addr_def sample_htif_flags_def insert_commute)
qed

text \<open>
  The accounting counts exits, not harts: with harts 0 and 1 enabled, hart 0 alone can
  end the simulation by exiting twice, once with each verdict, although hart 1 has not
  exited.
\<close>
lemma one_hart_ends_simulation:
  "map_option (\<lambda>(s, evs). (passed_harts s, failed_harts s, terminations evs))
     (Option.bind (htif_new sample_htif_flags 0x70000000 [])
       (htif_run sample_htif_flags [tohost_exit 0x70000000 7 0 1, tohost_exit 0x70000000 7 0 3])) =
   Some ([0], [0], [False])"
proof -
  note flags = sample_htif_flags_def tohost_addr_def
  have x: "htif_write sample_htif_flags (tohost_exit 0x70000000 7 0 st) s =
      Some (hart_exit (push_bit 16 (ucast (0 :: u16)) OR ucast st) 7 s)" if "h_base s = 0x70000000" for st s
    using that by (intro htif_write_exit) (simp_all add: flags)
  have p: "pass_status 1" "\<not> pass_status 3"
    by (simp_all add: pass_status_def)
  show ?thesis
    by (simp add: sample_htif_new x hart_exit_def Let_def p terminations_def)
qed

end
