(* ===== verification/MemDevice.thy ===== *)
theory MemDevice
  imports Device Strings
begin

text \<open>
  The memory devices \<^verbatim>\<open>sysmod/mem\<close> and \<^verbatim>\<open>sysmod/io_dev\<close> and the ELF loader.  The page
  store behind them (\<^verbatim>\<open>mem_manager\<close>) is a library: its functions are the fields of the
  parameter \<^verbatim>\<open>mem_manager\<close>, and \<^verbatim>\<open>mem_laws\<close> states the byte store behaviour the
  devices rely on.
\<close>

section \<open>Model\<close>

record 'm mem_manager =
  mm_read :: "u64 \<Rightarrow> nat \<Rightarrow> 'm \<Rightarrow> data_t"
  mm_write :: "u64 \<Rightarrow> data_t \<Rightarrow> 'm \<Rightarrow> 'm"
  mm_load_ELF :: "string \<Rightarrow> 'm \<Rightarrow> 'm option"
  mm_load_verilog_hex :: "string \<Rightarrow> 'm \<Rightarrow> 'm option"
  mm_load_lz4 :: "string \<Rightarrow> u64 \<Rightarrow> 'm \<Rightarrow> 'm option"
  mm_load_bin :: "string \<Rightarrow> u64 \<Rightarrow> 'm \<Rightarrow> 'm option"

fun write_loop :: "'m mem_manager \<Rightarrow> u64 \<Rightarrow> data_t \<Rightarrow> strb_t \<Rightarrow> nat \<Rightarrow> nat \<Rightarrow> 'm \<Rightarrow> 'm option" where
  "write_loop mm addr data strb i 0 m = Some m"
| "write_loop mm addr data strb i (Suc k) m = do {
     s \<leftarrow> vec_get strb i;
     m' \<leftarrow> (if s then do { b \<leftarrow> vec_get data i; Some (mm_write mm (addr + of_nat i) [b] m) } else Some m);
     write_loop mm addr data strb (Suc i) k m'
   }"

definition mem_write :: "'m mem_manager \<Rightarrow> write_t \<Rightarrow> 'm \<Rightarrow> ('m \<times> unit list) option" where
  "mem_write mm w m = do {
     m' \<leftarrow> write_loop mm (wr_addr w) (wr_data w) (wr_strb w) 0 (wr_length w) m;
     Some (m', [])
   }"

definition mem_read :: "'m mem_manager \<Rightarrow> read_t \<Rightarrow> data_t \<Rightarrow> 'm \<Rightarrow> (data_t \<times> 'm) option" where
  "mem_read mm r data m =
     (if rd_length r \<le> length data
      then Some (mm_read mm (rd_addr r) (rd_length r) m @ drop (rd_length r) data, m) else None)"

definition mem_backdoor_write :: "'m mem_manager \<Rightarrow> u64 \<Rightarrow> nat \<Rightarrow> data_t \<Rightarrow> strb_t \<Rightarrow> 'm \<Rightarrow> 'm option" where
  "mem_backdoor_write mm addr len data strb m = write_loop mm addr data strb 0 len m"

definition mem_backdoor_read :: "'m mem_manager \<Rightarrow> u64 \<Rightarrow> nat \<Rightarrow> data_t \<Rightarrow> 'm \<Rightarrow> data_t option" where
  "mem_backdoor_read mm addr len data m =
     (if len \<le> length data then Some (mm_read mm addr len m @ drop len data) else None)"

definition io_dev_write :: "'m mem_manager \<Rightarrow> write_t \<Rightarrow> 'm \<Rightarrow> ('m \<times> unit list) option" where
  "io_dev_write mm w m = do {
     m' \<leftarrow> write_loop mm (wr_addr w) (wr_data w) (wr_strb w) 0 (wr_length w) m;
     Some (m', [])
   }"

definition io_dev_read :: "'m mem_manager \<Rightarrow> read_t \<Rightarrow> data_t \<Rightarrow> 'm \<Rightarrow> (data_t \<times> 'm) option" where
  "io_dev_read mm r data m =
     (if rd_length r \<le> length data
      then Some (mm_read mm (rd_addr r) (rd_length r) m @ drop (rd_length r) data, m) else None)"

definition try_load :: "('m \<Rightarrow> 'm option) \<Rightarrow> 'm \<Rightarrow> bool \<times> 'm" where
  "try_load f m = (case f m of None \<Rightarrow> (False, m) | Some m' \<Rightarrow> (True, m'))"

definition init_hex :: "'m mem_manager \<Rightarrow> string \<Rightarrow> 'm \<Rightarrow> bool \<times> 'm" where
  "init_hex mm path = try_load (mm_load_verilog_hex mm path)"

definition init_lz4 :: "'m mem_manager \<Rightarrow> string \<Rightarrow> u64 \<Rightarrow> 'm \<Rightarrow> bool \<times> 'm" where
  "init_lz4 mm path offset = try_load (mm_load_lz4 mm path offset)"

definition init_bin :: "'m mem_manager \<Rightarrow> string \<Rightarrow> u64 \<Rightarrow> 'm \<Rightarrow> bool \<times> 'm" where
  "init_bin mm path offset = try_load (mm_load_bin mm path offset)"

definition io_dev_init_elf :: "'m mem_manager \<Rightarrow> string \<Rightarrow> 'm \<Rightarrow> bool \<times> 'm" where
  "io_dev_init_elf mm path = try_load (mm_load_ELF mm path)"

section \<open>The ELF loader\<close>

text \<open>
  The two instances of the loader template, by the sizes and field positions of the
  header structures of \<^verbatim>\<open>elf.h\<close>; a field is a position and a number of bytes.
\<close>

record elf_layout =
  ehdr_size :: nat
  e_phoff :: "nat \<times> nat"
  e_phentsize :: "nat \<times> nat"
  e_phnum :: "nat \<times> nat"
  phdr_size :: nat
  p_type :: "nat \<times> nat"
  p_offset :: "nat \<times> nat"
  p_paddr :: "nat \<times> nat"
  p_filesz :: "nat \<times> nat"

definition elf64 :: elf_layout where
  "elf64 = \<lparr> ehdr_size = 64, e_phoff = (32, 8), e_phentsize = (54, 2), e_phnum = (56, 2), phdr_size = 56,
     p_type = (0, 4), p_offset = (8, 8), p_paddr = (24, 8), p_filesz = (32, 8) \<rparr>"

definition elf32 :: elf_layout where
  "elf32 = \<lparr> ehdr_size = 52, e_phoff = (28, 4), e_phentsize = (42, 2), e_phnum = (44, 2), phdr_size = 32,
     p_type = (0, 4), p_offset = (4, 4), p_paddr = (12, 4), p_filesz = (16, 4) \<rparr>"

definition get_field :: "data_t \<Rightarrow> nat \<Rightarrow> nat \<times> nat \<Rightarrow> u64 option" where
  "get_field buf off f = deserialize_loop (drop (off + fst f) buf) 0 (snd f) 0"

fun load_segments :: "elf_layout \<Rightarrow> 'm mem_manager \<Rightarrow> data_t \<Rightarrow> u64 \<Rightarrow> u64 \<Rightarrow> nat \<Rightarrow> nat \<Rightarrow> 'm \<Rightarrow> (bool \<times> 'm) option" where
  "load_segments L mm buf phoff phentsize i 0 m = Some (True, m)"
| "load_segments L mm buf phoff phentsize i (Suc k) m =
     (let off = phoff + of_nat i * phentsize; size = of_nat (length buf) in
      if size < off + of_nat (phdr_size L) then Some (False, m)
      else if length buf < unat off + phdr_size L then None
      else do {
        ptype \<leftarrow> get_field buf (unat off) (p_type L);
        poffset \<leftarrow> get_field buf (unat off) (p_offset L);
        paddr \<leftarrow> get_field buf (unat off) (p_paddr L);
        filesz \<leftarrow> get_field buf (unat off) (p_filesz L);
        if ptype \<noteq> 1 \<or> filesz = 0 then load_segments L mm buf phoff phentsize (Suc i) k m
        else if size < poffset + filesz then Some (False, m)
        else if length buf < unat poffset + unat filesz then None
        else load_segments L mm buf phoff phentsize (Suc i) k
          (mm_write mm paddr (take (unat filesz) (drop (unat poffset) buf)) m)
      })"

definition load_elf_pt_load :: "elf_layout \<Rightarrow> 'm mem_manager \<Rightarrow> data_t \<Rightarrow> 'm \<Rightarrow> (bool \<times> 'm) option" where
  "load_elf_pt_load L mm buf m =
     (if length buf < ehdr_size L then Some (False, m)
      else do {
        phoff \<leftarrow> get_field buf 0 (e_phoff L);
        phnum \<leftarrow> get_field buf 0 (e_phnum L);
        phentsize \<leftarrow> get_field buf 0 (e_phentsize L);
        if phoff = 0 \<or> phnum = 0 \<or> phentsize < of_nat (phdr_size L) then Some (False, m)
        else load_segments L mm buf phoff phentsize 0 (unat phnum) m
      })"

definition init_elf :: "'m mem_manager \<Rightarrow> (string \<Rightarrow> data_t option) \<Rightarrow> string \<Rightarrow> 'm \<Rightarrow> (bool \<times> 'm) option" where
  "init_elf mm file path m = do {
     (ok, m) \<leftarrow> (case file path of
         None \<Rightarrow> Some (False, m)
       | Some buf \<Rightarrow>
           if 16 \<le> length buf \<and> take 4 buf = [0x7f, 0x45, 0x4c, 0x46] \<and> buf ! 5 = 1 then
             (if buf ! 4 = 2 then load_elf_pt_load elf64 mm buf m
              else if buf ! 4 = 1 then load_elf_pt_load elf32 mm buf m
              else Some (False, m))
           else Some (False, m));
     Some (if ok then (True, m) else try_load (mm_load_ELF mm path) m)
   }"

section \<open>The byte store\<close>

definition mem_at :: "'m mem_manager \<Rightarrow> 'm \<Rightarrow> u64 \<Rightarrow> u8" where
  "mem_at mm m a = mm_read mm a 1 m ! 0"

definition mem_laws :: "'m mem_manager \<Rightarrow> bool" where
  "mem_laws mm \<longleftrightarrow>
     (\<forall>a n m. mm_read mm a n m = map (\<lambda>i. mem_at mm m (a + of_nat i)) [0..<n]) \<and>
     (\<forall>a d m b. length d \<le> 2 ^ 64 \<longrightarrow> mem_at mm (mm_write mm a d m) b =
        (if unat (b - a) < length d then d ! unat (b - a) else mem_at mm m b))"

lemma mem_laws_read: "mem_laws mm \<Longrightarrow> mm_read mm a n m = map (\<lambda>i. mem_at mm m (a + of_nat i)) [0..<n]"
  by (simp add: mem_laws_def)

lemma mem_laws_write:
  "mem_laws mm \<Longrightarrow> length d \<le> 2 ^ 64 \<Longrightarrow> mem_at mm (mm_write mm a d m) b =
    (if unat (b - a) < length d then d ! unat (b - a) else mem_at mm m b)"
  by (simp add: mem_laws_def)

lemma mem_laws_byte:
  assumes "mem_laws mm"
  shows "mem_at mm (mm_write mm a [x] m) b = (if b = a then x else mem_at mm m b)"
proof -
  have "unat (b - a) < 1 \<longleftrightarrow> b = a"
    by (simp add: unsigned_eq_0_iff)
  with mem_laws_write [OF assms, of "[x]" a m b] show ?thesis
    by auto
qed

lemma write_loop_mem:
  assumes laws: "mem_laws mm" and "i + k \<le> length strb" and "i + k \<le> length data" and "i + k \<le> 2 ^ 64"
  shows "\<exists>m'. write_loop mm addr data strb i k m = Some m' \<and>
    (\<forall>b. mem_at mm m' b = (let j = unat (b - addr) in
       if i \<le> j \<and> j < i + k \<and> strb ! j then data ! j else mem_at mm m b))"
  using assms(2-)
proof (induction k arbitrary: i m)
  case 0
  then show ?case
    by (auto simp: Let_def)
next
  case (Suc k)
  let ?m = "if strb ! i then mm_write mm (addr + of_nat i) [data ! i] m else m"
  have i: "unat (of_nat i :: u64) = i"
    using Suc.prems by (simp add: unat_of_nat_less)
  have eq: "b = addr + of_nat i \<longleftrightarrow> unat (b - addr) = i" for b
  proof -
    have "b = addr + of_nat i \<longleftrightarrow> b - addr = of_nat i"
      by (auto simp: algebra_simps)
    also have "\<dots> \<longleftrightarrow> unat (b - addr) = i"
      using i by (simp only: word_unat_eq_iff)
    finally show ?thesis .
  qed
  from Suc.IH [of "Suc i" ?m] Suc.prems obtain m' where
    m': "write_loop mm addr data strb (Suc i) k ?m = Some m'"
      "\<And>b. mem_at mm m' b = (let j = unat (b - addr) in
         if Suc i \<le> j \<and> j < Suc i + k \<and> strb ! j then data ! j else mem_at mm ?m b)"
    by auto
  have "mem_at mm m' b = (let j = unat (b - addr) in
      if i \<le> j \<and> j < i + Suc k \<and> strb ! j then data ! j else mem_at mm m b)" for b
    using m'(2) [of b] eq [of b] by (auto simp: Let_def mem_laws_byte [OF laws])
  moreover have "write_loop mm addr data strb i (Suc k) m = Some m'"
    using m'(1) Suc.prems by (cases "strb ! i") simp_all
  ultimately show ?case
    by blast
qed

definition sized_write :: "write_t \<Rightarrow> bool" where
  "sized_write w \<longleftrightarrow> wr_length w \<le> length (wr_strb w) \<and> wr_length w \<le> length (wr_data w) \<and> wr_length w \<le> 2 ^ 64"

lemma mem_write_ok:
  assumes "mem_laws mm" and "sized_write w"
  shows "\<exists>m'. mem_write mm w m = Some (m', []) \<and> (\<forall>b. mem_at mm m' b = (let j = unat (b - wr_addr w) in
      if j < wr_length w \<and> wr_strb w ! j then wr_data w ! j else mem_at mm m b))"
  using write_loop_mem [OF assms(1), of 0 "wr_length w" "wr_strb w" "wr_data w" "wr_addr w" m] assms(2)
  by (auto simp: mem_write_def sized_write_def)

interpretation mem_dev: mmio_device "\<lambda>_. mem_laws mm" sized_write "mem_read mm" "mem_write mm" for mm
proof
  show "\<exists>data' m'. mem_read mm r data m = Some (data', m') \<and> length data' = length data \<and> mem_laws mm"
    if "mem_laws mm" "length data = rd_length r" for m data r
    using that by (simp add: mem_read_def mem_laws_read)
  show "\<exists>m' evs. mem_write mm w m = Some (m', evs) \<and> mem_laws mm" if "mem_laws mm" "sized_write w" for m w
    using mem_write_ok [OF that, of m] that(1) by blast
qed

text \<open>
  C7: Memory is a byte store under strobes.  After a bus write, a bus read of any window
  is answered with the written byte at every address of the write whose strobe is set, and
  with the old byte at every other address; the request id is returned unchanged.
\<close>
theorem memory_write_read:
  assumes "mem_laws mm" and "sized_write w"
  shows "\<exists>m' resp. mem_write mm w m = Some (m', []) \<and> serve_read (mem_read mm) r m' = Some (resp, m') \<and>
    rr_id resp = rd_id r \<and> length (rr_data resp) = rd_length r \<and>
    (\<forall>i < rd_length r. rr_data resp ! i = (let a = rd_addr r + of_nat i; j = unat (a - wr_addr w) in
       if j < wr_length w \<and> wr_strb w ! j then wr_data w ! j else mem_at mm m a))"
  using mem_write_ok [OF assms, of m] assms(1)
  by (auto simp: serve_read_def mem_read_def mem_laws_read Let_def)

definition fun_mem :: "(u64 \<Rightarrow> u8) mem_manager" where
  "fun_mem = \<lparr> mm_read = (\<lambda>a n m. map (\<lambda>i. m (a + of_nat i)) [0..<n]),
     mm_write = (\<lambda>a d m b. if unat (b - a) < length d then d ! unat (b - a) else m b),
     mm_load_ELF = (\<lambda>_ _. None), mm_load_verilog_hex = (\<lambda>_ _. None),
     mm_load_lz4 = (\<lambda>_ _ _. None), mm_load_bin = (\<lambda>_ _ _. None) \<rparr>"

lemma fun_mem_laws: "mem_laws fun_mem"
  by (simp add: mem_laws_def fun_mem_def mem_at_def)

theorem memory_write_read_witness:
  "\<exists>m' resp. mem_write fun_mem \<lparr> wr_addr = 0x1000, wr_length = 2, wr_data = [7, 8], wr_strb = [True, False], wr_id = 0 \<rparr>
      (\<lambda>_. 1) = Some (m', []) \<and>
    serve_read (mem_read fun_mem) \<lparr> rd_id = 3, rd_addr = 0xfff, rd_length = 4 \<rparr> m' = Some (resp, m') \<and>
    rr_id resp = 3 \<and> length (rr_data resp) = 4 \<and> rr_data resp ! 1 = 7 \<and> rr_data resp ! 2 = 1"
  using memory_write_read [OF fun_mem_laws, of
      "\<lparr> wr_addr = 0x1000, wr_length = 2, wr_data = [7, 8], wr_strb = [True, False], wr_id = 0 \<rparr>" "\<lambda>_. 1"
      "\<lparr> rd_id = 3, rd_addr = 0xfff, rd_length = 4 \<rparr>"]
  by (auto simp: sized_write_def fun_mem_def mem_at_def Let_def)

section \<open>Program images\<close>

text \<open>
  A reference reading of an image: the loadable segments in header order, over natural
  number offsets.
\<close>

definition field_of :: "data_t \<Rightarrow> nat \<Rightarrow> nat \<times> nat \<Rightarrow> u64" where
  "field_of buf off f = the (get_field buf off f)"

definition loadable :: "elf_layout \<Rightarrow> data_t \<Rightarrow> nat \<Rightarrow> bool" where
  "loadable L buf off \<longleftrightarrow> field_of buf off (p_type L) = 1 \<and> field_of buf off (p_filesz L) \<noteq> 0"

definition phdr_ok :: "elf_layout \<Rightarrow> data_t \<Rightarrow> nat \<Rightarrow> bool" where
  "phdr_ok L buf off \<longleftrightarrow> off + phdr_size L \<le> length buf \<and> (loadable L buf off \<longrightarrow>
     unat (field_of buf off (p_offset L)) + unat (field_of buf off (p_filesz L)) \<le> length buf)"

definition segment :: "elf_layout \<Rightarrow> data_t \<Rightarrow> nat \<Rightarrow> u64 \<times> data_t" where
  "segment L buf off = (field_of buf off (p_paddr L),
     take (unat (field_of buf off (p_filesz L))) (drop (unat (field_of buf off (p_offset L))) buf))"

definition phdrs :: "elf_layout \<Rightarrow> data_t \<Rightarrow> nat list" where
  "phdrs L buf = map (\<lambda>i. unat (field_of buf 0 (e_phoff L)) + i * unat (field_of buf 0 (e_phentsize L)))
     [0..<unat (field_of buf 0 (e_phnum L))]"

definition segments :: "elf_layout \<Rightarrow> data_t \<Rightarrow> (u64 \<times> data_t) list" where
  "segments L buf = map (segment L buf) (filter (loadable L buf) (phdrs L buf))"

definition image_ok :: "elf_layout \<Rightarrow> data_t \<Rightarrow> bool" where
  "image_ok L buf \<longleftrightarrow> ehdr_size L \<le> length buf \<and> length buf < 2 ^ 63 \<and> field_of buf 0 (e_phoff L) \<noteq> 0 \<and>
     field_of buf 0 (e_phnum L) \<noteq> 0 \<and> of_nat (phdr_size L) \<le> field_of buf 0 (e_phentsize L) \<and>
     list_all (phdr_ok L buf) (phdrs L buf)"

definition writes :: "'m mem_manager \<Rightarrow> (u64 \<times> data_t) list \<Rightarrow> 'm \<Rightarrow> 'm" where
  "writes mm segs m = fold (\<lambda>(a, d). mm_write mm a d) segs m"

lemma get_field_of:
  assumes "off + fst f + snd f \<le> length buf"
  shows "get_field buf off f = Some (field_of buf off f)"
proof -
  have "0 + snd f \<le> length (drop (off + fst f) buf)"
    using assms by simp
  from bit_deserialize_loop [OF this, of "0 :: u64"] obtain y where
    "deserialize_loop (drop (off + fst f) buf) 0 (snd f) 0 = Some (y :: u64)"
    by blast
  then show ?thesis
    by (simp only: field_of_def get_field_def option.sel)
qed

lemma layout_fields:
  assumes "L \<in> {elf32, elf64}"
  shows "f \<in> {p_type L, p_offset L, p_paddr L, p_filesz L} \<Longrightarrow> fst f + snd f \<le> phdr_size L"
    "g \<in> {e_phoff L, e_phentsize L, e_phnum L} \<Longrightarrow> fst g + snd g \<le> ehdr_size L"
proof -
  have "L = elf32 \<or> L = elf64"
    using assms by simp
  then show "f \<in> {p_type L, p_offset L, p_paddr L, p_filesz L} \<Longrightarrow> fst f + snd f \<le> phdr_size L"
    "g \<in> {e_phoff L, e_phentsize L, e_phnum L} \<Longrightarrow> fst g + snd g \<le> ehdr_size L"
    by (elim disjE insertE emptyE; simp add: elf32_def elf64_def)+
qed

lemma get_phdr_field:
  assumes "L \<in> {elf32, elf64}" and "off + phdr_size L \<le> length buf"
    and "f \<in> {p_type L, p_offset L, p_paddr L, p_filesz L}"
  shows "get_field buf off f = Some (field_of buf off f)"
  using layout_fields(1) [OF assms(1,3)] assms(2) by (intro get_field_of) linarith

lemma get_ehdr_field:
  assumes "L \<in> {elf32, elf64}" and "ehdr_size L \<le> length buf" and "f \<in> {e_phoff L, e_phentsize L, e_phnum L}"
  shows "get_field buf 0 f = Some (field_of buf 0 f)"
  using layout_fields(2) [OF assms(1,3)] assms(2) by (intro get_field_of) linarith

lemma unat_sum_le:
  fixes a b :: u64
  assumes "unat a + unat b \<le> n" and "n < 2 ^ 63"
  shows "unat (a + b) = unat a + unat b" "\<not> of_nat n < a + b"
proof -
  show s: "unat (a + b) = unat a + unat b"
    using assms by (intro unat_add_less) simp
  show "\<not> of_nat n < a + b"
    using assms by (simp add: word_less_nat_alt s unat_of_nat_less)
qed

lemma phdr_offset:
  fixes phoff phent :: u64
  assumes "unat phoff + i * unat phent + sz \<le> n" and "n < 2 ^ 63" and "i < 2 ^ 63"
  shows "unat (phoff + of_nat i * phent) = unat phoff + i * unat phent"
    "\<not> of_nat n < phoff + of_nat i * phent + of_nat sz"
proof -
  have i: "unat (of_nat i :: u64) = i" and z: "unat (of_nat sz :: u64) = sz"
    using assms by (simp_all add: unat_of_nat_less)
  have m: "unat (of_nat i * phent) = i * unat phent"
    using assms i unat_mult_less [of "of_nat i" phent] by simp
  show o: "unat (phoff + of_nat i * phent) = unat phoff + i * unat phent"
    using assms m by (subst unat_sum_le(1) [of _ _ n]) simp_all
  show "\<not> of_nat n < phoff + of_nat i * phent + of_nat sz"
    using assms o z by (intro unat_sum_le(2)) simp_all
qed

lemma load_segments_eq:
  fixes phoff phent :: u64
  assumes L: "L \<in> {elf32, elf64}" and n: "length buf < 2 ^ 63" and "i + k < 2 ^ 63"
    and "list_all (phdr_ok L buf) (map (\<lambda>j. unat phoff + j * unat phent) [i..<i + k])"
  shows "load_segments L mm buf phoff phent i k m = Some (True, writes mm (map (segment L buf)
    (filter (loadable L buf) (map (\<lambda>j. unat phoff + j * unat phent) [i..<i + k]))) m)"
  using assms(3,4)
proof (induction k arbitrary: i m)
  case 0
  then show ?case
    by (simp add: writes_def)
next
  case (Suc k)
  let ?off = "unat phoff + i * unat phent"
  have u: "[i..<i + Suc k] = i # [Suc i..<Suc i + k]"
    by (simp add: upt_conv_Cons)
  have ok: "phdr_ok L buf ?off" and rest: "list_all (phdr_ok L buf) (map (\<lambda>j. unat phoff + j * unat phent) [Suc i..<Suc i + k])"
    using Suc.prems(2) unfolding u by (simp_all only: list.map list.pred_inject)
  then have in_buf: "?off + phdr_size L \<le> length buf"
    by (simp add: phdr_ok_def)
  note o = phdr_offset [OF in_buf n, of]
  note f = get_phdr_field [OF L in_buf]
  have i: "i < 2 ^ 63"
    using Suc.prems(1) by simp
  let ?off' = "field_of buf ?off (p_offset L)" and ?sz = "field_of buf ?off (p_filesz L)"
  have data: "\<not> of_nat (length buf) < ?off' + ?sz" "\<not> length buf < unat ?off' + unat ?sz" if "loadable L buf ?off"
    using ok that unat_sum_le(2) [OF _ n, of ?off' ?sz] by (simp_all add: phdr_ok_def)
  have step: "load_segments L mm buf phoff phent i (Suc k) m = load_segments L mm buf phoff phent (Suc i) k
      (if loadable L buf ?off then mm_write mm (fst (segment L buf ?off)) (snd (segment L buf ?off)) m else m)"
  proof -
    note head = data o(1) [OF i] o(2) [OF i] in_buf
    consider "loadable L buf ?off" | "field_of buf ?off (p_type L) \<noteq> 1" | "?sz = 0"
      by (auto simp: loadable_def)
    then show ?thesis
    proof cases
      case 1
      then have "field_of buf ?off (p_type L) = 1" "?sz \<noteq> 0"
        by (simp_all add: loadable_def)
      with 1 head show ?thesis
        by (simp add: Let_def f segment_def)
    next
      case 2
      with head show ?thesis
        by (simp add: Let_def f loadable_def)
    next
      case 3
      with head show ?thesis
        by (simp add: Let_def f loadable_def)
    qed
  qed
  have "Suc i + k < 2 ^ 63"
    using Suc.prems(1) by simp
  from Suc.IH [OF this rest] show ?case
    unfolding step u by (simp only: list.map filter.simps) (simp add: writes_def case_prod_beta)
qed

lemma load_elf_eq:
  assumes L: "L \<in> {elf32, elf64}" and ok: "image_ok L buf" and few: "unat (field_of buf 0 (e_phnum L)) < 2 ^ 63"
  shows "load_elf_pt_load L mm buf m = Some (True, writes mm (segments L buf) m)"
proof -
  let ?phoff = "field_of buf 0 (e_phoff L)" and ?phent = "field_of buf 0 (e_phentsize L)"
  have h: "ehdr_size L \<le> length buf" and n: "length buf < 2 ^ 63"
    and c: "?phoff \<noteq> 0" "field_of buf 0 (e_phnum L) \<noteq> 0" "\<not> ?phent < of_nat (phdr_size L)"
    and p: "list_all (phdr_ok L buf) (phdrs L buf)"
    using ok by (simp_all add: image_ok_def not_less)
  have "load_segments L mm buf ?phoff ?phent 0 (unat (field_of buf 0 (e_phnum L))) m =
      Some (True, writes mm (segments L buf) m)"
    using load_segments_eq [OF L n, of 0 "unat (field_of buf 0 (e_phnum L))" ?phoff ?phent mm m] few p
    by (simp add: segments_def phdrs_def)
  then show ?thesis
    using h c by (simp add: load_elf_pt_load_def get_ehdr_field [OF L h])
qed

definition byte_in :: "u64 \<times> data_t \<Rightarrow> u64 \<Rightarrow> bool" where
  "byte_in seg b \<longleftrightarrow> unat (b - fst seg) < length (snd seg)"

lemma writes_outside:
  assumes "mem_laws mm" and "\<forall>s \<in> set segs. length (snd s) \<le> 2 ^ 64 \<and> \<not> byte_in s b"
  shows "mem_at mm (writes mm segs m) b = mem_at mm m b"
  using assms(2)
proof (induction segs arbitrary: m)
  case (Cons s segs)
  then show ?case
    by (cases s) (simp add: writes_def byte_in_def mem_laws_write [OF assms(1)])
qed (simp add: writes_def)

lemma writes_last:
  assumes "mem_laws mm" and "\<forall>s \<in> set (xs @ s # ys). length (snd s) \<le> 2 ^ 64"
    and "byte_in s b" and "\<forall>t \<in> set ys. \<not> byte_in t b"
  shows "mem_at mm (writes mm (xs @ s # ys) m) b = snd s ! unat (b - fst s)"
proof -
  have "writes mm (xs @ s # ys) m = writes mm ys (mm_write mm (fst s) (snd s) (writes mm xs m))"
    by (cases s) (simp add: writes_def)
  then show ?thesis
    using writes_outside [OF assms(1), of ys b] assms(2-4) by (simp add: mem_laws_write [OF assms(1)] byte_in_def)
qed

lemma segments_short:
  assumes "image_ok L buf" and "s \<in> set (segments L buf)"
  shows "length (snd s) \<le> 2 ^ 64"
proof -
  from assms(2) obtain off where "s = segment L buf off"
    by (auto simp: segments_def)
  then have "length (snd s) \<le> length buf"
    by (simp add: segment_def)
  moreover have "length buf < 2 ^ 63"
    using assms(1) by (simp add: image_ok_def)
  ultimately show ?thesis
    by simp
qed

lemma phnum_small:
  assumes "L \<in> {elf32, elf64}" and "ehdr_size L \<le> length buf"
  shows "unat (field_of buf 0 (e_phnum L)) < 2 ^ 16"
proof -
  have two: "snd (e_phnum L) = 2"
    using assms(1) by (auto simp: elf32_def elf64_def)
  have len: "0 + 2 \<le> length (drop (fst (e_phnum L)) buf)"
    using layout_fields(2) [OF assms(1), of "e_phnum L"] assms(2) two by simp
  from bit_deserialize_loop [OF len, of "0 :: u64"] obtain y :: u64 where
    y: "deserialize_loop (drop (fst (e_phnum L)) buf) 0 2 0 = Some y" "\<forall>j. bit y j \<longrightarrow> j < 16"
    by auto
  have "y = take_bit 16 y"
    using y(2) by (intro bit_word_eqI) (auto simp: bit_take_bit_iff)
  then have "unat y = unat y mod 2 ^ 16"
    by (metis take_bit_eq_mod unsigned_take_bit_eq)
  then have "unat y < 2 ^ 16"
    by (metis mod_less_divisor zero_less_numeral zero_less_power)
  moreover have "field_of buf 0 (e_phnum L) = y"
    using y(1) two by (simp add: field_of_def get_field_def)
  ultimately show ?thesis
    by simp
qed

text \<open>
  C8: Loading a program image.  For an ELF image (32 or 64 bit) whose headers and loadable
  segments lie inside the file, the loader succeeds; afterwards every address holds
  the byte of the last loadable segment, in header order, that covers it, and every
  address covered by none keeps its contents.
\<close>
theorem elf_image_loaded:
  assumes "mem_laws mm" and "L \<in> {elf32, elf64}" and "image_ok L buf"
  shows "\<exists>m'. load_elf_pt_load L mm buf m = Some (True, m') \<and>
    (\<forall>b. (\<forall>s \<in> set (segments L buf). \<not> byte_in s b) \<longrightarrow> mem_at mm m' b = mem_at mm m b) \<and>
    (\<forall>b xs s ys. segments L buf = xs @ s # ys \<and> byte_in s b \<and> (\<forall>t \<in> set ys. \<not> byte_in t b) \<longrightarrow>
       mem_at mm m' b = snd s ! unat (b - fst s))"
proof -
  have short: "\<forall>s \<in> set (segments L buf). length (snd s) \<le> 2 ^ 64"
    using segments_short [OF assms(3)] by blast
  have "unat (field_of buf 0 (e_phnum L)) < 2 ^ 16"
    using phnum_small [OF assms(2)] assms(3) by (simp add: image_ok_def)
  then have "unat (field_of buf 0 (e_phnum L)) < 2 ^ 63"
    by simp
  note ld = load_elf_eq [OF assms(2,3) this]
  show ?thesis
  proof (intro exI conjI allI impI)
    show "load_elf_pt_load L mm buf m = Some (True, writes mm (segments L buf) m)"
      by (rule ld)
  next
    fix b assume "\<forall>s \<in> set (segments L buf). \<not> byte_in s b"
    then show "mem_at mm (writes mm (segments L buf) m) b = mem_at mm m b"
      using short by (intro writes_outside [OF assms(1)]) blast
  next
    fix b xs s ys assume seg: "segments L buf = xs @ s # ys \<and> byte_in s b \<and> (\<forall>t \<in> set ys. \<not> byte_in t b)"
    then have eq: "segments L buf = xs @ s # ys" and s: "byte_in s b" "\<forall>t \<in> set ys. \<not> byte_in t b"
      by blast+
    show "mem_at mm (writes mm (segments L buf) m) b = snd s ! unat (b - fst s)"
      using short unfolding eq by (rule writes_last [OF assms(1) _ s])
  qed
qed

definition sample_image :: data_t where
  "sample_image = [127, 69, 76, 70, 2, 1, 1, 0, 0, 0, 0, 0, 0, 0, 0, 0,
     0, 0, 0, 0, 0, 0, 0, 0, 0, 0, 0, 0, 0, 0, 0, 0,
     64, 0, 0, 0, 0, 0, 0, 0, 0, 0, 0, 0, 0, 0, 0, 0,
     0, 0, 0, 0, 0, 0, 56, 0, 1, 0, 0, 0, 0, 0, 0, 0,
     1, 0, 0, 0, 0, 0, 0, 0, 120, 0, 0, 0, 0, 0, 0, 0,
     0, 0, 0, 0, 0, 0, 0, 0, 0, 0, 0, 128, 0, 0, 0, 0,
     2, 0, 0, 0, 0, 0, 0, 0, 0, 0, 0, 0, 0, 0, 0, 0,
     0, 0, 0, 0, 0, 0, 0, 0, 170, 187]"

definition wrapping_image :: data_t where
  "wrapping_image = [127, 69, 76, 70, 2, 1, 1, 0, 0, 0, 0, 0, 0, 0, 0, 0,
     0, 0, 0, 0, 0, 0, 0, 0, 0, 0, 0, 0, 0, 0, 0, 0,
     248, 255, 255, 255, 255, 255, 255, 255, 0, 0, 0, 0, 0, 0, 0, 0,
     0, 0, 0, 0, 0, 0, 56, 0, 1, 0, 0, 0, 0, 0, 0, 0]"

lemma deserialize_loop_numeral [simp]:
  "deserialize_loop data i (numeral k) x = do {
     b \<leftarrow> vec_get data i;
     deserialize_loop data (Suc i) (pred_numeral k) (x OR push_bit (8 * i) (ucast b))
   }"
  by (simp add: numeral_eq_Suc)

lemma sample_image_fields:
  "get_field sample_image 0 (e_phoff elf64) = Some 64" "get_field sample_image 0 (e_phnum elf64) = Some 1"
  "get_field sample_image 0 (e_phentsize elf64) = Some 56" "get_field sample_image 64 (p_type elf64) = Some 1"
  "get_field sample_image 64 (p_offset elf64) = Some 120" "get_field sample_image 64 (p_paddr elf64) = Some 0x80000000"
  "get_field sample_image 64 (p_filesz elf64) = Some 2"
  by (simp_all add: get_field_def elf64_def sample_image_def vec_get_def)

lemma sample_image_phdrs: "phdrs elf64 sample_image = [64]"
  by (simp add: phdrs_def field_of_def sample_image_fields)

lemma sample_image_segments: "segments elf64 sample_image = [(0x80000000, [0xaa, 0xbb])]"
proof -
  have "take 2 (drop 120 sample_image) = [0xaa, 0xbb]"
    by (simp add: sample_image_def)
  then show ?thesis
    by (simp add: segments_def sample_image_phdrs loadable_def segment_def field_of_def sample_image_fields)
qed

lemma sample_image_ok: "image_ok elf64 sample_image"
proof -
  have "length sample_image = 122" "ehdr_size elf64 = 64" "phdr_size elf64 = 56"
    by (simp_all add: sample_image_def elf64_def)
  then show ?thesis
    by (simp add: image_ok_def sample_image_phdrs phdr_ok_def field_of_def sample_image_fields)
qed

lemma fun_mem_zero: "mem_at fun_mem (\<lambda>_. x) b = x"
  by (simp add: mem_at_def fun_mem_def)

theorem elf_image_loaded_witness:
  "\<exists>m'. load_elf_pt_load elf64 fun_mem sample_image (\<lambda>_. 0) = Some (True, m') \<and>
    mem_at fun_mem m' 0x80000001 = 0xbb \<and> mem_at fun_mem m' 0x80000002 = 0"
proof -
  have at: "byte_in (0x80000000, [0xaa, 0xbb]) 0x80000001" "\<not> byte_in (0x80000000, [0xaa, 0xbb]) 0x80000002"
    by (simp_all add: byte_in_def)
  have "elf64 \<in> {elf32, elf64}"
    by simp
  from elf_image_loaded [OF fun_mem_laws this sample_image_ok, of "\<lambda>_. 0", unfolded sample_image_segments] obtain m' where
    m': "load_elf_pt_load elf64 fun_mem sample_image (\<lambda>_. 0) = Some (True, m')"
      "\<forall>b. (\<forall>s \<in> set [(0x80000000, [0xaa, 0xbb])]. \<not> byte_in s b) \<longrightarrow> mem_at fun_mem m' b = mem_at fun_mem (\<lambda>_. 0) b"
      "\<forall>b xs s ys. [(0x80000000, [0xaa, 0xbb])] = xs @ s # ys \<and> byte_in s b \<and>
         (\<forall>t \<in> set ys. \<not> byte_in t b) \<longrightarrow> mem_at fun_mem m' b = snd s ! unat (b - fst s)"
    by blast
  have "mem_at fun_mem m' 0x80000001 = snd (0x80000000 :: u64, [0xaa, 0xbb :: u8]) ! unat (0x80000001 - fst (0x80000000 :: u64, [0xaa, 0xbb :: u8]))"
    by (rule m'(3) [rule_format, of "[]" _ "[]"]) (simp add: at)
  moreover have "mem_at fun_mem m' 0x80000002 = mem_at fun_mem (\<lambda>_. 0) 0x80000002"
    by (rule m'(2) [rule_format]) (simp add: at)
  ultimately show ?thesis
    using m'(1) fun_mem_zero by simp
qed

text \<open>
  The bounds checks of the loader wrap around.  For an image whose program header
  offset is close to \<^verbatim>\<open>2^64\<close>, the sum with the header size passes the check and
  the copy that follows reads outside the file.
\<close>
lemma elf_header_check_wraps:
  "load_elf_pt_load elf64 mm wrapping_image m = None"
proof -
  have f: "get_field wrapping_image 0 (e_phoff elf64) = Some 0xfffffffffffffff8"
    "get_field wrapping_image 0 (e_phnum elf64) = Some 1" "get_field wrapping_image 0 (e_phentsize elf64) = Some 56"
    by (simp_all add: get_field_def elf64_def wrapping_image_def vec_get_def)
  have "length wrapping_image = 64" "ehdr_size elf64 = 64" "phdr_size elf64 = 56"
    by (simp_all add: wrapping_image_def elf64_def)
  then show ?thesis
    by (simp add: load_elf_pt_load_def f)
qed

end
