(* ===== verification/Memmap.thy ===== *)
theory Memmap
  imports Strings "HOL-Library.Char_ord" "HOL-Library.List_Lexorder" "HOL-Library.Multiset"
begin

text \<open>
  The platform memory map of \<^verbatim>\<open>common/memmap.h\<close>: the entries read from the JSON file, the
  overlap check that guards it, and the range queries.  The JSON reader is a library; its
  result, the list of objects of the file, is the input of \<^verbatim>\<open>memmap_parse\<close>.
\<close>

section \<open>Model\<close>

record json_entry =
  js_base :: string
  js_size :: string
  js_type :: string
  js_tag :: string

record memmap_entry =
  mm_base :: u64
  mm_size :: u64
  mm_type :: string
  mm_tag :: string
  mm_end :: u64

type_synonym memmap = "(string \<times> memmap_entry) list"

text \<open>A tree map from tags to entries: an association list sorted by tag.\<close>

fun map_set :: "string \<Rightarrow> memmap_entry \<Rightarrow> memmap \<Rightarrow> memmap" where
  "map_set k v [] = [(k, v)]"
| "map_set k v ((k', v') # m) =
     (if k = k' then (k, v) # m else if k < k' then (k, v) # (k', v') # m else (k', v') # map_set k v m)"

definition add_entry :: "string \<Rightarrow> string \<Rightarrow> u64 \<Rightarrow> u64 \<Rightarrow> memmap \<Rightarrow> memmap" where
  "add_entry ty tag base sz m =
     map_set tag \<lparr> mm_base = base, mm_size = sz, mm_type = ty, mm_tag = tag, mm_end = base + sz - 1 \<rparr> m"

fun add_entries :: "json_entry list \<Rightarrow> memmap \<Rightarrow> memmap option" where
  "add_entries [] m = Some m"
| "add_entries (e # es) m = do {
     base \<leftarrow> stoull 16 (js_base e);
     sz \<leftarrow> stoull 16 (js_size e);
     add_entries es (add_entry (js_type e) (js_tag e) base sz m)
   }"

definition entries_overlap :: "memmap_entry \<Rightarrow> memmap_entry \<Rightarrow> bool" where
  "entries_overlap x y \<longleftrightarrow> mm_base x < mm_base y + mm_size y \<and> mm_base y < mm_base x + mm_size x"

fun overlap_detected :: "memmap_entry list \<Rightarrow> bool" where
  "overlap_detected [] \<longleftrightarrow> False"
| "overlap_detected (x # xs) \<longleftrightarrow> list_ex (entries_overlap x) xs \<or> overlap_detected xs"

definition memmap_parse :: "json_entry list \<Rightarrow> memmap option" where
  "memmap_parse json = do {
     m \<leftarrow> add_entries json [];
     if overlap_detected (sort_key mm_base (map snd m)) then None else Some m
   }"

definition memmap_find :: "string \<Rightarrow> memmap \<Rightarrow> memmap_entry option" where
  "memmap_find tag m = map_of m tag"

definition in_range :: "string \<Rightarrow> u64 \<Rightarrow> memmap \<Rightarrow> bool" where
  "in_range tag pa m = (case map_of m tag of
     None \<Rightarrow> False
   | Some e \<Rightarrow> mm_base e \<le> pa \<and> pa < mm_end e)"

fun in_range_any :: "string list \<Rightarrow> u64 \<Rightarrow> memmap \<Rightarrow> bool" where
  "in_range_any [] pa m \<longleftrightarrow> False"
| "in_range_any (tag # tags) pa m \<longleftrightarrow> in_range tag pa m \<or> in_range_any tags pa m"

definition in_range_prefix :: "string \<Rightarrow> u64 \<Rightarrow> memmap \<Rightarrow> bool" where
  "in_range_prefix pfx pa m \<longleftrightarrow>
     list_ex (\<lambda>(k, e). mm_base e \<le> pa \<and> pa < mm_end e)
       (takeWhile (\<lambda>(k, e). take (length pfx) k = pfx) (dropWhile (\<lambda>(k, e). k < pfx) m))"

section \<open>Disjoint windows\<close>

definition covers :: "memmap_entry \<Rightarrow> u64 \<Rightarrow> bool" where
  "covers e pa \<longleftrightarrow> mm_base e \<le> pa \<and> pa - mm_base e < mm_size e"

definition no_wrap :: "memmap_entry \<Rightarrow> bool" where
  "no_wrap e \<longleftrightarrow> unat (mm_base e) + unat (mm_size e) < 2 ^ 64"

definition map_ok :: "memmap \<Rightarrow> bool" where
  "map_ok m \<longleftrightarrow> sorted_wrt (<) (map fst m) \<and> (\<forall>(k, e) \<in> set m. mm_tag e = k \<and> mm_end e = mm_base e + mm_size e - 1)"

lemma map_set_keys: "set (map_set k v m) \<subseteq> insert (k, v) (set m)"
  by (induction k v m rule: map_set.induct) auto

lemma map_set_sorted: "sorted_wrt (<) (map fst m) \<Longrightarrow> sorted_wrt (<) (map fst (map_set k v m))"
proof (induction k v m rule: map_set.induct)
  case (2 k v k' v' m)
  have keys: "fst ` set (map_set k v m) \<subseteq> insert k (fst ` set m)"
    using image_mono [OF map_set_keys, of fst k v m] by simp
  have tail: "sorted_wrt (<) (map fst m)" "\<forall>x \<in> fst ` set m. k' < x"
    using "2.prems" by auto
  consider "k = k'" | "k < k'" | "k \<noteq> k'" "\<not> k < k'" "k' < k"
    using less_linear [of k k'] by blast
  then show ?case
  proof cases
    case 2
    then have "\<forall>x \<in> fst ` set m. k < x"
      using tail(2) less_trans by blast
    with 2 tail show ?thesis
      by auto
  next
    case 3
    then have "\<forall>x \<in> fst ` set (map_set k v m). k' < x"
      using keys tail(2) by blast
    with 3 "2.IH" tail(1) show ?thesis
      by simp
  qed (use tail in auto)
qed simp

lemma map_set_ok:
  assumes "map_ok m" and "mm_tag v = k" and "mm_end v = mm_base v + mm_size v - 1"
  shows "map_ok (map_set k v m)"
proof -
  have "\<forall>p \<in> set (map_set k v m). p = (k, v) \<or> p \<in> set m"
    using map_set_keys [of k v m] by blast
  then show ?thesis
    using assms map_set_sorted [of m k v] by (auto simp: map_ok_def)
qed

lemma add_entries_ok: "add_entries es m = Some m' \<Longrightarrow> map_ok m \<Longrightarrow> map_ok m'"
  by (induction es arbitrary: m) (auto simp: add_entry_def map_set_ok split: Option.bind_splits)

lemma overlap_sym: "entries_overlap x y = entries_overlap y x"
  by (auto simp: entries_overlap_def)

lemma overlap_detected_iff: "\<not> overlap_detected xs \<longleftrightarrow> sorted_wrt (\<lambda>x y. \<not> entries_overlap x y) xs"
  by (induction xs) (auto simp: list_ex_iff)

lemma sorted_wrt_symmetric:
  assumes "\<And>x y. R x y \<Longrightarrow> R y x" and "mset xs = mset ys" and "sorted_wrt R xs"
  shows "sorted_wrt R ys"
  using assms(2,3)
proof (induction xs arbitrary: ys)
  case (Cons x xs)
  from Cons.prems(1) have "x \<in> set ys"
    by (metis list.set_intros(1) set_mset_mset)
  then obtain as bs where ys: "ys = as @ x # bs"
    by (auto simp: in_set_conv_decomp)
  with Cons.prems(1) have eq: "mset xs = mset (as @ bs)"
    by simp
  then have "set xs = set (as @ bs)"
    by (rule mset_eq_setD)
  moreover have "sorted_wrt R (as @ bs)"
    using Cons.IH [OF eq] Cons.prems(2) by simp
  ultimately show ?case
    using Cons.prems(2) assms(1) by (auto simp: ys sorted_wrt_append)
qed simp

lemma covers_unat:
  "covers e pa \<longleftrightarrow> unat (mm_base e) \<le> unat pa \<and> unat pa < unat (mm_base e) + unat (mm_size e)"
proof (cases "mm_base e \<le> pa")
  case True
  then have "unat (pa - mm_base e) = unat pa - unat (mm_base e)"
    by (rule unat_sub)
  with True show ?thesis
    by (simp only: covers_def word_less_nat_alt word_le_nat_alt) linarith
next
  case False
  then show ?thesis
    by (simp add: covers_def word_le_nat_alt)
qed

lemma covers_both_overlap:
  assumes "no_wrap x" and "no_wrap y" and "covers x pa" and "covers y pa"
  shows "entries_overlap x y"
proof -
  have "unat (mm_base e + mm_size e) = unat (mm_base e) + unat (mm_size e)" if "no_wrap e" for e
    using that by (simp add: no_wrap_def unat_add_less)
  with assms show ?thesis
    by (simp add: entries_overlap_def word_less_nat_alt covers_unat)
qed

lemma sorted_wrt_pair:
  assumes "sorted_wrt R xs" and "\<And>x y. R x y \<Longrightarrow> R y x" and "i < length xs" and "j < length xs" and "i \<noteq> j"
  shows "R (xs ! i) (xs ! j)"
  using assms by (cases "i < j") (auto simp: sorted_wrt_iff_nth_less)

lemma memmap_parse_ok:
  assumes "memmap_parse json = Some m"
  shows "map_ok m" "sorted_wrt (\<lambda>x y. \<not> entries_overlap x y) (map snd m)" "distinct (map fst m)"
proof -
  show ok: "map_ok m"
    using assms add_entries_ok [of json "[]" m]
    by (auto simp: memmap_parse_def map_ok_def split: Option.bind_splits if_splits)
  have no: "\<not> overlap_detected (sort_key mm_base (map snd m))"
    using assms by (auto simp: memmap_parse_def split: Option.bind_splits if_splits)
  show "sorted_wrt (\<lambda>x y. \<not> entries_overlap x y) (map snd m)"
  proof (rule sorted_wrt_symmetric [where R = "\<lambda>x y. \<not> entries_overlap x y"])
    show "sorted_wrt (\<lambda>x y. \<not> entries_overlap x y) (sort_key mm_base (map snd m))"
      using no by (simp only: overlap_detected_iff)
    show "mset (sort_key mm_base (map snd m)) = mset (map snd m)"
      by (rule mset_sort)
    show "\<not> entries_overlap x y \<Longrightarrow> \<not> entries_overlap y x" for x y
      by (simp add: overlap_sym)
  qed
  show "distinct (map fst m)"
    using ok by (simp add: map_ok_def strict_sorted_iff)
qed

text \<open>
  C24: An accepted memory map assigns every address to at most one entry.  If the map
  parses, and no window wraps around the address space, then two entries that cover a
  common address are the same entry, and the entry is found under its own tag.
\<close>
theorem memmap_windows_disjoint:
  assumes parse: "memmap_parse json = Some m" and wrap: "\<forall>e \<in> set (map snd m). no_wrap e"
    and "(k, e) \<in> set m" and "(k', e') \<in> set m" and "covers e pa" and "covers e' pa"
  shows "k = k' \<and> e = e' \<and> memmap_find k m = Some e \<and> mm_tag e = k"
proof -
  note ok = memmap_parse_ok [OF parse]
  have sym: "\<not> entries_overlap x y \<Longrightarrow> \<not> entries_overlap y x" for x y
    by (simp add: overlap_sym)
  obtain i j where i: "i < length m" "m ! i = (k, e)" and j: "j < length m" "m ! j = (k', e')"
    using assms(3,4) by (auto simp: in_set_conv_nth)
  have "i = j"
  proof (rule ccontr)
    assume "i \<noteq> j"
    then have "\<not> entries_overlap e e'"
      using sorted_wrt_pair [where R = "\<lambda>x y. \<not> entries_overlap x y", OF ok(2) sym, of i j] i j by simp
    moreover have "no_wrap (snd (k, e))" "no_wrap (snd (k', e'))"
      using wrap assms(3,4) by (simp_all only: set_map ball_simps)
    ultimately show False
      using covers_both_overlap [of e e' pa] assms(5,6) by simp
  qed
  then have "k = k'" "e = e'"
    using i j by simp_all
  moreover have "memmap_find k m = Some e"
    using assms(3) ok(3) by (simp add: memmap_find_def)
  moreover have "mm_tag e = k"
    using ok(1) assms(3) by (auto simp: map_ok_def)
  ultimately show ?thesis
    by blast
qed

definition sample_json :: "json_entry list" where
  "sample_json = [\<lparr> js_base = ''80'', js_size = ''10'', js_type = ''memory'', js_tag = ''m'' \<rparr>,
     \<lparr> js_base = ''20'', js_size = ''40'', js_type = ''clint'', js_tag = ''c'' \<rparr>]"

definition sample_map :: memmap where
  "sample_map = [(''c'', \<lparr> mm_base = 0x20, mm_size = 0x40, mm_type = ''clint'', mm_tag = ''c'', mm_end = 0x5f \<rparr>),
     (''m'', \<lparr> mm_base = 0x80, mm_size = 0x10, mm_type = ''memory'', mm_tag = ''m'', mm_end = 0x8f \<rparr>)]"

lemma sample_parse: "memmap_parse sample_json = Some sample_map"
  by code_simp

theorem memmap_windows_disjoint_witness:
  "memmap_parse sample_json = Some sample_map \<and> covers (snd (sample_map ! 1)) 0x8f \<and>
   memmap_find ''m'' sample_map = Some (snd (sample_map ! 1))"
  using memmap_windows_disjoint [OF sample_parse, of "''m''" "snd (sample_map ! 1)" "''m''" "snd (sample_map ! 1)" "0x8f"]
    sample_parse
  by (simp add: sample_map_def no_wrap_def covers_def)

text \<open>
  The range query excludes the last byte of a window: the stored end is inclusive and
  the query compares strictly, so the last address of an entry is not in its range,
  and every other address of it is.
\<close>
lemma in_range_misses_last_byte:
  assumes "memmap_parse json = Some m" and "memmap_find tag m = Some e" and "no_wrap e" and "mm_size e \<noteq> 0"
  shows "in_range tag pa m \<longleftrightarrow> covers e pa \<and> pa \<noteq> mm_base e + mm_size e - 1"
proof -
  note ok = memmap_parse_ok(1) [OF assms(1)]
  have e: "map_of m tag = Some e" "mm_end e = mm_base e + mm_size e - 1"
    using assms(2) ok map_of_SomeD [of m tag e] by (auto simp: memmap_find_def map_ok_def)
  have s: "unat (mm_base e + mm_size e) = unat (mm_base e) + unat (mm_size e)" "0 < unat (mm_size e)"
    using assms(3,4) by (simp_all add: no_wrap_def unat_add_less unat_gt_0)
  have "1 \<le> mm_base e + mm_size e"
    using s by (simp add: word_le_nat_alt)
  then have l: "unat (mm_base e + mm_size e - 1) = unat (mm_base e) + unat (mm_size e) - 1"
    using s(1) by (simp add: unat_sub)
  show ?thesis
    using s(2) by (auto simp: in_range_def e covers_unat word_less_nat_alt word_le_nat_alt word_unat_eq_iff l)
qed

lemma in_range_misses_last_byte_witness:
  "memmap_parse sample_json = Some sample_map \<and> covers (snd (sample_map ! 1)) 0x8f \<and> \<not> in_range ''m'' 0x8f sample_map \<and>
   in_range ''m'' 0x8e sample_map"
  using in_range_misses_last_byte [OF sample_parse, of "''m''" "snd (sample_map ! 1)" "0x8f"]
    in_range_misses_last_byte [OF sample_parse, of "''m''" "snd (sample_map ! 1)" "0x8e"] sample_parse
  by (simp add: sample_map_def no_wrap_def covers_def memmap_find_def)

end
