(* ===== verification/SmallDevices.thy ===== *)
theory SmallDevices
  imports Device
begin

text \<open>
  The small devices of \<^verbatim>\<open>sysmod\<close>: the null device, the entropy source, the heartbeat, the
  debug module bridge, and the adapters of the external interrupt controller and of
  the external device models.
\<close>

section \<open>Null device\<close>

definition null_write :: "write_t \<Rightarrow> unit \<Rightarrow> (unit \<times> unit list) option" where
  "null_write w s = Some (s, [])"

definition null_read :: "read_t \<Rightarrow> data_t \<Rightarrow> unit \<Rightarrow> (data_t \<times> unit) option" where
  "null_read r data s = Some (data, s)"

interpretation null_dev: mmio_device "\<lambda>_. True" "\<lambda>_. True" null_read null_write
  by unfold_locales (simp_all add: null_read_def null_write_def)

section \<open>Entropy source\<close>

text \<open>The random generator is a parameter: a function from its state to a number and the next state.\<close>

datatype fifo_event = Write_unsupported | Read_outside u64 nat

record 'g fifo_state =
  ff_base :: u64
  ff_fifo :: "u32 list"
  ff_rng :: 'g

function fill_fifo :: "u32 \<Rightarrow> ('g \<Rightarrow> u32 \<times> 'g) \<Rightarrow> 'g fifo_state \<Rightarrow> 'g fifo_state" where
  "fill_fifo limit rng s =
     (if length (ff_fifo s) < unat limit then
        let (x, g) = rng (ff_rng s) in fill_fifo limit rng (s\<lparr> ff_fifo := ff_fifo s @ [x], ff_rng := g \<rparr>)
      else s)"
  by pat_completeness auto
termination
  by (relation "measure (\<lambda>(limit, rng, s). unat limit - length (ff_fifo s))") auto

declare fill_fifo.simps [simp del]

definition fifo_new :: "u32 \<Rightarrow> ('g \<Rightarrow> u32 \<times> 'g) \<Rightarrow> u64 \<Rightarrow> 'g \<Rightarrow> 'g fifo_state" where
  "fifo_new limit rng addr g = fill_fifo limit rng \<lparr> ff_base = addr, ff_fifo = [], ff_rng = g \<rparr>"

definition fifo_write :: "write_t \<Rightarrow> 'g fifo_state \<Rightarrow> ('g fifo_state \<times> fifo_event list) option" where
  "fifo_write w s = Some (s, [Write_unsupported])"

definition fifo_read :: "u32 \<Rightarrow> ('g \<Rightarrow> u32 \<times> 'g) \<Rightarrow> read_t \<Rightarrow> data_t \<Rightarrow> 'g fifo_state \<Rightarrow>
    (data_t \<times> 'g fifo_state) option" where
  "fifo_read limit rng r data s =
     (let pa = rd_addr r; len = rd_length r in
      if pa = ff_base s then
        do {
          data' \<leftarrow> serializeInt (of_nat (length (ff_fifo s)) :: u64) len data;
          Some (data', if ff_fifo s = [] then fill_fifo limit rng s else s)
        }
      else if ff_base s + 0xc000 < pa + of_nat len then Some (data, s)
      else
        let aligned_pa = unat (pa AND 7);
            (dword, s') =
              (case ff_fifo s of
                 [] \<Rightarrow> (0 :: u64, fill_fifo limit rng s)
               | x # q \<Rightarrow> if aligned_pa < 4 then (ucast (drop_bit aligned_pa x), s\<lparr> ff_fifo := q \<rparr>) else (0, s))
        in do {
          data' \<leftarrow> serializeInt dword len data;
          Some (data', s')
        })"

interpretation fifo_dev: mmio_device "\<lambda>_. True" "\<lambda>_. True" "fifo_read limit rng" fifo_write for limit rng
proof
  show "\<exists>data' s'. fifo_read limit rng r data s = Some (data', s') \<and> length data' = length data \<and> True"
    if "length data = rd_length r" for s data r
    using that by (auto simp: fifo_read_def Let_def byte_simps case_prod_beta split: list.splits)
qed (simp add: fifo_write_def)

fun rng_take :: "('g \<Rightarrow> u32 \<times> 'g) \<Rightarrow> nat \<Rightarrow> 'g \<Rightarrow> u32 list" where
  "rng_take rng 0 g = []"
| "rng_take rng (Suc n) g = (let (x, g') = rng g in x # rng_take rng n g')"

lemma fill_fifo_eq:
  assumes "length (ff_fifo s) \<le> unat limit"
  shows "ff_fifo (fill_fifo limit rng s) = ff_fifo s @ rng_take rng (unat limit - length (ff_fifo s)) (ff_rng s)"
    "ff_base (fill_fifo limit rng s) = ff_base s"
proof -
  have "ff_fifo (fill_fifo limit rng s) = ff_fifo s @ rng_take rng (unat limit - length (ff_fifo s)) (ff_rng s) \<and>
      ff_base (fill_fifo limit rng s) = ff_base s"
    using assms
  proof (induction limit rng s rule: fill_fifo.induct)
    case (1 limit rng s)
    show ?case
    proof (cases "length (ff_fifo s) < unat limit")
      case True
      obtain x g where xg: "rng (ff_rng s) = (x, g)"
        by (cases "rng (ff_rng s)")
      from True have n: "unat limit - length (ff_fifo s) = Suc (unat limit - Suc (length (ff_fifo s)))"
        by simp
      show ?thesis
        using "1.IH" [OF True, of "(x, g)" x g] True xg
        by (subst (1 2) fill_fifo.simps) (simp add: n Let_def)
    next
      case False
      then show ?thesis
        using "1.prems" by (subst (1 2) fill_fifo.simps) simp
    qed
  qed
  then show "ff_fifo (fill_fifo limit rng s) = ff_fifo s @ rng_take rng (unat limit - length (ff_fifo s)) (ff_rng s)"
    "ff_base (fill_fifo limit rng s) = ff_base s"
    by simp_all
qed

fun fifo_reads :: "u32 \<Rightarrow> ('g \<Rightarrow> u32 \<times> 'g) \<Rightarrow> read_t list \<Rightarrow> 'g fifo_state \<Rightarrow> (data_t list \<times> 'g fifo_state) option" where
  "fifo_reads limit rng [] s = Some ([], s)"
| "fifo_reads limit rng (r # rs) s = do {
     (resp, s') \<leftarrow> serve_read (fifo_read limit rng) r s;
     (ds, s'') \<leftarrow> fifo_reads limit rng rs s';
     Some (rr_data resp # ds, s'')
   }"

definition word_read :: "u64 \<Rightarrow> read_t \<Rightarrow> bool" where
  "word_read base r \<longleftrightarrow> rd_length r = 4 \<and> rd_addr r AND 7 = 0 \<and> rd_addr r \<noteq> base \<and>
     rd_addr r + 4 \<le> base + 0xc000"

lemma fifo_read_pop:
  assumes "ff_fifo s = x # q" and "word_read (ff_base s) r"
  shows "serve_read (fifo_read limit rng) r s =
    Some (\<lparr> rr_id = rd_id r, rr_data = map (byte_of x) [0..<4], rr_resp = 0 \<rparr>, s\<lparr> ff_fifo := q \<rparr>)"
proof -
  have "map (byte_of (ucast x :: u64)) [0..<4] = map (byte_of x) [0..<4]"
    by (auto intro!: bit_word_eqI simp: bit_byte_of bit_ucast_iff dest: bit_imp_le_length)
  moreover have "\<not> ff_base s + 0xc000 < rd_addr r + 4"
    using assms(2) by (simp add: word_read_def not_less)
  ultimately show ?thesis
    using assms by (simp add: serve_read_def fifo_read_def word_read_def Let_def byte_simps)
qed



section \<open>Heartbeat\<close>

datatype beat = Warn_period u64 | Beat u64

definition heartbeat_tick :: "u32 \<Rightarrow> u64 \<Rightarrow> u64 \<Rightarrow> (u64 \<times> beat list) option" where
  "heartbeat_tick period advance count =
     (if advance = 0 \<and> count = 0 then None
      else
        let p = scast period :: u64;
            warn = (if count = 0 \<and> p mod advance \<noteq> 0 then [Warn_period advance] else []);
            nxt = count + advance;
            print = (p \<noteq> 0 \<and> count div p \<noteq> nxt div p)
        in Some (nxt, warn @ (if print then [Beat nxt] else [])))"

fun heartbeat_run :: "u32 \<Rightarrow> u64 list \<Rightarrow> u64 \<Rightarrow> (u64 \<times> beat list) option" where
  "heartbeat_run period [] count = Some (count, [])"
| "heartbeat_run period (a # as) count = do {
     (c, bs) \<leftarrow> heartbeat_tick period a count;
     (c', bs') \<leftarrow> heartbeat_run period as c;
     Some (c', bs @ bs')
   }"

definition beats :: "beat list \<Rightarrow> nat" where
  "beats bs = length (filter (\<lambda>b. case b of Beat c \<Rightarrow> True | _ \<Rightarrow> False) bs)"

lemma beats_append: "beats (xs @ ys) = beats xs + beats ys"
  by (simp add: beats_def)

lemma heartbeat_tick_beats:
  fixes p :: u64
  assumes "advance \<noteq> 0" and p: "0 < unat p" "p = scast period" and "unat advance \<le> unat p"
    and "unat count + unat advance < 2 ^ 64"
  shows "\<exists>bs. heartbeat_tick period advance count = Some (count + advance, bs) \<and>
    beats bs = (unat count + unat advance) div unat p - unat count div unat p"
proof -
  let ?c = "unat count" and ?a = "unat advance" and ?p = "unat p"
  have nxt: "unat (count + advance) = ?c + ?a"
    using assms(5) by (simp add: unat_add_less)
  have "(?c + ?a) div ?p \<le> (?c + ?p) div ?p"
    using assms(4) by (intro div_le_mono) simp
  moreover have "(?c + ?p) div ?p = Suc (?c div ?p)"
    using p(1) by (subst div_add_self2) (simp_all only: Suc_eq_plus1)
  ultimately have le: "(?c + ?a) div ?p \<le> Suc (?c div ?p)" "?c div ?p \<le> (?c + ?a) div ?p"
    by (simp_all add: div_le_mono)
  have ne: "(count div p \<noteq> (count + advance) div p) = (?c div ?p \<noteq> (?c + ?a) div ?p)"
    by (simp add: word_unat_eq_iff unat_div_distrib nxt)
  have p0: "p \<noteq> 0"
    using p(1) by (simp add: unat_gt_0)
  show ?thesis
    using assms(1) le ne p0 by (auto simp: heartbeat_tick_def p(2) [symmetric] Let_def beats_def)
qed

text \<open>
  C36: The heartbeat is periodic: over any sequence of clock advances, none longer than the
  period, the number of messages printed is the number of whole periods elapsed.
\<close>
theorem heartbeat_periodic:
  assumes "0 < unat (scast period :: u64)"
    and "\<forall>a \<in> set as. a \<noteq> 0 \<and> unat a \<le> unat (scast period :: u64)" and "sum_list (map unat as) < 2 ^ 64"
  shows "\<exists>c bs. heartbeat_run period as 0 = Some (c, bs) \<and> beats bs = sum_list (map unat as) div unat (scast period :: u64)"
proof -
  let ?p = "scast period :: u64"
  have "\<exists>c bs. heartbeat_run period as n = Some (c, bs) \<and>
      beats bs = (unat n + sum_list (map unat as)) div unat ?p - unat n div unat ?p"
    if "unat n + sum_list (map unat as) < 2 ^ 64" "\<forall>a \<in> set as. a \<noteq> 0 \<and> unat a \<le> unat ?p" for n
    using that
  proof (induction as arbitrary: n)
    case Nil
    then show ?case
      by (simp add: beats_def)
  next
    case (Cons a as)
    have fit: "unat n + unat a < 2 ^ 64"
      using Cons.prems(1) by simp
    then have nxt: "unat (n + a) = unat n + unat a"
      by (simp add: unat_add_less)
    obtain b1 where b1: "heartbeat_tick period a n = Some (n + a, b1)"
      "beats b1 = (unat n + unat a) div unat ?p - unat n div unat ?p"
      using heartbeat_tick_beats [of a ?p period n] Cons.prems(2) assms(1) fit by auto
    obtain c b2 where b2: "heartbeat_run period as (n + a) = Some (c, b2)"
      "beats b2 = (unat n + unat a + sum_list (map unat as)) div unat ?p - (unat n + unat a) div unat ?p"
      using Cons.IH [of "n + a"] Cons.prems nxt by auto
    have "unat n div unat ?p \<le> (unat n + unat a) div unat ?p"
      "(unat n + unat a) div unat ?p \<le> (unat n + unat a + sum_list (map unat as)) div unat ?p"
      by (simp_all add: div_le_mono)
    then show ?case
      using b1 b2 by (auto simp: beats_append add.assoc)
  qed
  from this [of 0] assms show ?thesis
    by simp
qed

theorem heartbeat_periodic_witness:
  "\<exists>c bs. heartbeat_run 10 [4, 10, 7] 0 = Some (c, bs) \<and> beats bs = 2"
  using heartbeat_periodic [of 10 "[4, 10, 7]"] by simp

section \<open>Debug module bridge\<close>

definition dm_write :: "write_t \<Rightarrow> write_request_t" where
  "dm_write w = write_request (wr_addr w) (wr_length w) (wr_data w) (wr_strb w) False"

definition dm_request :: "read_t \<Rightarrow> read_request_t" where
  "dm_request r = read_request (rd_addr r) (rd_length r) False"

definition dm_answer :: "read_t \<Rightarrow> data_t \<Rightarrow> data_t option" where
  "dm_answer r resp =
     (let lower_bytes = unat (rd_addr r AND 0x3F) in
      if lower_bytes \<noteq> 0 then (if lower_bytes \<le> length resp then Some (rotate lower_bytes resp) else None)
      else Some resp)"

section \<open>Adapters\<close>

text \<open>
  The interrupt controller and the wrapped device are external; their access functions
  are parameters over an external state.
\<close>

definition aplic_read :: "(u64 \<Rightarrow> nat \<Rightarrow> 'x \<Rightarrow> u32) \<Rightarrow> read_t \<Rightarrow> data_t \<Rightarrow> 'x \<Rightarrow> (data_t \<times> 'x) option" where
  "aplic_read ext r data s = do {
     data' \<leftarrow> serializeInt (ext (rd_addr r) (rd_length r) s) (rd_length r) data;
     Some (data', s)
   }"

definition aplic_write :: "(u64 \<Rightarrow> nat \<Rightarrow> u32 \<Rightarrow> 'x \<Rightarrow> 'x) \<Rightarrow> write_t \<Rightarrow> 'x \<Rightarrow> ('x \<times> unit list) option" where
  "aplic_write ext w s = do {
     v \<leftarrow> deserializeInt (wr_data w);
     Some (ext (wr_addr w) (wr_length w) v s, [])
   }"

definition io_device_read :: "(u64 \<Rightarrow> 'x \<Rightarrow> u32) \<Rightarrow> read_t \<Rightarrow> data_t \<Rightarrow> 'x \<Rightarrow> (data_t \<times> 'x) option" where
  "io_device_read ext r data s = do {
     data' \<leftarrow> serializeInt (ext (rd_addr r) s) (rd_length r) data;
     Some (data', s)
   }"

definition io_device_write :: "(u64 \<Rightarrow> u32 \<Rightarrow> 'x \<Rightarrow> 'x) \<Rightarrow> write_t \<Rightarrow> 'x \<Rightarrow> ('x \<times> unit list) option" where
  "io_device_write ext w s = do {
     v \<leftarrow> (deserializeInt (wr_data w) :: u32 option);
     Some (ext (wr_addr w) (v AND ucast (shl64 1 (wr_length w * 8) - 1)) s, [])
   }"

lemma bus_write_word:
  assumes "bus_write w"
  obtains v :: u32 where "deserializeInt (wr_data w) = Some v"
proof -
  have "LENGTH(32) div 8 \<le> length (wr_data w)"
    using assms by (simp add: bus_write_def)
  then show thesis
    using that deserializeInt_Some [where 'a = 32] by blast
qed

interpretation aplic_dev: mmio_device "\<lambda>_. True" bus_write "aplic_read ext_read" "aplic_write ext_write"
  for ext_read ext_write
proof
  show "\<exists>data' s'. aplic_read ext_read r data s = Some (data', s') \<and> length data' = length data \<and> True"
    if "length data = rd_length r" for s data r
    using that by (simp add: aplic_read_def byte_simps)
  show "\<exists>s' evs. aplic_write ext_write w s = Some (s', evs) \<and> True" if "bus_write w" for s w
    by (rule bus_write_word [OF that]) (simp add: aplic_write_def)
qed

interpretation io_adapter: mmio_device "\<lambda>_. True" bus_write "io_device_read ext_read" "io_device_write ext_write"
  for ext_read ext_write
proof
  show "\<exists>data' s'. io_device_read ext_read r data s = Some (data', s') \<and> length data' = length data \<and> True"
    if "length data = rd_length r" for s data r
    using that by (simp add: io_device_read_def byte_simps)
  show "\<exists>s' evs. io_device_write ext_write w s = Some (s', evs) \<and> True" if "bus_write w" for s w
    by (rule bus_write_word [OF that]) (simp add: io_device_write_def)
qed

end
