(* ===== verification/Sysmod.thy ===== *)
theory Sysmod
  imports Device MemDevice Memmap
begin

text \<open>
  The system model of \<^verbatim>\<open>sysmod/sysmod.cpp\<close>: the devices composed from the memory map,
  the lookup and routing of bus requests, devices added at run time, the clock
  distribution, the backdoor accesses to memory and the program loading.
  The instruction set simulator is external; what the code pokes into it is an
  event of the model.
\<close>

section \<open>Devices\<close>

record sys_device =
  sd_id :: device_id
  sd_type :: string

record sysmod_flags =
  pa_mask :: u64
  tick_threshold :: u64
  fl_cosim :: bool
  fl_mcm :: bool
  fl_bootrom :: bool
  fl_debugrom :: bool
  fl_cplfw :: bool
  mem_default_64 :: u64

datatype sys_event =
    Addr_unmapped u64
  | Tag_unmapped string
  | Unknown_type string
  | Add_duplicate string
  | Add_unreserved string
  | Add_overlap string string
  | To_write write_t
  | To_read read_t
  | Dev_tick string u64
  | Dev_jtag_tick string u64
  | Dev_overlay_tick string u64
  | Dev_reset_req string u64 u64
  | Poke u64 nat u64
  | Dev_backdoor string u64 data_t
  | Tbox_mem u64 nat data_t
  | Load_failed
  | Terminate_fast
  | Terminate_called bool
  | Terminate_callback
  | Test_start

record 'm sysmod =
  sm_devices :: "sys_device list"
  sm_external :: "sys_device list"
  sm_fallback :: bool
  sm_map_source :: "memmap option"
  sm_memmap :: memmap
  sm_ticks :: u64
  sm_jtag_ticks :: u64
  sm_overlay_ticks :: u64
  sm_cosim_init :: bool
  sm_stee :: bool
  sm_secure :: "u64 \<times> u64"
  sm_prog_loaded :: bool
  sm_mem :: 'm

definition find_device :: "(device_id \<Rightarrow> bool) \<Rightarrow> 'm sysmod \<Rightarrow> sys_device option" where
  "find_device p s = find (\<lambda>d. p (sd_id d)) (sm_devices s @ sm_external s)"

definition for_each_device :: "(device_id \<Rightarrow> 'e list) \<Rightarrow> 'm sysmod \<Rightarrow> 'e list" where
  "for_each_device f s = concat (map (\<lambda>d. f (sd_id d)) (sm_devices s @ sm_external s))"

text \<open>The device a memory map entry becomes; some types fix the size of their window.\<close>

definition device_of_entry :: "memmap_entry \<Rightarrow> sys_device option \<times> sys_event list" where
  "device_of_entry e =
     (let dev = (\<lambda>sz. Some \<lparr> sd_id = \<lparr> dv_tag = mm_tag e, dv_addr = mm_base e, dv_size = sz \<rparr>, sd_type = mm_type e \<rparr>) in
      if mm_type e \<in> {''memory'', ''io_dev'', ''null_dev'', ''aclint'', ''mmr_txn_router'', ''aplic_domain''} then (dev (mm_size e), [])
      else if mm_type e \<in> {''sep'', ''clint''} then (dev 0xc000, [])
      else if mm_type e = ''htif'' then (dev 16, [])
      else if mm_type e = ''uart8250'' then (dev 32, [])
      else if mm_type e = ''trickbox'' then (dev 0x1c00000, [])
      else if mm_type e \<in> {''dm'', ''external''} then (None, [])
      else (None, [Unknown_type (mm_type e)]))"

definition heartbeat_device :: sys_device where
  "heartbeat_device = \<lparr> sd_id = \<lparr> dv_tag = ''heartbeat'', dv_addr = 0, dv_size = 0 \<rparr>, sd_type = ''heartbeat'' \<rparr>"

definition compose :: "'m \<Rightarrow> 'm sysmod \<Rightarrow> 'm sysmod \<times> sys_event list" where
  "compose m0 s =
     (case sm_map_source s of
        None \<Rightarrow> (s\<lparr> sm_devices := [] \<rparr>, [])
      | Some m \<Rightarrow>
          let made = map (\<lambda>(k, e). device_of_entry e) m in
          (s\<lparr> sm_memmap := m, sm_devices := concat (map (\<lambda>(d, _). case d of None \<Rightarrow> [] | Some d \<Rightarrow> [d]) made) @ [heartbeat_device],
             sm_fallback := True, sm_mem := m0 \<rparr>,
           concat (map snd made)))"

section \<open>Lookup and routing\<close>

definition dev_at :: "sysmod_flags \<Rightarrow> u64 \<Rightarrow> 'm sysmod \<Rightarrow> sys_device option \<times> sys_event list" where
  "dev_at f addr s =
     (let a = (if sm_stee s \<and> addr AND pa_mask f \<noteq> 0 then addr AND NOT (pa_mask f) else addr) in
      case find_device (\<lambda>d. has_addr d a) s of
        Some d \<Rightarrow> (Some d, [])
      | None \<Rightarrow> (None, [Addr_unmapped a]))"

definition dev_tagged :: "string \<Rightarrow> 'm sysmod \<Rightarrow> sys_device option \<times> sys_event list" where
  "dev_tagged tag s =
     (case find_device (\<lambda>d. dv_tag d = tag) s of
        Some d \<Rightarrow> (Some d, [])
      | None \<Rightarrow> (None, [Tag_unmapped tag]))"

definition on_bus_write :: "sysmod_flags \<Rightarrow> write_t \<Rightarrow> 'm sysmod \<Rightarrow> sys_event list" where
  "on_bus_write f w s =
     (let (d, evs) = dev_at f (wr_addr w) s in
      evs @ (if d \<noteq> None \<or> sm_fallback s then [To_write (w\<lparr> wr_addr := wr_addr w AND NOT (pa_mask f) \<rparr>)] else []))"

definition on_bus_read :: "sysmod_flags \<Rightarrow> read_t \<Rightarrow> 'm sysmod \<Rightarrow> sys_event list" where
  "on_bus_read f r s =
     (let (d, evs) = dev_at f (rd_addr r) s in
      evs @ (if d \<noteq> None \<or> sm_fallback s then [To_read (r\<lparr> rd_addr := rd_addr r AND NOT (pa_mask f) \<rparr>)] else []))"

text \<open>The devices that take a request off the internal channel: those whose window has the address.\<close>

definition fallback_device :: sys_device where
  "fallback_device = \<lparr> sd_id = \<lparr> dv_tag = ''fallback_null_dev'', dv_addr = 0, dv_size = 0 \<rparr>, sd_type = ''null_dev'' \<rparr>"

definition responders :: "u64 \<Rightarrow> 'm sysmod \<Rightarrow> sys_device list" where
  "responders a s = filter (\<lambda>d. has_addr (sd_id d) a)
     (sm_devices s @ sm_external s @ (if sm_fallback s then [fallback_device] else []))"

definition add_device :: "sys_device \<Rightarrow> 'm sysmod \<Rightarrow> 'm sysmod \<times> sys_event list" where
  "add_device d s =
     (let i = sd_id d; b = dv_addr i; e = dv_addr i + dv_size i in
      if find_device (\<lambda>x. dv_tag x = dv_tag i) s \<noteq> None then (s, [Add_duplicate (dv_tag i)])
      else (case sm_map_source s of
        None \<Rightarrow> (s, [])
      | Some mp \<Rightarrow>
          let s = s\<lparr> sm_memmap := mp \<rparr> in
          if dv_size i > 0 \<and> \<not> list_ex (\<lambda>(k, m). mm_type m = ''external'' \<and> mm_base m \<le> b \<and> e \<le> mm_base m + mm_size m) mp
          then (s, [Add_unreserved (dv_tag i)])
          else
            (case (if dv_size i > 0 then find_device (\<lambda>x. dv_size x > 0 \<and> dv_addr x < e \<and> b < dv_addr x + dv_size x) s else None) of
               Some other \<Rightarrow> (s, [Add_overlap (dv_tag i) (dv_tag (sd_id other))])
             | None \<Rightarrow> (s\<lparr> sm_external := sm_external s @ [d] \<rparr>, []))))"

section \<open>Clock distribution\<close>

definition sysmod_tick :: "sysmod_flags \<Rightarrow> u64 \<Rightarrow> 'm sysmod \<Rightarrow> ('m sysmod \<times> sys_event list) option" where
  "sysmod_tick f advance s =
     (let total = sm_ticks s + advance in
      if tick_threshold f \<le> total then
        if tick_threshold f = 0 then None
        else
          let r = total mod tick_threshold f; adv = total - r in
          Some (s\<lparr> sm_ticks := r \<rparr>,
            if adv = 0 then []
            else for_each_device (\<lambda>d. if \<not> sm_cosim_init s \<and> dv_tag d = ''trickbox'' then [] else [Dev_tick (dv_tag d) adv]) s)
      else Some (s\<lparr> sm_ticks := total \<rparr>, []))"

definition is_dut_reset_req :: "bool \<Rightarrow> u64 \<Rightarrow> u64 \<Rightarrow> 'm sysmod \<Rightarrow> sys_event list" where
  "is_dut_reset_req req clocks divisor s =
     (if req then for_each_device (\<lambda>d. [Dev_reset_req (dv_tag d) clocks divisor]) s else [])"

definition jtag_tick :: "u64 \<Rightarrow> 'm sysmod \<Rightarrow> 'm sysmod \<times> sys_event list" where
  "jtag_tick advance s = (s\<lparr> sm_jtag_ticks := sm_jtag_ticks s + advance \<rparr>,
     if advance = 0 then [] else for_each_device (\<lambda>d. [Dev_jtag_tick (dv_tag d) advance]) s)"

definition overlay_tick :: "u64 \<Rightarrow> 'm sysmod \<Rightarrow> 'm sysmod \<times> sys_event list" where
  "overlay_tick advance s = (s\<lparr> sm_overlay_ticks := sm_overlay_ticks s + advance \<rparr>,
     if advance = 0 then [] else for_each_device (\<lambda>d. [Dev_overlay_tick (dv_tag d) advance]) s)"

section \<open>Backdoor accesses\<close>

text \<open>
  Only memory devices and the trickbox implement the backdoor; memory devices share one
  store.  A missing device is a null pointer, here \<^const>\<open>None\<close>.
\<close>

definition backdoor_write_dev :: "'m mem_manager \<Rightarrow> sys_device option \<Rightarrow> u64 \<Rightarrow> nat \<Rightarrow> data_t \<Rightarrow> strb_t \<Rightarrow> 'm sysmod \<Rightarrow>
    ('m sysmod \<times> sys_event list) option" where
  "backdoor_write_dev mm d addr len data strb s = (case d of
     None \<Rightarrow> None
   | Some d \<Rightarrow>
       if sd_type d = ''memory'' then do {
         m \<leftarrow> mem_backdoor_write mm addr len data strb (sm_mem s);
         Some (s\<lparr> sm_mem := m \<rparr>, [])
       }
       else if sd_type d = ''trickbox'' then Some (s, [Dev_backdoor (dv_tag (sd_id d)) addr data])
       else Some (s, []))"

definition backdoor_read_dev :: "'m mem_manager \<Rightarrow> sys_device option \<Rightarrow> u64 \<Rightarrow> nat \<Rightarrow> data_t \<Rightarrow> 'm sysmod \<Rightarrow> data_t option" where
  "backdoor_read_dev mm d addr len data s = (case d of
     None \<Rightarrow> None
   | Some d \<Rightarrow> if sd_type d = ''memory'' then mem_backdoor_read mm addr len data (sm_mem s) else Some data)"

abbreviation mem_dev_of :: "'m sysmod \<Rightarrow> sys_device option" where
  "mem_dev_of s \<equiv> fst (dev_tagged ''memory'' s)"

fun eot_loop :: "'m mem_manager \<Rightarrow> sysmod_flags \<Rightarrow> write_t \<Rightarrow> nat \<Rightarrow> nat \<Rightarrow> 'm sysmod \<Rightarrow> ('m sysmod \<times> sys_event list) option" where
  "eot_loop mm f w i 0 s = Some (s, [])"
| "eot_loop mm f w i (Suc k) s =
     (if length (wr_data w) < i + 8 then None
      else do {
        (s1, e1) \<leftarrow> backdoor_write_dev mm (mem_dev_of s) ((wr_addr w + of_nat i) AND NOT (pa_mask f)) 8
          (take 8 (drop i (wr_data w))) (replicate 8 True) s;
        (s2, e2) \<leftarrow> eot_loop mm f w (i + 8) k s1;
        Some (s2, e1 @ e2)
      })"

definition eot_backdoor_write :: "'m mem_manager \<Rightarrow> sysmod_flags \<Rightarrow> write_t \<Rightarrow> 'm sysmod \<Rightarrow> ('m sysmod \<times> sys_event list) option" where
  "eot_backdoor_write mm f w s = eot_loop mm f w 0 8 s"

text \<open>The size is a signed integer; a negative one copies no byte and becomes a huge length for the device.\<close>

definition backdoor_write :: "'m mem_manager \<Rightarrow> sysmod_flags \<Rightarrow> u64 \<Rightarrow> u64 \<Rightarrow> int \<Rightarrow> 'm sysmod \<Rightarrow>
    ('m sysmod \<times> sys_event list) option" where
  "backdoor_write mm f addr data sz s =
     (let pokes = (if fl_cosim f then [Poke addr 8 data] else []); n = nat sz in
      if 8 < sz then None
      else do {
        (s', evs) \<leftarrow> backdoor_write_dev mm (mem_dev_of s) addr (unat (word_of_int sz :: u64))
          (map (byte_of data) [0..<n] @ replicate (8 - n) 0) (replicate n True @ replicate (8 - n) False) s;
        Some (s', pokes @ evs)
      })"

definition backdoor_read :: "'m mem_manager \<Rightarrow> u64 \<Rightarrow> 'm sysmod \<Rightarrow> u64 option" where
  "backdoor_read mm addr s = do {
     data \<leftarrow> backdoor_read_dev mm (mem_dev_of s) addr 8 (replicate 8 0) s;
     deserializeInt data
   }"

definition uc_helper_backdoor_write :: "sysmod_flags \<Rightarrow> u64 \<Rightarrow> data_t \<Rightarrow> strb_t \<Rightarrow> 'm sysmod \<Rightarrow> sys_event list" where
  "uc_helper_backdoor_write f addr data strb s =
     (let (d, evs) = dev_at f addr s in
      evs @ (if d \<noteq> None \<or> sm_fallback s
        then [To_write \<lparr> wr_addr = addr, wr_length = 1, wr_data = data, wr_strb = strb, wr_id = 0 \<rparr>] else []))"

definition uc_helper_backdoor_read :: "'m mem_manager \<Rightarrow> u64 \<Rightarrow> nat \<Rightarrow> 'm sysmod \<Rightarrow> sys_event list option" where
  "uc_helper_backdoor_read mm addr len s =
     (let (d, evs) = dev_tagged ''memory'' s in
      if d = None then Some evs
      else do {
        data \<leftarrow> backdoor_read_dev mm d addr len (replicate 8 0) s;
        Some (evs @ [Tbox_mem addr len data])
      })"

fun poke_line :: "'m mem_manager \<Rightarrow> u64 \<Rightarrow> nat \<Rightarrow> nat \<Rightarrow> 'm sysmod \<Rightarrow> sys_event list option" where
  "poke_line mm line i 0 s = Some []"
| "poke_line mm line i (Suc k) s = do {
     v \<leftarrow> backdoor_read mm (line + of_nat (i * 8)) s;
     evs \<leftarrow> poke_line mm line (Suc i) k s;
     Some (Poke (line + of_nat (i * 8)) 8 v # evs)
   }"

definition store_inval_crsp :: "'m mem_manager \<Rightarrow> sysmod_flags \<Rightarrow> u64 \<Rightarrow> bool \<Rightarrow> 'm sysmod \<Rightarrow> sys_event list option" where
  "store_inval_crsp mm f addr mcm s =
     (if mcm \<and> \<not> fl_mcm f then Some []
      else if \<not> mcm \<and> fl_mcm f then Some []
      else poke_line mm (push_bit 6 (drop_bit 6 (addr AND NOT (pa_mask f)))) 0 8 s)"

record inval_load =
  il_address :: u64
  il_data :: u64
  il_size :: u8
  il_amo :: bool

definition read_bit_mask :: "u8 \<Rightarrow> u64" where
  "read_bit_mask lanes = fold (\<lambda>i m. if bit lanes i then m OR push_bit (8 * i) 0xff else m) [0..<8] 0"

definition store_inval_load :: "'m mem_manager \<Rightarrow> sysmod_flags \<Rightarrow> inval_load \<Rightarrow> 'm sysmod \<Rightarrow> sys_event list option" where
  "store_inval_load mm f l s =
     (let a = il_address l AND NOT (pa_mask f); lanes = filter (bit (il_size l)) [0..<8];
          rmask = read_bit_mask (il_size l)
      in do {
        v \<leftarrow> backdoor_read mm a s;
        Some ((if il_amo l then map (\<lambda>i. Poke (a + of_nat i) 1 (drop_bit (8 * i) (il_data l) AND 0xff)) lanes else []) @
          (if (il_data l AND rmask) = (v AND rmask) \<and> \<not> il_amo l
           then map (\<lambda>i. Poke (a + of_nat i) 1 (drop_bit (8 * i) v)) lanes else []))
      })"

definition tboxtrig_updatemem :: "'m mem_manager \<Rightarrow> u64 \<Rightarrow> u64 \<Rightarrow> 'm sysmod \<Rightarrow> ('m sysmod \<times> sys_event list) option" where
  "tboxtrig_updatemem mm addr data s =
     backdoor_write_dev mm (fst (dev_tagged ''trickbox'' s)) addr 8 (map (byte_of data) [0..<8]) (replicate 8 True) s"

fun store_dm_vals :: "'m mem_manager \<Rightarrow> u64 \<Rightarrow> u64 list \<Rightarrow> 'm sysmod \<Rightarrow> ('m sysmod \<times> sys_event list) option" where
  "store_dm_vals mm addr [] s = Some (s, [])"
| "store_dm_vals mm addr (v # vs) s = do {
     (s1, e1) \<leftarrow> backdoor_write_dev mm (fst (dev_tagged ''trickbox'' s)) addr 8 (map (byte_of v) [0..<8]) (replicate 8 True) s;
     (s2, e2) \<leftarrow> store_dm_vals mm (addr + 8) vs s1;
     Some (s2, e1 @ e2)
   }"

definition dm_rand_order :: "(nat \<times> u64) list \<Rightarrow> u64 list" where
  "dm_rand_order vs = map snd (filter (\<lambda>(t, _). t = 0) vs) @ map snd (filter (\<lambda>(t, _). t = 1) vs) @
     map snd (filter (\<lambda>(t, _). t \<noteq> 0 \<and> t \<noteq> 1) vs)"

fun store_dm_rand :: "'m mem_manager \<Rightarrow> u64 \<Rightarrow> (nat \<Rightarrow> (nat \<times> u64) list) \<Rightarrow> nat \<Rightarrow> nat \<Rightarrow> 'm sysmod \<Rightarrow>
    ('m sysmod \<times> sys_event list) option" where
  "store_dm_rand mm base iss h 0 s = Some (s, [])"
| "store_dm_rand mm base iss h (Suc k) s = do {
     (s1, e1) \<leftarrow> store_dm_vals mm (base + of_nat (h * 0x40)) (dm_rand_order (iss h)) s;
     (s2, e2) \<leftarrow> store_dm_rand mm base iss (Suc h) k s1;
     Some (s2, e1 @ e2)
   }"

text \<open>The answer of the pattern callback for memory that was never written.\<close>

definition pattern_bytes :: "u64 \<Rightarrow> u64 \<Rightarrow> nat \<Rightarrow> data_t" where
  "pattern_bytes pattern addr sz = map (\<lambda>i. byte_of pattern (unat ((addr + of_nat i) AND 7))) [0..<sz]"

text \<open>Messages of the interrupt controller leave as four byte writes.\<close>

definition msi_write :: "u64 \<Rightarrow> u32 \<Rightarrow> write_request_t" where
  "msi_write addr data = write_request addr 4 (map (byte_of data) [0..<4]) (replicate 4 True) False"

section \<open>Program loading\<close>

definition split_colon :: "string \<Rightarrow> (string \<times> string) option" where
  "split_colon s = (case break_at CHR '':'' s of (_, None) \<Rightarrow> None | (a, Some b) \<Rightarrow> Some (a, b))"

fun load_io_items :: "'m mem_manager \<Rightarrow> string list \<Rightarrow> 'm sysmod \<Rightarrow> ('m sysmod \<times> sys_event list) option" where
  "load_io_items mm [] s = Some (s, [])"
| "load_io_items mm (t # ts) s = (case split_colon t of
     None \<Rightarrow> load_io_items mm ts s
   | Some (tag, off) \<Rightarrow> do {
       offset \<leftarrow> stoull 16 off;
       let (md, e1) = dev_tagged ''memory'' s;
       let (td, e2) = dev_tagged tag s;
       (case (md, td) of
          (Some m, Some d) \<Rightarrow> do {
            data \<leftarrow> backdoor_read_dev mm md (dv_addr (sd_id d) + offset) 8 (replicate 8 0) s;
            (s1, e3) \<leftarrow> backdoor_write_dev mm td (dv_addr (sd_id d) + offset) 8 data (replicate 8 True) s;
            (s2, e4) \<leftarrow> load_io_items mm ts s1;
            Some (s2, e3 @ e4)
          }
        | (None, _) \<Rightarrow> Some (s, e1)
        | (Some _, None) \<Rightarrow> Some (s, e2))
     })"

definition load_io :: "'m mem_manager \<Rightarrow> string \<Rightarrow> 'm sysmod \<Rightarrow> ('m sysmod \<times> sys_event list) option" where
  "load_io mm io s = (if io = [] then Some (s, []) else load_io_items mm (split_from CHR '','' io) s)"

definition bin_load :: "'m mem_manager \<Rightarrow> string \<Rightarrow> bool \<Rightarrow> 'm sysmod \<Rightarrow> (bool \<times> 'm sysmod \<times> sys_event list) option" where
  "bin_load mm load lz4 s = do {
     (file, offset) \<leftarrow> (case split_colon load of
         None \<Rightarrow> Some (load, 0)
       | Some (a, b) \<Rightarrow> do { v \<leftarrow> stoull 0 b; Some (a, v) });
     (case dev_tagged ''memory'' s of
        (None, evs) \<Rightarrow> Some (False, s, evs @ [Load_failed])
      | (Some d, evs) \<Rightarrow>
          if sd_type d \<noteq> ''memory'' then None
          else
            let (ok, m) = (if lz4 then init_lz4 mm file offset else init_bin mm file offset) (sm_mem s) in
            Some (ok, s\<lparr> sm_mem := m \<rparr>, if ok then [] else [Load_failed]))
   }"

fun bin_loads :: "'m mem_manager \<Rightarrow> string list \<Rightarrow> bool \<Rightarrow> 'm sysmod \<Rightarrow> ('m sysmod \<times> sys_event list) option" where
  "bin_loads mm [] lz4 s = Some (s, [])"
| "bin_loads mm (t # ts) lz4 s = do {
     (ok, s1, e1) \<leftarrow> bin_load mm t lz4 s;
     if ok then do { (s2, e2) \<leftarrow> bin_loads mm ts lz4 s1; Some (s2, e1 @ e2) } else Some (s1, e1)
   }"

text \<open>An initialiser run on a tagged device, which must be a memory.\<close>

definition init_tagged :: "string \<Rightarrow> ('m \<Rightarrow> (bool \<times> 'm) option) \<Rightarrow> 'm sysmod \<Rightarrow> (bool \<times> 'm sysmod \<times> sys_event list) option" where
  "init_tagged tag ini s = (case dev_tagged tag s of
     (None, evs) \<Rightarrow> Some (False, s, evs @ [Load_failed])
   | (Some d, evs) \<Rightarrow>
       if sd_type d \<noteq> ''memory'' then None
       else do {
         (ok, m) \<leftarrow> ini (sm_mem s);
         Some (ok, s\<lparr> sm_mem := m \<rparr>, if ok then [] else [Load_failed])
       })"

definition load_prog :: "'m mem_manager \<Rightarrow> (string \<Rightarrow> data_t option) \<Rightarrow> string \<Rightarrow> string \<Rightarrow> string \<Rightarrow> string \<Rightarrow> 'm sysmod \<Rightarrow>
    ('m sysmod \<times> sys_event list) option" where
  "load_prog mm file hex load lz4 bin s =
     (case filter (\<lambda>(k, e). mm_type e = ''memory'') (sm_memmap s) of
        [] \<Rightarrow> Some (s, [Load_failed])
      | (k, e) # _ \<Rightarrow> do {
          (ok, s, e1) \<leftarrow> (if load \<noteq> [] then init_tagged (mm_tag e) (init_elf mm file load) s else Some (True, s, []));
          if \<not> ok then Some (s, e1)
          else do {
            (ok, s, e2) \<leftarrow> (if hex \<noteq> [] then init_tagged (mm_tag e) (\<lambda>m. Some (init_hex mm hex m)) s else Some (True, s, []));
            if \<not> ok then Some (s, e1 @ e2)
            else do {
              (s, e3) \<leftarrow> (if lz4 \<noteq> [] then bin_loads mm (split_from CHR '','' lz4) True s else Some (s, []));
              (s, e4) \<leftarrow> (if bin \<noteq> [] then bin_loads mm (split_from CHR '','' bin) False s else Some (s, []));
              Some (s, e1 @ e2 @ e3 @ e4)
            }
          }
        })"

definition load_rom :: "'m mem_manager \<Rightarrow> (string \<Rightarrow> data_t option) \<Rightarrow> bool \<Rightarrow> string \<Rightarrow> string \<Rightarrow> 'm sysmod \<Rightarrow>
    ('m sysmod \<times> sys_event list) option" where
  "load_rom mm file enabled tag path s =
     (if \<not> enabled \<or> path = [] then Some (s, [])
      else if length path < 3 then None
      else
        let ext = drop (length path - 3) path in
        if ext = ''elf'' then map_option snd (init_tagged tag (init_elf mm file path) s)
        else if ext = ''hex'' then map_option snd (init_tagged tag (\<lambda>m. Some (init_hex mm path m)) s)
        else Some (s, []))"

definition load_boot :: "'m mem_manager \<Rightarrow> (string \<Rightarrow> data_t option) \<Rightarrow> sysmod_flags \<Rightarrow> string \<Rightarrow> 'm sysmod \<Rightarrow>
    ('m sysmod \<times> sys_event list) option" where
  "load_boot mm file f = load_rom mm file (fl_bootrom f) ''boot''"

definition load_debugrom :: "'m mem_manager \<Rightarrow> (string \<Rightarrow> data_t option) \<Rightarrow> sysmod_flags \<Rightarrow> string \<Rightarrow> 'm sysmod \<Rightarrow>
    ('m sysmod \<times> sys_event list) option" where
  "load_debugrom mm file f = load_rom mm file (fl_debugrom f) ''dm''"

definition load_cplfw :: "'m mem_manager \<Rightarrow> (string \<Rightarrow> data_t option) \<Rightarrow> sysmod_flags \<Rightarrow> string \<Rightarrow> 'm sysmod \<Rightarrow>
    ('m sysmod \<times> sys_event list) option" where
  "load_cplfw mm file f = load_rom mm file (fl_cplfw f) ''memory''"

definition load_prog_easy :: "'m mem_manager \<Rightarrow> (string \<Rightarrow> data_t option) \<Rightarrow> bool \<Rightarrow> string \<Rightarrow> string \<Rightarrow> string \<Rightarrow> string \<Rightarrow> string \<Rightarrow>
    'm sysmod \<Rightarrow> ('m sysmod \<times> sys_event list) option" where
  "load_prog_easy mm file jalr_seen loadfrom hex load lz4 bin s =
     (if loadfrom \<noteq> [] \<and> jalr_seen \<and> \<not> sm_prog_loaded s then do {
        (s', evs) \<leftarrow> load_prog mm file hex load lz4 bin s;
        Some (s'\<lparr> sm_prog_loaded := True \<rparr>, evs)
      }
      else Some (s, []))"

definition set_secure_region :: "string \<Rightarrow> 'm sysmod \<Rightarrow> 'm sysmod option" where
  "set_secure_region region s =
     (if region = [] then Some s
      else do {
        let parts = split_from CHR '':'' region;
        a \<leftarrow> vec_get parts 0;
        lo_addr \<leftarrow> stoull 0 a;
        b \<leftarrow> vec_get parts 1;
        hi_addr \<leftarrow> stoull 0 b;
        Some (s\<lparr> sm_stee := True, sm_secure := (lo_addr, hi_addr) \<rparr>)
      })"

text \<open>Power-on: the platform is composed and the images named on the command line are loaded.\<close>

record load_flags =
  lf_io :: string
  lf_hex :: string
  lf_load :: string
  lf_lz4 :: string
  lf_bin :: string
  lf_bootrom :: string
  lf_debugrom :: string
  lf_cplfw :: string
  lf_secure :: string

definition sysmod_reset :: "'m mem_manager \<Rightarrow> (string \<Rightarrow> data_t option) \<Rightarrow> sysmod_flags \<Rightarrow> load_flags \<Rightarrow> 'm \<Rightarrow> 'm sysmod \<Rightarrow>
    ('m sysmod \<times> sys_event list) option" where
  "sysmod_reset mm file f l m0 s = do {
     let (s, e0) = compose m0 s;
     (s, e1) \<leftarrow> load_io mm (lf_io l) s;
     (s, e2) \<leftarrow> load_prog mm file (lf_hex l) (lf_load l) (lf_lz4 l) (lf_bin l) s;
     (s, e3) \<leftarrow> load_boot mm file f (lf_bootrom l) s;
     (s, e4) \<leftarrow> load_debugrom mm file f (lf_debugrom l) s;
     (s, e5) \<leftarrow> load_cplfw mm file f (lf_cplfw l) s;
     s \<leftarrow> set_secure_region (lf_secure l) s;
     Some (s, e0 @ e1 @ e2 @ e3 @ e4 @ e5)
   }"

text \<open>The co-simulation client reports in: random values are stored and the trickbox clock starts.\<close>

definition whisper_connected :: "'m mem_manager \<Rightarrow> u64 \<Rightarrow> (nat \<Rightarrow> (nat \<times> u64) list) \<Rightarrow> nat \<Rightarrow> 'm sysmod \<Rightarrow>
    ('m sysmod \<times> sys_event list) option" where
  "whisper_connected mm base iss harts s = do {
     (s, evs) \<leftarrow> store_dm_rand mm base iss 0 harts s;
     Some (s\<lparr> sm_cosim_init := True \<rparr>, evs)
   }"

text \<open>Termination: the argument of \<^verbatim>\<open>Terminate_called\<close> tells a synchronous signal from a queued one.\<close>

definition sysmod_terminate :: "bool \<Rightarrow> bool \<Rightarrow> sys_event list" where
  "sysmod_terminate fl_terminate low_priority_based =
     Terminate_fast # Terminate_called low_priority_based # (if fl_terminate then [Terminate_callback] else [])"

definition actual_test_started :: "sys_event list" where
  "actual_test_started = [Test_start]"

section \<open>Windows\<close>

definition window_ok :: "device_id \<Rightarrow> bool" where
  "window_ok d \<longleftrightarrow> unat (dv_addr d) + unat (dv_size d) < 2 ^ 64"

definition disjoint_devs :: "device_id \<Rightarrow> device_id \<Rightarrow> bool" where
  "disjoint_devs x y \<longleftrightarrow> (\<forall>a. \<not> (has_addr x a \<and> has_addr y a))"

lemma has_addr_unat:
  assumes "window_ok d"
  shows "has_addr d a \<longleftrightarrow> unat (dv_addr d) \<le> unat a \<and> unat a < unat (dv_addr d) + unat (dv_size d)"
  using assms by (simp add: has_addr_def window_ok_def word_le_nat_alt word_less_nat_alt unat_add_less)

definition sys_ok :: "'m sysmod \<Rightarrow> bool" where
  "sys_ok s \<longleftrightarrow> (let ds = map sd_id (sm_devices s @ sm_external s) in
     sorted_wrt disjoint_devs ds \<and> distinct (map dv_tag ds) \<and> list_all window_ok ds)"

lemma disjoint_devs_sym: "disjoint_devs x y \<Longrightarrow> disjoint_devs y x"
  by (auto simp: disjoint_devs_def)

lemma find_device_None: "find_device p s = None \<longleftrightarrow> (\<forall>d \<in> set (sm_devices s @ sm_external s). \<not> p (sd_id d))"
  by (auto simp: find_device_def find_None_iff)

lemma no_overlap_disjoint:
  assumes "window_ok x" and "window_ok y"
    and "\<not> (0 < dv_size x \<and> dv_addr x < dv_addr y + dv_size y \<and> dv_addr y < dv_addr x + dv_size x)"
  shows "disjoint_devs x y"
proof -
  have e: "unat (dv_addr x + dv_size x) = unat (dv_addr x) + unat (dv_size x)"
    "unat (dv_addr y + dv_size y) = unat (dv_addr y) + unat (dv_size y)"
    using assms(1,2) by (simp_all add: window_ok_def unat_add_less)
  have "unat (dv_size x) = 0 \<or> unat (dv_addr y) + unat (dv_size y) \<le> unat (dv_addr x) \<or>
      unat (dv_addr x) + unat (dv_size x) \<le> unat (dv_addr y)"
    using assms(3) e by (auto simp: word_less_nat_alt)
  then show ?thesis
    using assms(1,2) by (auto simp: disjoint_devs_def has_addr_unat)
qed

lemma find_device_memmap [simp]: "find_device p (s\<lparr> sm_memmap := m \<rparr>) = find_device p s"
  by (simp add: find_device_def)

lemma add_device_result:
  fixes d :: sys_device
  defines "clash \<equiv> \<lambda>x. dv_size x > 0 \<and> dv_addr x < dv_addr (sd_id d) + dv_size (sd_id d) \<and>
    dv_addr (sd_id d) < dv_addr x + dv_size x"
  obtains (same) m where "fst (add_device d s) = s\<lparr> sm_memmap := m \<rparr>"
  | (added) m where "fst (add_device d s) = s\<lparr> sm_memmap := m, sm_external := sm_external s @ [d] \<rparr>"
    "find_device (\<lambda>x. dv_tag x = dv_tag (sd_id d)) s = None"
    "dv_size (sd_id d) > 0 \<Longrightarrow> find_device clash s = None"
proof -
  let ?m = "if find_device (\<lambda>x. dv_tag x = dv_tag (sd_id d)) s \<noteq> None then sm_memmap s
    else (case sm_map_source s of None \<Rightarrow> sm_memmap s | Some m \<Rightarrow> m)"
  have "fst (add_device d s) = s\<lparr> sm_memmap := ?m \<rparr> \<or>
    fst (add_device d s) = s\<lparr> sm_memmap := ?m, sm_external := sm_external s @ [d] \<rparr> \<and>
    find_device (\<lambda>x. dv_tag x = dv_tag (sd_id d)) s = None \<and>
    (dv_size (sd_id d) > 0 \<longrightarrow> find_device clash s = None)"
    by (simp add: add_device_def clash_def Let_def split: option.split)
  then show ?thesis
    using that by blast
qed

lemma add_device_ok:
  assumes ok: "sys_ok s" and w: "window_ok (sd_id d)"
  shows "sys_ok (fst (add_device d s))"
proof -
  let ?ds = "map sd_id (sm_devices s @ sm_external s)"
  let ?b = "dv_addr (sd_id d)" and ?e = "dv_addr (sd_id d) + dv_size (sd_id d)"
  let ?clash = "\<lambda>x. dv_size x > 0 \<and> dv_addr x < ?e \<and> ?b < dv_addr x + dv_size x"
  show ?thesis
  proof (cases rule: add_device_result [of d s])
    case (added m)
    have tags: "dv_tag (sd_id d) \<notin> (\<lambda>x. dv_tag (sd_id x)) ` set (sm_devices s @ sm_external s)"
      using added(2) by (force simp: find_device_None)
    have "disjoint_devs x (sd_id d)" if x: "x \<in> set ?ds" for x
    proof (cases "dv_size (sd_id d) > 0")
      case True
      have "window_ok x"
        using ok x by (auto simp: sys_ok_def list_all_iff)
      moreover have "\<not> ?clash x"
        using added(3) [OF True] x by (auto simp: find_device_None)
      ultimately show ?thesis
        using w by (intro no_overlap_disjoint) auto
    next
      case False
      then show ?thesis
        using w by (auto simp: disjoint_devs_def has_addr_unat word_less_nat_alt)
    qed
    with ok tags w show ?thesis
      by (simp add: added(1) sys_ok_def sorted_wrt_append image_Un)
  qed (use ok in \<open>simp add: sys_ok_def\<close>)
qed

fun add_devices :: "sys_device list \<Rightarrow> 'm sysmod \<Rightarrow> 'm sysmod" where
  "add_devices [] s = s"
| "add_devices (d # ds) s = add_devices ds (fst (add_device d s))"

lemma add_devices_ok: "sys_ok s \<Longrightarrow> list_all (\<lambda>d. window_ok (sd_id d)) ds \<Longrightarrow> sys_ok (add_devices ds s)"
  by (induction ds arbitrary: s) (simp_all add: add_device_ok)

lemma responders_one:
  assumes "sys_ok s"
  shows "length (responders a s) \<le> 1"
proof -
  have fb: "\<not> has_addr (sd_id fallback_device) a"
    by (simp add: fallback_device_def has_addr_def)
  have "length (filter (\<lambda>d. has_addr d a) ds) \<le> 1" if "sorted_wrt disjoint_devs ds" for ds
    using that
  proof (induction ds)
    case (Cons x xs)
    show ?case
    proof (cases "has_addr x a")
      case True
      then have "filter (\<lambda>d. has_addr d a) xs = []"
        using Cons.prems by (auto simp: disjoint_devs_def filter_empty_conv)
      then show ?thesis
        by simp
    qed (use Cons in simp)
  qed simp
  moreover have "length (responders a s) = length (filter (\<lambda>d. has_addr d a) (map sd_id (sm_devices s @ sm_external s)))"
    by (simp add: responders_def fb filter_map comp_def)
  ultimately show ?thesis
    using assms by (simp only: sys_ok_def Let_def)
qed

text \<open>The fixed window of a device type lies inside the declared window.\<close>

definition fits :: "memmap_entry \<Rightarrow> bool" where
  "fits e \<longleftrightarrow> (case fst (device_of_entry e) of None \<Rightarrow> True | Some d \<Rightarrow> dv_size (sd_id d) \<le> mm_size e)"

lemma device_of_entry_id:
  assumes "fst (device_of_entry e) = Some d"
  shows "dv_tag (sd_id d) = mm_tag e" "dv_addr (sd_id d) = mm_base e"
  using assms by (auto simp: device_of_entry_def Let_def split: if_splits)

lemma device_in_entry:
  assumes "fst (device_of_entry e) = Some d" and "fits e" and "no_wrap e"
  shows "window_ok (sd_id d)" "has_addr (sd_id d) a \<Longrightarrow> covers e a"
proof -
  have sz: "unat (dv_size (sd_id d)) \<le> unat (mm_size e)"
    using assms(1,2) by (simp add: fits_def word_le_nat_alt)
  then show w: "window_ok (sd_id d)"
    using assms(1,3) by (simp add: window_ok_def no_wrap_def device_of_entry_id)
  show "has_addr (sd_id d) a \<Longrightarrow> covers e a"
    using sz w assms(1) by (simp add: has_addr_unat covers_unat device_of_entry_id)
qed

definition made :: "memmap_entry list \<Rightarrow> sys_device list" where
  "made es = concat (map (\<lambda>e. case fst (device_of_entry e) of None \<Rightarrow> [] | Some d \<Rightarrow> [d]) es)"

lemma made_set: "d \<in> set (made es) \<longleftrightarrow> (\<exists>e \<in> set es. fst (device_of_entry e) = Some d)"
  by (auto simp: made_def split: option.splits) metis

lemma made_disjoint:
  assumes "sorted_wrt (\<lambda>x y. \<not> entries_overlap x y) es" and "\<forall>e \<in> set es. no_wrap e \<and> fits e"
  shows "sorted_wrt disjoint_devs (map sd_id (made es))"
  using assms
proof (induction es)
  case (Cons e es)
  have "disjoint_devs (sd_id d) (sd_id d')" if "fst (device_of_entry e) = Some d" "d' \<in> set (made es)" for d d'
  proof -
    from that(2) obtain e' where e': "e' \<in> set es" "fst (device_of_entry e') = Some d'"
      by (auto simp: made_set)
    have ok: "fits e" "no_wrap e" "fits e'" "no_wrap e'" "\<not> entries_overlap e e'"
      using Cons.prems e'(1) by auto
    show ?thesis
      using device_in_entry(2) [OF that(1) ok(1,2)] device_in_entry(2) [OF e'(2) ok(3,4)]
        covers_both_overlap [OF ok(2,4)] ok(5) by (auto simp: disjoint_devs_def)
  qed
  moreover have "sorted_wrt disjoint_devs (map sd_id (made es))"
    using Cons by simp
  moreover have "made (e # es) = (case fst (device_of_entry e) of None \<Rightarrow> [] | Some d \<Rightarrow> [d]) @ made es"
    by (simp add: made_def)
  ultimately show ?case
    by (auto split: option.splits)
qed (simp add: made_def)

definition windows_clash :: "device_id \<Rightarrow> device_id \<Rightarrow> bool" where
  "windows_clash x y \<longleftrightarrow> 0 < dv_size x \<and> 0 < dv_size y \<and> dv_addr x < dv_addr y + dv_size y \<and> dv_addr y < dv_addr x + dv_size x"

lemma disjoint_iff_clash:
  assumes "window_ok x" and "window_ok y"
  shows "disjoint_devs x y \<longleftrightarrow> \<not> windows_clash x y"
proof
  have e: "unat (dv_addr x + dv_size x) = unat (dv_addr x) + unat (dv_size x)"
    "unat (dv_addr y + dv_size y) = unat (dv_addr y) + unat (dv_size y)"
    using assms by (simp_all add: window_ok_def unat_add_less)
  assume d: "disjoint_devs x y"
  show "\<not> windows_clash x y"
  proof
    assume "windows_clash x y"
    then have "has_addr x (max (dv_addr x) (dv_addr y))" "has_addr y (max (dv_addr x) (dv_addr y))"
      using e assms by (auto simp: windows_clash_def has_addr_unat word_less_nat_alt max_def word_le_nat_alt)
    with d show False
      by (auto simp: disjoint_devs_def)
  qed
next
  assume "\<not> windows_clash x y"
  then consider "\<not> (0 < dv_size x \<and> dv_addr x < dv_addr y + dv_size y \<and> dv_addr y < dv_addr x + dv_size x)" | "dv_size y = 0"
    by (auto simp: windows_clash_def word_gt_0)
  then show "disjoint_devs x y"
  proof cases
    case 1
    then show ?thesis
      by (rule no_overlap_disjoint [OF assms])
  next
    case 2
    then show ?thesis
      by (auto simp: disjoint_devs_def has_addr_def)
  qed
qed

text \<open>The windows that the composed devices of a memory map really have do not overlap.\<close>

definition built_in_disjoint :: "memmap \<Rightarrow> bool" where
  "built_in_disjoint m \<longleftrightarrow> sorted_wrt (\<lambda>x y. \<not> windows_clash x y) (map sd_id (made (map snd m)))"

lemma built_in_disjoint_iff:
  assumes "\<forall>d \<in> set (made (map snd m)). window_ok (sd_id d)"
  shows "built_in_disjoint m \<longleftrightarrow> sorted_wrt disjoint_devs (map sd_id (made (map snd m)))"
proof -
  have "disjoint_devs x y \<longleftrightarrow> \<not> windows_clash x y" if "x \<in> set (map sd_id (made (map snd m)))" "y \<in> set (map sd_id (made (map snd m)))" for x y
    using that assms by (intro disjoint_iff_clash) auto
  then show ?thesis
    unfolding built_in_disjoint_def by (auto elim!: sorted_wrt_mono_rel [rotated])
qed

definition sys_tags :: "'m sysmod \<Rightarrow> string list" where
  "sys_tags s = map (\<lambda>d. dv_tag (sd_id d)) (sm_devices s @ sm_external s)"

lemma compose_devices:
  assumes "sm_map_source s = Some m" and "sm_external s = []"
  shows "sm_devices (fst (compose m0 s)) = made (map snd m) @ [heartbeat_device]" "sm_external (fst (compose m0 s)) = []"
  using assms by (simp_all add: compose_def made_def Let_def case_prod_beta comp_def)

lemma compose_tags:
  assumes parse: "memmap_parse json = Some m" and hb: "''heartbeat'' \<notin> fst ` set m"
    and src: "sm_map_source s = Some m" and ext: "sm_external s = []"
  shows "distinct (sys_tags (fst (compose m0 s)))"
proof -
  note m = memmap_parse_ok [OF parse]
  have keys: "mm_tag e = k" if "(k, e) \<in> set m" for k e
    using m(1) that by (auto simp: map_ok_def)
  have tags: "map (\<lambda>d. dv_tag (sd_id d)) (made (map snd l)) =
      map fst (filter (\<lambda>(k, e). fst (device_of_entry e) \<noteq> None) l)" if "set l \<subseteq> set m" for l
    using that keys by (induction l) (auto simp: made_def device_of_entry_id split: option.split)
  have "distinct (map (\<lambda>d. dv_tag (sd_id d)) (made (map snd m)))"
    using m(3) by (simp add: tags distinct_map_filter)
  moreover have "''heartbeat'' \<notin> set (map (\<lambda>d. dv_tag (sd_id d)) (made (map snd m)))"
    using hb by (auto simp only: tags set_map set_filter)
  ultimately show ?thesis
    by (auto simp: sys_tags_def compose_devices [OF src ext] heartbeat_device_def)
qed

lemma compose_ok:
  assumes tags: "distinct (sys_tags (fst (compose m0 s)))"
    and w: "\<forall>d \<in> set (made (map snd m)). window_ok (sd_id d)" and dj: "built_in_disjoint m"
    and src: "sm_map_source s = Some m" and ext: "sm_external s = []"
  shows "sys_ok (fst (compose m0 s))"
proof -
  have "disjoint_devs x (sd_id heartbeat_device)" for x
    by (simp add: disjoint_devs_def has_addr_def heartbeat_device_def)
  moreover have "window_ok (sd_id heartbeat_device)"
    by (simp add: heartbeat_device_def window_ok_def)
  ultimately show ?thesis
    using tags w dj unfolding built_in_disjoint_iff [OF w]
    by (simp add: sys_ok_def sys_tags_def compose_devices [OF src ext] sorted_wrt_append list_all_iff comp_def)
qed

lemma add_device_keeps:
  "sm_devices (fst (add_device d s)) = sm_devices s" "distinct (sys_tags s) \<Longrightarrow> distinct (sys_tags (fst (add_device d s)))"
  by (atomize (full), cases rule: add_device_result [of d s]) (auto simp: sys_tags_def find_device_None)

lemma add_devices_keeps:
  "sm_devices (add_devices ds s) = sm_devices s" "distinct (sys_tags s) \<Longrightarrow> distinct (sys_tags (add_devices ds s))"
  by (induction ds arbitrary: s) (simp_all add: add_device_keeps)

lemma one_responder_disjoint:
  assumes tags: "distinct (sys_tags t)" and one: "\<forall>a. length (responders a t) \<le> 1"
    and devs: "sm_devices t = made (map snd m) @ [heartbeat_device]" and w: "\<forall>d \<in> set (made (map snd m)). window_ok (sd_id d)"
  shows "built_in_disjoint m"
proof -
  have same: "d = d'" if "d \<in> set (made (map snd m))" "d' \<in> set (made (map snd m))" "has_addr (sd_id d) a" "has_addr (sd_id d') a" for d d' a
  proof -
    have "d \<in> set (responders a t)" "d' \<in> set (responders a t)"
      using that by (auto simp: responders_def devs)
    then show ?thesis
      using one [rule_format, of a] by (cases "responders a t") auto
  qed
  have "distinct (made (map snd m))"
    using tags by (simp add: sys_tags_def devs distinct_map)
  then have "sorted_wrt (\<lambda>d d'. d \<noteq> d') (made (map snd m))"
    by (auto simp: sorted_wrt_iff_nth_less nth_eq_iff_index_eq)
  then show ?thesis
    unfolding built_in_disjoint_iff [OF w] sorted_wrt_map
    by (rule sorted_wrt_mono_rel [rotated]) (use same in \<open>auto simp: disjoint_devs_def\<close>)
qed

text \<open>
  C2: The address map of the composed platform is a partial function exactly when the windows the
  devices really have are disjoint.  Compose the devices of an accepted memory map, none of them
  tagged \<^verbatim>\<open>heartbeat\<close>, whose device windows do not wrap around, then add any sequence of
  devices with windows that do not wrap: all tags are distinct; every address has at most one
  responder if and only if no two of the composed windows overlap, because added
  devices never overlap anything; and then a request inside a device's window is answered by that
  device alone.  Device types with a fixed window ignore the size declared in the map, and the
  check of the map looks at declared sizes only, so it guarantees disjoint windows for maps
  whose declared windows do not wrap and are as large as the fixed ones.
\<close>
theorem one_responder:
  assumes "memmap_parse json = Some m" and "\<forall>d \<in> set (made (map snd m)). window_ok (sd_id d)"
    and "''heartbeat'' \<notin> fst ` set m" and "sm_map_source s = Some m" and "sm_external s = []"
    and "list_all (\<lambda>d. window_ok (sd_id d)) ds" and "t = add_devices ds (fst (compose m0 s))"
  shows "distinct (sys_tags t) \<and>
    ((\<forall>a. length (responders a t) \<le> 1) \<longleftrightarrow> built_in_disjoint m) \<and>
    (built_in_disjoint m \<longrightarrow> (\<forall>a. \<forall>d \<in> set (sm_devices t @ sm_external t). has_addr (sd_id d) a \<longrightarrow> responders a t = [d])) \<and>
    ((\<forall>(k, e) \<in> set m. no_wrap e \<and> fits e) \<longrightarrow> built_in_disjoint m)"
proof -
  note tags0 = compose_tags [OF assms(1,3,4,5), of m0]
  have tags: "distinct (sys_tags t)"
    using add_devices_keeps(2) [OF tags0] assms(7) by simp
  have devs: "sm_devices t = made (map snd m) @ [heartbeat_device]"
    using assms(7) compose_devices [OF assms(4,5)] by (simp add: add_devices_keeps(1))
  have one: "length (responders a t) \<le> 1" if "built_in_disjoint m" for a
    using responders_one add_devices_ok [OF compose_ok [OF tags0 assms(2) that assms(4,5)] assms(6)] assms(7) by simp
  have own: "responders a t = [d]" if "built_in_disjoint m" "d \<in> set (sm_devices t @ sm_external t)" "has_addr (sd_id d) a" for a d
  proof -
    have "d \<in> set (responders a t)"
      using that(2,3) by (auto simp: responders_def)
    then show ?thesis
      using one [OF that(1), of a] by (cases "responders a t") auto
  qed
  have "built_in_disjoint m" if "\<forall>(k, e) \<in> set m. no_wrap e \<and> fits e"
  proof -
    have "\<forall>e \<in> set (map snd m). no_wrap e \<and> fits e"
      using that by auto
    from made_disjoint [OF memmap_parse_ok(2) [OF assms(1)] this] show ?thesis
      by (simp add: built_in_disjoint_iff [OF assms(2)])
  qed
  then show ?thesis
    using tags one own one_responder_disjoint [OF tags _ devs assms(2)] by blast
qed

definition platform_map :: memmap where
  "platform_map = [(''e'', \<lparr> mm_base = 0x20, mm_size = 0x40, mm_type = ''external'', mm_tag = ''e'', mm_end = 0x5f \<rparr>),
     (''m'', \<lparr> mm_base = 0x80, mm_size = 0x10, mm_type = ''memory'', mm_tag = ''m'', mm_end = 0x8f \<rparr>)]"

definition fresh_sysmod :: "'m \<Rightarrow> 'm sysmod" where
  "fresh_sysmod m = \<lparr> sm_devices = [], sm_external = [], sm_fallback = False, sm_map_source = None, sm_memmap = [], sm_ticks = 0, sm_jtag_ticks = 0,
     sm_overlay_ticks = 0, sm_cosim_init = True, sm_stee = False, sm_secure = (0, 0), sm_prog_loaded = False, sm_mem = m \<rparr>"

definition platform_start :: "unit sysmod" where
  "platform_start = (fresh_sysmod ())\<lparr> sm_map_source := Some platform_map \<rparr>"

definition plugin :: sys_device where
  "plugin = \<lparr> sd_id = \<lparr> dv_tag = ''x'', dv_addr = 0x30, dv_size = 0x10 \<rparr>, sd_type = ''plugin'' \<rparr>"

lemma platform_devices:
  "sm_devices (add_devices [plugin] (fst (compose () platform_start))) =
    [\<lparr> sd_id = \<lparr> dv_tag = ''m'', dv_addr = 0x80, dv_size = 0x10 \<rparr>, sd_type = ''memory'' \<rparr>, heartbeat_device]"
  "sm_external (add_devices [plugin] (fst (compose () platform_start))) = [plugin]"
  by (simp_all add: compose_def platform_start_def platform_map_def device_of_entry_def add_device_def find_device_def fresh_sysmod_def
      plugin_def heartbeat_device_def)

lemma platform_ok: "sys_ok (add_devices [plugin] (fst (compose () platform_start)))"
proof -
  have "window_ok \<lparr> dv_tag = ''m'', dv_addr = 0x80, dv_size = 0x10 \<rparr>" "window_ok (sd_id heartbeat_device)" "window_ok (sd_id plugin)"
    by (simp_all add: window_ok_def heartbeat_device_def plugin_def)
  then show ?thesis
    unfolding sys_ok_def platform_devices Let_def
    by (simp add: disjoint_iff_clash) (simp add: windows_clash_def heartbeat_device_def plugin_def)
qed

text \<open>
  The memory map of \<^verbatim>\<open>test/examples/common/dv/memmap.json\<close>; the declared size of the trickbox is smaller
  than its window.
\<close>

definition example_json :: "json_entry list" where
  "example_json = [
     \<lparr> js_base = ''0x00000000'', js_size = ''0x02000000'', js_type = ''memory'', js_tag = ''boot'' \<rparr>,
     \<lparr> js_base = ''0x80000000'', js_size = ''0x80000000'', js_type = ''memory'', js_tag = ''memory'' \<rparr>,
     \<lparr> js_base = ''0x08000000'', js_size = ''0x00100000'', js_type = ''memory'', js_tag = ''scratch'' \<rparr>,
     \<lparr> js_base = ''0x02000000'', js_size = ''0x0000c000'', js_type = ''clint'', js_tag = ''clint'' \<rparr>,
     \<lparr> js_base = ''0x09000000'', js_size = ''0x000c0000'', js_type = ''trickbox'', js_tag = ''trickbox'' \<rparr>,
     \<lparr> js_base = ''0x70000000'', js_size = ''0x00000010'', js_type = ''htif'', js_tag = ''htif'' \<rparr>]"

definition example_map :: memmap where
  "example_map = map (\<lambda>(tag, ty, b, n). (tag, \<lparr> mm_base = b, mm_size = n, mm_type = ty, mm_tag = tag, mm_end = b + n - 1 \<rparr>))
     [(''boot'', ''memory'', 0, 0x2000000), (''clint'', ''clint'', 0x2000000, 0xc000), (''htif'', ''htif'', 0x70000000, 0x10),
      (''memory'', ''memory'', 0x80000000, 0x80000000), (''scratch'', ''memory'', 0x8000000, 0x100000),
      (''trickbox'', ''trickbox'', 0x9000000, 0xc0000)]"

lemma example_parse: "memmap_parse example_json = Some example_map"
  by code_simp

lemma example_made:
  "made (map snd example_map) = map (\<lambda>(tag, ty, b, n). \<lparr> sd_id = \<lparr> dv_tag = tag, dv_addr = b, dv_size = n \<rparr>, sd_type = ty \<rparr>)
     [(''boot'', ''memory'', 0, 0x2000000), (''clint'', ''clint'', 0x2000000, 0xc000), (''htif'', ''htif'', 0x70000000, 0x10),
      (''memory'', ''memory'', 0x80000000, 0x80000000), (''scratch'', ''memory'', 0x8000000, 0x100000),
      (''trickbox'', ''trickbox'', 0x9000000, 0x1c00000)]"
  by (simp add: made_def example_map_def device_of_entry_def)

theorem one_responder_witness:
  "\<not> (\<forall>(k, e) \<in> set example_map. fits e) \<and>
   responders 0x9ffffff (add_devices [plugin] (fst (compose () ((fresh_sysmod ())\<lparr> sm_map_source := Some example_map \<rparr>)))) =
     [\<lparr> sd_id = \<lparr> dv_tag = ''trickbox'', dv_addr = 0x9000000, dv_size = 0x1c00000 \<rparr>, sd_type = ''trickbox'' \<rparr>]"
proof -
  let ?s = "(fresh_sysmod ())\<lparr> sm_map_source := Some example_map \<rparr>"
  let ?d = "\<lparr> sd_id = \<lparr> dv_tag = ''trickbox'', dv_addr = 0x9000000, dv_size = 0x1c00000 \<rparr>, sd_type = ''trickbox'' \<rparr>"
  have w: "\<forall>d \<in> set (made (map snd example_map)). window_ok (sd_id d)"
    by (simp add: example_made window_ok_def)
  have h: "''heartbeat'' \<notin> fst ` set example_map" "sm_map_source ?s = Some example_map" "sm_external ?s = []"
    "list_all (\<lambda>d. window_ok (sd_id d)) [plugin]" "\<not> (\<forall>(k, e) \<in> set example_map. fits e)"
    by (simp_all add: window_ok_def example_map_def plugin_def fresh_sysmod_def fits_def device_of_entry_def)
  have dj: "built_in_disjoint example_map"
    by (simp add: built_in_disjoint_def example_made windows_clash_def)
  define t where "t = add_devices [plugin] (fst (compose () ?s))"
  have "?d \<in> set (sm_devices t @ sm_external t)"
    by (simp add: t_def add_device_keeps(1) compose_devices [OF h(2,3)] example_made)
  then have "has_addr (sd_id ?d) 0x9ffffff \<longrightarrow> responders 0x9ffffff t = [?d]"
    using one_responder [OF example_parse w h(1-4) t_def] dj by blast
  then show ?thesis
    using h(5) by (simp add: has_addr_def t_def)
qed


definition sample_flags :: sysmod_flags where
  "sample_flags = \<lparr> pa_mask = 0, tick_threshold = 10, fl_cosim = True, fl_mcm = False, fl_bootrom = False, fl_debugrom = False,
     fl_cplfw = False, mem_default_64 = 0 \<rparr>"


section \<open>Ticks\<close>

fun ticks_all :: "sysmod_flags \<Rightarrow> u64 list \<Rightarrow> 'm sysmod \<Rightarrow> ('m sysmod \<times> sys_event list) option" where
  "ticks_all f [] s = Some (s, [])"
| "ticks_all f (a # as) s = do {
     (s1, e1) \<leftarrow> sysmod_tick f a s;
     (s2, e2) \<leftarrow> ticks_all f as s1;
     Some (s2, e1 @ e2)
   }"

definition delivered :: "string \<Rightarrow> sys_event list \<Rightarrow> nat" where
  "delivered tag evs = sum_list (map (\<lambda>e. case e of Dev_tick t n \<Rightarrow> if t = tag then unat n else 0 | _ \<Rightarrow> 0) evs)"

lemma delivered_append [simp]: "delivered tag (xs @ ys) = delivered tag xs + delivered tag ys"
  by (simp add: delivered_def)

lemma delivered_broadcast:
  assumes "distinct (map dv_tag (map sd_id ds))" and "d \<in> set ds" and "\<not> sk (sd_id d)"
  shows "delivered (dv_tag (sd_id d)) (concat (map (\<lambda>d. if sk (sd_id d) then [] else [Dev_tick (dv_tag (sd_id d)) n]) ds)) = unat n"
proof -
  have none: "delivered tag (concat (map (\<lambda>d. if sk (sd_id d) then [] else [Dev_tick (dv_tag (sd_id d)) n]) xs)) = 0"
    if "tag \<notin> set (map dv_tag (map sd_id xs))" for tag xs
    using that by (induction xs) (auto simp: delivered_def)
  show ?thesis
    using assms
  proof (induction ds)
    case (Cons x xs)
    show ?case
    proof (cases "d = x")
      case True
      then show ?thesis
        using Cons.prems none [of "dv_tag (sd_id x)" xs] by (simp add: delivered_def)
    next
      case False
      then have "dv_tag (sd_id x) \<noteq> dv_tag (sd_id d)"
        using Cons.prems by (auto simp: image_iff)
      then show ?thesis
        using Cons False by (simp add: delivered_def)
    qed
  qed simp
qed

lemma sysmod_tick_step:
  assumes th: "0 < tick_threshold f" and lt: "sm_ticks s < tick_threshold f"
    and small: "unat a + unat (tick_threshold f) \<le> 2 ^ 64"
    and ok: "distinct (map dv_tag (map sd_id (sm_devices s @ sm_external s)))"
    and d: "d \<in> set (sm_devices s @ sm_external s)" and tk: "sm_cosim_init s \<or> dv_tag (sd_id d) \<noteq> ''trickbox''"
  shows "\<exists>r evs. sysmod_tick f a s = Some (s\<lparr> sm_ticks := r \<rparr>, evs) \<and> r < tick_threshold f \<and>
    delivered (dv_tag (sd_id d)) evs + unat r = unat (sm_ticks s) + unat a \<and>
    unat (tick_threshold f) dvd delivered (dv_tag (sd_id d)) evs"
proof -
  let ?th = "tick_threshold f" and ?t = "sm_ticks s + a"
  have t: "unat ?t = unat (sm_ticks s) + unat a"
    using lt small by (intro unat_add_less) (simp add: word_less_nat_alt)
  show ?thesis
  proof (cases "?th \<le> ?t")
    case True
    let ?adv = "?t - ?t mod ?th"
    have r: "?t mod ?th < ?th" "?t mod ?th \<le> ?t"
      using th by (simp_all add: word_less_nat_alt word_le_nat_alt unat_mod_distrib)
    have adv: "unat ?adv = unat ?t - unat ?t mod unat ?th"
      using r(2) by (simp add: unat_sub unat_mod_distrib)
    then have "unat ?th dvd unat ?adv" "unat ?adv + unat (?t mod ?th) = unat ?t"
      by (simp_all add: minus_mod_eq_mult_div unat_mod_distrib)
    moreover have "?adv \<noteq> 0"
      using True r(1) by auto
    with True th have "sysmod_tick f a s = Some (s\<lparr> sm_ticks := ?t mod ?th \<rparr>,
        concat (map (\<lambda>d. if \<not> sm_cosim_init s \<and> dv_tag (sd_id d) = ''trickbox'' then [] else [Dev_tick (dv_tag (sd_id d)) ?adv])
          (sm_devices s @ sm_external s)))"
      by (simp add: sysmod_tick_def for_each_device_def Let_def)
    moreover note delivered_broadcast [OF ok d, of "\<lambda>d. \<not> sm_cosim_init s \<and> dv_tag d = ''trickbox''" ?adv]
    ultimately show ?thesis
      using tk r(1) t by (intro exI conjI) auto
  next
    case False
    then have "sysmod_tick f a s = Some (s\<lparr> sm_ticks := ?t \<rparr>, [])"
      by (simp add: sysmod_tick_def)
    then show ?thesis
      using t False by (intro exI conjI) (auto simp: delivered_def not_le)
  qed
qed

text \<open>
  C18: Clock ticks are neither lost nor invented.  Over any sequence of clock advances, as
  long as a single advance and the update threshold fit the counter together, the
  distribution always returns; what a device has been told plus the held back
  remainder is exactly what was advanced, deliveries are whole multiples of the threshold,
  and the remainder stays below it.  (The trickbox is included once co-simulation is set up.)
\<close>
theorem ticks_conserved:
  assumes "0 < tick_threshold f" and "sm_ticks s < tick_threshold f"
    and "\<forall>a \<in> set as. unat a + unat (tick_threshold f) \<le> 2 ^ 64"
    and "sys_ok s" and "d \<in> set (sm_devices s @ sm_external s)"
    and "sm_cosim_init s \<or> dv_tag (sd_id d) \<noteq> ''trickbox''"
  shows "\<exists>r evs. ticks_all f as s = Some (s\<lparr> sm_ticks := r \<rparr>, evs) \<and> r < tick_threshold f \<and>
    delivered (dv_tag (sd_id d)) evs + unat r = unat (sm_ticks s) + sum_list (map unat as) \<and>
    unat (tick_threshold f) dvd delivered (dv_tag (sd_id d)) evs"
proof -
  have "distinct (map dv_tag (map sd_id (sm_devices s @ sm_external s)))"
    using assms(4) by (simp only: sys_ok_def Let_def)
  with assms(2,3,5,6) show ?thesis
  proof (induction as arbitrary: s)
    case Nil
    then show ?case
      by (intro exI [of _ "sm_ticks s"] exI [of _ "[]"]) (simp add: delivered_def)
  next
    case (Cons a as)
    from sysmod_tick_step [OF assms(1) Cons.prems(1) _ Cons.prems(5,3,4), of a] Cons.prems(2) obtain r e1
      where 1: "sysmod_tick f a s = Some (s\<lparr> sm_ticks := r \<rparr>, e1)" "r < tick_threshold f"
        "delivered (dv_tag (sd_id d)) e1 + unat r = unat (sm_ticks s) + unat a"
        "unat (tick_threshold f) dvd delivered (dv_tag (sd_id d)) e1"
      by auto
    from Cons.IH [of "s\<lparr> sm_ticks := r \<rparr>"] Cons.prems 1(2) obtain r' e2
      where 2: "ticks_all f as (s\<lparr> sm_ticks := r \<rparr>) = Some (s\<lparr> sm_ticks := r' \<rparr>, e2)" "r' < tick_threshold f"
        "delivered (dv_tag (sd_id d)) e2 + unat r' = unat r + sum_list (map unat as)"
        "unat (tick_threshold f) dvd delivered (dv_tag (sd_id d)) e2"
      by auto
    show ?case
      using 1 2 by (intro exI [of _ r'] exI [of _ "e1 @ e2"]) simp
  qed
qed

theorem ticks_conserved_witness:
  "\<exists>r evs. ticks_all sample_flags [7, 8, 20] (add_devices [plugin] (fst (compose () platform_start))) =
      Some ((add_devices [plugin] (fst (compose () platform_start)))\<lparr> sm_ticks := r \<rparr>, evs) \<and>
    r < 10 \<and> delivered ''x'' evs + unat r = 35 \<and> 10 dvd delivered ''x'' evs"
proof -
  define t where "t = add_devices [plugin] (fst (compose () platform_start))"
  have ok: "sys_ok t"
    using platform_ok by (simp only: t_def)
  have in_t: "plugin \<in> set (sm_devices t @ sm_external t)"
    unfolding t_def set_append platform_devices by simp
  have keep: "sm_ticks (fst (add_device d s)) = sm_ticks s" for d and s :: "unit sysmod"
    by (cases rule: add_device_result [of d s]) simp_all
  have "sm_ticks t = 0"
    by (simp add: t_def keep compose_def platform_start_def fresh_sysmod_def Let_def)
  with ticks_conserved [of sample_flags t "[7, 8, 20]" plugin, OF _ _ _ ok in_t] show ?thesis
    unfolding t_def [symmetric] by (simp add: sample_flags_def plugin_def)
qed

section \<open>Coherence with the reference model\<close>

text \<open>
  The instruction set simulator is a library.  Its memory is read by \<^verbatim>\<open>pk\<close> and written by
  \<^verbatim>\<open>po\<close>; a poke of n bytes stores the value in little-endian order.
\<close>

definition iss_laws :: "('i \<Rightarrow> u64 \<Rightarrow> u8) \<Rightarrow> (u64 \<Rightarrow> nat \<Rightarrow> u64 \<Rightarrow> 'i \<Rightarrow> 'i) \<Rightarrow> bool" where
  "iss_laws pk po \<longleftrightarrow> (\<forall>a n v i x. n \<le> 8 \<longrightarrow> pk (po a n v i) x = (if unat (x - a) < n then byte_of v (unat (x - a)) else pk i x))"

lemma iss_poke: "iss_laws pk po \<Longrightarrow> n \<le> 8 \<Longrightarrow>
    pk (po a n v i) x = (if unat (x - a) < n then byte_of v (unat (x - a)) else pk i x)"
  by (simp add: iss_laws_def)

fun run_pokes :: "(u64 \<Rightarrow> nat \<Rightarrow> u64 \<Rightarrow> 'i \<Rightarrow> 'i) \<Rightarrow> sys_event list \<Rightarrow> 'i \<Rightarrow> 'i" where
  "run_pokes po [] i = i"
| "run_pokes po (Poke a n v # es) i = run_pokes po es (po a n v i)"
| "run_pokes po (e # es) i = run_pokes po es i"

lemma backdoor_read_bytes:
  assumes "mem_laws mm" and "mem_dev_of s = Some d" and "sd_type d = ''memory''"
  shows "\<exists>v. backdoor_read mm a s = Some v \<and> (\<forall>j < 8. byte_of v j = mem_at mm (sm_mem s) (a + of_nat j))"
proof -
  let ?data = "map (\<lambda>j. mem_at mm (sm_mem s) (a + of_nat j)) [0..<8]"
  have r: "backdoor_read mm a s = deserializeInt ?data"
    using assms(2,3)
    by (simp add: backdoor_read_def backdoor_read_dev_def mem_backdoor_read_def mem_laws_read [OF assms(1)] del: upt_rec_numeral)
  obtain v :: u64 where v: "deserializeInt ?data = Some v"
    using deserializeInt_Some [where 'a = 64, of ?data] by auto
  have "byte_of v j = ?data ! j" if "j < 8" for j
    using deserializeInt_nth [OF v, of j] that by simp
  then show ?thesis
    using r v by auto
qed

lemma within_word:
  fixes x a :: u64
  assumes "k \<le> 2 ^ 64 - 8"
  shows "unat (x - (a + of_nat k)) < 8 \<longleftrightarrow> k \<le> unat (x - a) \<and> unat (x - a) < k + (8 :: nat)"
    and "unat (x - (a + of_nat k)) < 8 \<Longrightarrow> unat (x - (a + of_nat k)) = unat (x - a) - k"
proof -
  have k: "unat (of_nat k :: u64) = k"
    using assms by (simp add: unat_of_nat_less)
  have d: "x - (a + of_nat k) = (x - a) - of_nat k"
    by simp
  have sub: "unat (x - (a + of_nat k)) = (if k \<le> unat (x - a) then unat (x - a) - k else unat (x - a) + 2 ^ 64 - k)"
    unfolding d unat_sub_if_size k by (simp add: word_size)
  then show 1: "unat (x - (a + of_nat k)) < 8 \<longleftrightarrow> k \<le> unat (x - a) \<and> unat (x - a) < k + 8"
    using assms by auto
  show "unat (x - (a + of_nat k)) < 8 \<Longrightarrow> unat (x - (a + of_nat k)) = unat (x - a) - k"
    using sub 1 by auto
qed

lemma poke_line_coherent:
  assumes "mem_laws mm" and "iss_laws pk po" and "mem_dev_of s = Some d" and "sd_type d = ''memory''"
    and "i + k \<le> 8"
  shows "\<exists>evs. poke_line mm line i k s = Some evs \<and>
    (\<forall>m x. pk (run_pokes po evs m) x = (if 8 * i \<le> unat (x - line) \<and> unat (x - line) < 8 * (i + k)
       then mem_at mm (sm_mem s) x else pk m x))"
  using assms(5)
proof (induction k arbitrary: i)
  case 0
  then show ?case
    by auto
next
  case (Suc k)
  from backdoor_read_bytes [OF assms(1,3,4), of "line + of_nat (i * 8)"] obtain v
    where v: "backdoor_read mm (line + of_nat (i * 8)) s = Some v"
      "\<And>j. j < 8 \<Longrightarrow> byte_of v j = mem_at mm (sm_mem s) (line + of_nat (i * 8) + of_nat j)"
    by auto
  from Suc.IH [of "Suc i"] Suc.prems obtain evs where evs: "poke_line mm line (Suc i) k s = Some evs"
      "\<And>m x. pk (run_pokes po evs m) x = (if 8 * Suc i \<le> unat (x - line) \<and> unat (x - line) < 8 * (Suc i + k)
       then mem_at mm (sm_mem s) x else pk m x)"
    by auto
  have w: "unat (x - (line + of_nat (i * 8))) < 8 \<longleftrightarrow> 8 * i \<le> unat (x - line) \<and> unat (x - line) < 8 * Suc i" for x
    using within_word(1) [of "i * 8" x line] Suc.prems by (auto simp: mult.commute)
  have "pk (po (line + of_nat (i * 8)) 8 v m) x =
      (if 8 * i \<le> unat (x - line) \<and> unat (x - line) < 8 * Suc i then mem_at mm (sm_mem s) x else pk m x)" for m x
    using v(2) [of "unat (x - (line + of_nat (i * 8)))"] w [of x] by (simp add: iss_poke [OF assms(2)])
  then have "pk (run_pokes po (Poke (line + of_nat (i * 8)) 8 v # evs) m) x =
      (if 8 * i \<le> unat (x - line) \<and> unat (x - line) < 8 * (i + Suc k) then mem_at mm (sm_mem s) x else pk m x)" for m x
    using evs(2) [of "po (line + of_nat (i * 8)) 8 v m" x] by auto
  then show ?case
    using v(1) evs(1) by (intro exI [of _ "Poke (line + of_nat (i * 8)) 8 v # evs"]) simp
qed

lemma same_line:
  fixes a x :: u64
  shows "unat (x - push_bit 6 (drop_bit 6 a)) < 64 \<longleftrightarrow> drop_bit 6 x = drop_bit 6 a"
proof -
  let ?l = "push_bit 6 (drop_bit 6 a)"
  have d: "unat (drop_bit 6 y) = unat y div 64" for y :: u64
    by (simp add: drop_bit_eq_div unat_div_distrib)
  have b: "unat a < 2 ^ 64" "unat x < 2 ^ 64"
    using unsigned_less [of a] unsigned_less [of x] by simp_all
  then have c: "unat a div 64 < 2 ^ 58"
    by (intro less_mult_imp_div_less) simp
  have "unat a div 64 * 64 < 2 ^ 64"
    using b by (auto intro: le_less_trans [OF div_times_less_eq_dividend])
  then have l: "unat ?l = unat a div 64 * 64"
    by (simp add: push_bit_eq_mult unat_mult_less d)
  have "unat (x - ?l) < 64 \<longleftrightarrow> unat x div 64 = unat a div 64"
    unfolding unat_sub_if_size l using b c by (auto simp: word_size)
  then show ?thesis
    by (simp only: word_unat_eq_iff d)
qed

text \<open>
  C23: After a cache block invalidation response the reference model holds the memory
  contents of the whole line.  For any poke interface with the documented effect, the response
  succeeds and every address of the 64 byte line then reads in the reference model as it
  reads in memory, while no other address of the reference model changes.
\<close>
theorem invalidated_line_coherent:
  assumes "mem_laws mm" and "iss_laws pk po" and "mem_dev_of s = Some d" and "sd_type d = ''memory''"
    and "mcm = fl_mcm f"
  shows "\<exists>evs. store_inval_crsp mm f addr mcm s = Some evs \<and>
    (\<forall>m x. pk (run_pokes po evs m) x =
      (if drop_bit 6 x = drop_bit 6 (addr AND NOT (pa_mask f)) then mem_at mm (sm_mem s) x else pk m x))"
proof -
  define l where "l = addr AND NOT (pa_mask f)"
  have crsp: "store_inval_crsp mm f addr mcm s = poke_line mm (push_bit 6 (drop_bit 6 l)) 0 8 s"
    using assms(5) by (simp only: store_inval_crsp_def l_def) simp
  show ?thesis
    unfolding l_def [symmetric] crsp
    using poke_line_coherent [OF assms(1-4), of 0 8 "push_bit 6 (drop_bit 6 l)"] by (simp add: same_line)
qed

definition mem_platform :: "(u64 \<Rightarrow> u8) \<Rightarrow> (u64 \<Rightarrow> u8) sysmod" where
  "mem_platform m = (fresh_sysmod m)\<lparr> sm_devices :=
     [\<lparr> sd_id = \<lparr> dv_tag = ''memory'', dv_addr = 0, dv_size = 0x1000 \<rparr>, sd_type = ''memory'' \<rparr>] \<rparr>"

lemma mem_platform_dev:
  "mem_dev_of (mem_platform m) = Some \<lparr> sd_id = \<lparr> dv_tag = ''memory'', dv_addr = 0, dv_size = 0x1000 \<rparr>, sd_type = ''memory'' \<rparr>"
  "sm_mem (mem_platform m) = m"
  by (simp_all add: mem_platform_def dev_tagged_def find_device_def fresh_sysmod_def)

definition poke_fun :: "u64 \<Rightarrow> nat \<Rightarrow> u64 \<Rightarrow> (u64 \<Rightarrow> u8) \<Rightarrow> u64 \<Rightarrow> u8" where
  "poke_fun a n v m x = (if unat (x - a) < n then byte_of v (unat (x - a)) else m x)"

lemma poke_fun_laws: "iss_laws (\<lambda>m. m) poke_fun"
  by (simp add: iss_laws_def poke_fun_def)

theorem invalidated_line_coherent_witness:
  "\<exists>evs. store_inval_crsp fun_mem sample_flags 0x85 False (mem_platform (\<lambda>_. 7)) = Some evs \<and>
    run_pokes poke_fun evs (\<lambda>_. 0) 0x80 = 7 \<and> run_pokes poke_fun evs (\<lambda>_. 0) 0xbf = 7 \<and>
    run_pokes poke_fun evs (\<lambda>_. 0) 0xc0 = 0"
proof -
  obtain evs where e: "store_inval_crsp fun_mem sample_flags 0x85 False (mem_platform (\<lambda>_. 7)) = Some evs"
      "\<And>m x. run_pokes poke_fun evs m x = (if drop_bit 6 x = drop_bit 6 (0x85 AND NOT (pa_mask sample_flags))
        then mem_at fun_mem (sm_mem (mem_platform (\<lambda>_. 7))) x else m x)"
    using invalidated_line_coherent [OF fun_mem_laws poke_fun_laws mem_platform_dev(1), of False sample_flags "0x85" "\<lambda>_. 7"]
    by (auto simp: sample_flags_def)
  then show ?thesis
    by (simp add: sample_flags_def mem_platform_dev fun_mem_def mem_at_def drop_bit_eq_div)
qed

text \<open>
  C34: A backdoor write keeps the reference model coherent only at full width.  Memory takes
  the requested number of bytes and the reference model always takes eight: if both
  agreed before the write, they agree after it exactly when the bytes beyond the
  requested size already had the values of the data word.
\<close>
theorem backdoor_write_coherent:
  assumes "mem_laws mm" and "iss_laws pk po" and "mem_dev_of s = Some d" and "sd_type d = ''memory''"
    and "fl_cosim f" and "sz \<le> 8" and "\<forall>x. pk m x = mem_at mm (sm_mem s) x"
  shows "\<exists>s' evs. backdoor_write mm f addr data (int sz) s = Some (s', evs) \<and>
    (\<forall>j < sz. mem_at mm (sm_mem s') (addr + of_nat j) = byte_of data j) \<and>
    ((\<forall>x. pk (run_pokes po evs m) x = mem_at mm (sm_mem s') x) \<longleftrightarrow>
     (\<forall>j. sz \<le> j \<and> j < 8 \<longrightarrow> byte_of data j = mem_at mm (sm_mem s) (addr + of_nat j)))"
proof -
  let ?d = "map (byte_of data) [0..<sz] @ replicate (8 - sz) 0" and ?s = "replicate sz True @ replicate (8 - sz) False"
  from write_loop_mem [OF assms(1), of 0 sz ?s ?d addr "sm_mem s"] assms(6) obtain m'
    where m': "write_loop mm addr ?d ?s 0 sz (sm_mem s) = Some m'"
      "\<And>b. mem_at mm m' b = (let j = unat (b - addr) in if j < sz \<and> ?s ! j then ?d ! j else mem_at mm (sm_mem s) b)"
    by auto
  have m'': "mem_at mm m' b = (if unat (b - addr) < sz then byte_of data (unat (b - addr)) else mem_at mm (sm_mem s) b)" for b
    using m'(2) [of b] by (simp add: Let_def nth_append)
  have at: "unat (addr + of_nat j - addr) = j" if "j < 8" for j
    using that by (simp add: unat_of_nat_less)
  have "unat (word_of_int (int sz) :: u64) = sz"
    using assms(6) by (simp add: unat_of_nat_less)
  then have w: "backdoor_write mm f addr data (int sz) s = Some (s\<lparr> sm_mem := m' \<rparr>, [Poke addr 8 data])"
    using assms(3-6) m'(1)
    by (simp add: backdoor_write_def backdoor_write_dev_def mem_backdoor_write_def)
  have iss: "pk (po addr 8 data m) x = (if unat (x - addr) < 8 then byte_of data (unat (x - addr)) else mem_at mm (sm_mem s) x)" for x
    using assms(7) by (simp add: iss_poke [OF assms(2)])
  have "(\<forall>x. pk (po addr 8 data m) x = mem_at mm m' x) \<longleftrightarrow>
      (\<forall>j. sz \<le> j \<and> j < 8 \<longrightarrow> byte_of data j = mem_at mm (sm_mem s) (addr + of_nat j))" (is "?l \<longleftrightarrow> ?r")
  proof
    assume l: ?l
    show ?r
    proof safe
      fix j assume "sz \<le> j" "j < 8"
      with l [rule_format, of "addr + of_nat j"] at [of j] show "byte_of data j = mem_at mm (sm_mem s) (addr + of_nat j)"
        by (simp add: iss m'')
    qed
  next
    assume r: ?r
    have "byte_of data (unat (x - addr)) = mem_at mm (sm_mem s) x" if "sz \<le> unat (x - addr)" "unat (x - addr) < 8" for x
      using r [rule_format, of "unat (x - addr)"] that by simp
    then show ?l
      using assms(6) by (simp add: iss m'')
  qed
  moreover have "mem_at mm m' (addr + of_nat j) = byte_of data j" if "j < sz" for j
    using that at [of j] assms(6) by (simp add: m'')
  ultimately show ?thesis
    using w by simp
qed

theorem backdoor_write_coherent_witness:
  "\<exists>s' evs. backdoor_write fun_mem sample_flags 0x10 0x1122 1 (mem_platform (\<lambda>_. 0)) = Some (s', evs) \<and>
    mem_at fun_mem (sm_mem s') 0x10 = 0x22 \<and>
    \<not> (\<forall>x. run_pokes poke_fun evs (\<lambda>_. 0) x = mem_at fun_mem (sm_mem s') x)"
proof -
  have zero: "mem_at fun_mem (\<lambda>_. 0) x = 0" for x
    by (simp add: fun_mem_def mem_at_def)
  have b: "byte_of (0x1122 :: u64) 0 = 0x22" "byte_of (0x1122 :: u64) 1 = 0x11"
    by (simp_all add: byte_of_def drop_bit_eq_div)
  have cs: "fl_cosim sample_flags"
    by (simp add: sample_flags_def)
  obtain s' evs where r: "backdoor_write fun_mem sample_flags 0x10 0x1122 1 (mem_platform (\<lambda>_. 0)) = Some (s', evs)"
      "mem_at fun_mem (sm_mem s') (0x10 + of_nat 0) = byte_of (0x1122 :: u64) 0"
      "(\<forall>x. run_pokes poke_fun evs (\<lambda>_. 0) x = mem_at fun_mem (sm_mem s') x) \<longleftrightarrow>
       (\<forall>j. 1 \<le> j \<and> j < 8 \<longrightarrow> byte_of (0x1122 :: u64) j = 0)"
    using backdoor_write_coherent [OF fun_mem_laws poke_fun_laws mem_platform_dev(1), of sample_flags 1 "\<lambda>_. 0" "\<lambda>_. 0" "0x10" "0x1122"] cs
    by (auto simp: mem_platform_dev zero)
  have "\<not> (\<forall>j. 1 \<le> j \<and> j < 8 \<longrightarrow> byte_of (0x1122 :: u64) j = 0)"
    using b(2) by (intro notI) (drule spec [of _ 1], simp)
  then show ?thesis
    using r b(1) by auto
qed

end
