(* ===== verification/Pcg.thy ===== *)
theory Pcg
  imports Prelude "HOL-Library.Multiset"
begin

text \<open>
  The random generator of \<^verbatim>\<open>common/pcg_random.hpp\<close> and \<^verbatim>\<open>common/pcg_extras.hpp\<close> in the
  instance \<^verbatim>\<open>pcg32\<close> that the trickbox uses: a linear congruential engine on 64 bits with a
  selectable stream, an output permutation, jumping ahead and back, the distance between
  two states, bounded numbers and shuffling.  The static functions of the engine template
  are modelled for every word length.
\<close>

section \<open>The congruential engine\<close>

definition bump :: "'a::len word \<Rightarrow> 'a word \<Rightarrow> 'a word \<Rightarrow> 'a word" where
  "bump m c s = s * m + c"

function advance_loop :: "'a::len word \<Rightarrow> 'a word \<Rightarrow> 'a word \<Rightarrow> 'a word \<Rightarrow> 'a word \<Rightarrow> 'a word \<times> 'a word" where
  "advance_loop delta cur_mult cur_plus acc_mult acc_plus =
     (if delta > 0 then
        let (acc_mult, acc_plus) =
          (if bit delta 0 then (acc_mult * cur_mult, acc_plus * cur_mult + cur_plus) else (acc_mult, acc_plus))
        in advance_loop (drop_bit 1 delta) (cur_mult * cur_mult) ((cur_mult + 1) * cur_plus) acc_mult acc_plus
      else (acc_mult, acc_plus))"
  by pat_completeness auto
termination
proof (relation "measure (\<lambda>(delta, _). unat delta)", goal_cases)
  case (2 delta)
  then have "0 < unat delta"
    by (simp add: unat_gt_0 word_gt_0)
  moreover have "unat (drop_bit 1 delta) = unat delta div 2"
    using unat_drop_bit_eq [of 1 delta] by (metis drop_bit_eq_div power_one_right)
  ultimately show ?case
    by simp
qed simp

declare advance_loop.simps [simp del]

definition lcg_advance :: "'a::len word \<Rightarrow> 'a word \<Rightarrow> 'a word \<Rightarrow> 'a word \<Rightarrow> 'a word" where
  "lcg_advance s delta cur_mult cur_plus =
     (let (acc_mult, acc_plus) = advance_loop delta cur_mult cur_plus 1 0 in acc_mult * s + acc_plus)"

text \<open>The distance loop; a failed assertion and a loop that does not end are both \<^const>\<open>None\<close>.\<close>

partial_function (option) distance_loop ::
    "'a::len word \<Rightarrow> 'a word \<Rightarrow> 'a word \<Rightarrow> 'a word \<Rightarrow> 'a word \<Rightarrow> 'a word \<Rightarrow> 'a word \<Rightarrow> 'a word option" where
  "distance_loop msk cur_state newstate cur_mult cur_plus the_bit distance =
     (if cur_state AND msk = newstate AND msk then Some distance
      else
        let differ = (cur_state AND the_bit \<noteq> newstate AND the_bit);
            cur_state = (if differ then cur_state * cur_mult + cur_plus else cur_state);
            distance = (if differ then distance OR the_bit else distance)
        in if cur_state AND the_bit \<noteq> newstate AND the_bit then None
           else distance_loop msk cur_state newstate (cur_mult * cur_mult) ((cur_mult + 1) * cur_plus)
             (push_bit 1 the_bit) distance)"

definition lcg_distance :: "'a::len word \<Rightarrow> 'a word \<Rightarrow> 'a word \<Rightarrow> 'a word \<Rightarrow> 'a word \<Rightarrow> 'a word option" where
  "lcg_distance cur_state newstate cur_mult cur_plus msk =
     (let is_mcg = (cur_plus = 0) in
      map_option (\<lambda>d. if is_mcg then drop_bit 2 d else d)
        (distance_loop msk cur_state newstate cur_mult cur_plus (if is_mcg then 4 else 1) 0))"

section \<open>The generator pcg32\<close>

record pcg32 =
  pcg_state :: u64
  pcg_inc :: u64

definition default_multiplier :: u64 where
  "default_multiplier = 6364136223846793005"

definition default_increment :: u64 where
  "default_increment = 1442695040888963407"

definition set_stream :: "u64 \<Rightarrow> pcg32 \<Rightarrow> pcg32" where
  "set_stream specific_seq g = g\<lparr> pcg_inc := push_bit 1 specific_seq OR 1 \<rparr>"

definition stream :: "pcg32 \<Rightarrow> u64" where
  "stream g = drop_bit 1 (pcg_inc g)"

definition pcg32_seed :: "u64 \<Rightarrow> pcg32" where
  "pcg32_seed s = \<lparr> pcg_state = bump default_multiplier default_increment (s + default_increment), pcg_inc = default_increment \<rparr>"

definition pcg32_default :: pcg32 where
  "pcg32_default = pcg32_seed 0xcafef00dd15ea5e5"

definition pcg32_seed_stream :: "u64 \<Rightarrow> u64 \<Rightarrow> pcg32" where
  "pcg32_seed_stream s stream_seed =
     (let inc = push_bit 1 stream_seed OR 1 in \<lparr> pcg_state = bump default_multiplier inc (s + inc), pcg_inc = inc \<rparr>)"

definition rotr :: "u32 \<Rightarrow> nat \<Rightarrow> u32" where
  "rotr value rot = drop_bit rot value OR push_bit ((32 - rot) mod 32) value"

definition xsh_rr_output :: "u64 \<Rightarrow> u32" where
  "xsh_rr_output internal =
     (let rot = unat (drop_bit 59 internal AND 31);
          internal = internal XOR drop_bit 18 internal
      in rotr (ucast (drop_bit 27 internal)) rot)"

definition base_generate0 :: "pcg32 \<Rightarrow> u64 \<times> pcg32" where
  "base_generate0 g = (pcg_state g, g\<lparr> pcg_state := bump default_multiplier (pcg_inc g) (pcg_state g) \<rparr>)"

definition pcg32_next :: "pcg32 \<Rightarrow> u32 \<times> pcg32" where
  "pcg32_next g = (let (old, g) = base_generate0 g in (xsh_rr_output old, g))"

definition pcg32_advance :: "u64 \<Rightarrow> pcg32 \<Rightarrow> pcg32" where
  "pcg32_advance delta g = g\<lparr> pcg_state := lcg_advance (pcg_state g) delta default_multiplier (pcg_inc g) \<rparr>"

definition backstep :: "u64 \<Rightarrow> pcg32 \<Rightarrow> pcg32" where
  "backstep delta g = pcg32_advance (- delta) g"

definition discard :: "u64 \<Rightarrow> pcg32 \<Rightarrow> pcg32" where
  "discard delta g = pcg32_advance delta g"

definition wrapped :: "pcg32 \<Rightarrow> bool" where
  "wrapped g \<longleftrightarrow> pcg_state g = 0"

definition pcg32_distance :: "pcg32 \<Rightarrow> u64 \<Rightarrow> u64 option" where
  "pcg32_distance g newstate = lcg_distance (pcg_state g) newstate default_multiplier (pcg_inc g) (- 1)"

definition pcg32_minus :: "pcg32 \<Rightarrow> pcg32 \<Rightarrow> u64 option" where
  "pcg32_minus lhs rhs =
     (if pcg_inc lhs = pcg_inc rhs then pcg32_distance rhs (pcg_state lhs)
      else
        let lhs_diff = pcg_inc lhs + (default_multiplier - 1) * pcg_state lhs;
            rhs_diff = pcg_inc rhs + (default_multiplier - 1) * pcg_state rhs;
            rhs_diff = (if lhs_diff AND 3 \<noteq> rhs_diff AND 3 then - rhs_diff else rhs_diff)
        in lcg_distance rhs_diff lhs_diff default_multiplier 0 (- 1))"

section \<open>Bounded numbers and shuffling\<close>

definition threshold :: "u32 \<Rightarrow> u32" where
  "threshold upper_bound = (- 1 - 0 + 1 - upper_bound) mod upper_bound"

partial_function (option) bounded_loop :: "u32 \<Rightarrow> pcg32 \<Rightarrow> (u32 \<times> pcg32) option" where
  "bounded_loop upper_bound g =
     (let (r, g) = pcg32_next g in
      if threshold upper_bound \<le> r then Some (r mod upper_bound, g) else bounded_loop upper_bound g)"

definition bounded_rand :: "pcg32 \<Rightarrow> u32 \<Rightarrow> (u32 \<times> pcg32) option" where
  "bounded_rand g upper_bound = (if upper_bound = 0 then None else bounded_loop upper_bound g)"

fun pcg_shuffle :: "nat \<Rightarrow> 'b list \<Rightarrow> pcg32 \<Rightarrow> ('b list \<times> pcg32) option" where
  "pcg_shuffle (Suc (Suc n)) xs g = do {
     (chosen, g) \<leftarrow> bounded_rand g (of_nat (n + 2));
     x \<leftarrow> vec_get xs (unat chosen);
     y \<leftarrow> vec_get xs (n + 1);
     pcg_shuffle (Suc n) (xs[unat chosen := y, n + 1 := x]) g
   }"
| "pcg_shuffle n xs g = Some (xs, g)"

section \<open>Jumping ahead\<close>

text \<open>The sum of the first powers of the multiplier.\<close>

primrec geo :: "'a::len word \<Rightarrow> nat \<Rightarrow> 'a word" where
  "geo m 0 = 0"
| "geo m (Suc n) = 1 + m * geo m n"

lemma bump_funpow: "(bump m c ^^ n) s = m ^ n * s + c * geo m n"
  by (induction n) (simp_all add: bump_def algebra_simps)

lemma geo_add: "geo m (a + b) = geo m a + m ^ a * geo m b"
  by (induction a) (simp_all add: algebra_simps)

lemma geo_double: "geo m (2 * n) = geo m n * (1 + m ^ n)"
  unfolding mult_2 geo_add by (simp add: algebra_simps)

lemma geo_square: "geo m (2 * n) = (m + 1) * geo (m * m) n"
proof (induction n)
  case (Suc n)
  then show ?case
    by (simp add: algebra_simps)
qed simp

lemma power_square: "(m * m) ^ n = (m :: 'a::len word) ^ (2 * n)"
  by (simp add: power_mult power2_eq_square)

lemma half_of: "unat (drop_bit 1 d) = unat d div 2"
  using unat_drop_bit_eq [of 1 d] by (metis drop_bit_eq_div power_one_right)

lemma low_bit: "bit d 0 \<longleftrightarrow> odd (unat d)"
  using bit_unsigned_iff [where 'a = nat, of d 0] by (simp add: bit_0)

lemma advance_loop_result:
  "advance_loop d m c am ap = (am * m ^ unat d, ap * m ^ unat d + c * geo m (unat d))"
proof (induction d m c am ap rule: advance_loop.induct)
  case (1 d m c am ap)
  show ?case
  proof (cases "d = 0")
    case True
    then show ?thesis
      by (subst advance_loop.simps) simp
  next
    case False
    define k X G where "k = unat d div 2" and "X = m ^ (2 * k)" and "G = geo m (2 * k)"
    let ?am = "if bit d 0 then am * m else am" and ?ap = "if bit d 0 then ap * m + c else ap"
    have d: "unat d = 2 * k + (if bit d 0 then 1 else 0)"
      by (simp add: k_def low_bit)
    have pow: "m ^ unat d = (if bit d 0 then m * X else X)" "geo m (unat d) = (if bit d 0 then G + X else G)"
      unfolding d using geo_add [of m "2 * k" 1] by (simp_all add: X_def G_def)
    have "advance_loop d m c am ap = advance_loop (drop_bit 1 d) (m * m) ((m + 1) * c) ?am ?ap"
      using False by (subst advance_loop.simps) (simp add: word_gt_0)
    also have "\<dots> = (?am * X, ?ap * X + c * G)"
      using 1 [of "(?am, ?ap)" ?am ?ap] False geo_square [of m k]
      by (simp add: word_gt_0 half_of power_square k_def [symmetric] X_def G_def mult.commute mult.left_commute del: One_nat_def)
    finally show ?thesis
      by (simp add: pow algebra_simps)
  qed
qed

section \<open>The period\<close>

lemma power_of_unit:
  fixes m :: "'a::len word"
  assumes "m = 1 + 4 * p"
  shows "\<exists>q. m ^ 2 ^ k = 1 + 2 ^ (k + 2) * q"
proof (induction k)
  case 0
  then show ?case
    using assms by (intro exI [of _ p]) simp
next
  case (Suc k)
  then obtain q where q: "m ^ 2 ^ k = 1 + 2 ^ (k + 2) * q"
    by blast
  have "m ^ 2 ^ Suc k = m ^ 2 ^ k * m ^ 2 ^ k"
    by (simp only: power_Suc mult_2 power_add)
  also have "\<dots> = (1 + 2 ^ (k + 2) * q) * (1 + 2 ^ (k + 2) * q)"
    by (simp only: q)
  also have "\<dots> = 1 + 2 ^ (Suc k + 2) * (q + 2 ^ (k + 1) * q * q)"
    by (simp add: algebra_simps)
  finally show ?case
    by blast
qed

lemma geo_two_power:
  fixes m :: "'a::len word"
  assumes "m = 1 + 4 * p"
  shows "\<exists>r. geo m (2 ^ k) = 2 ^ k * (1 + 2 * r)"
proof (induction k)
  case 0
  show ?case
    by (simp add: exI [of _ 0])
next
  case (Suc k)
  then obtain r where r: "geo m (2 ^ k) = 2 ^ k * (1 + 2 * r)"
    by blast
  obtain q where q: "m ^ 2 ^ k = 1 + 2 ^ (k + 2) * q"
    using power_of_unit [OF assms] by blast
  have "geo m (2 ^ Suc k) = 2 ^ k * (1 + 2 * r) * (2 + 2 ^ (k + 2) * q)"
    using geo_double [of m "2 ^ k"] by (simp add: r q)
  also have "\<dots> = 2 ^ Suc k * (1 + 2 * (r + 2 ^ k * q + 2 * (2 ^ k * q * r)))"
    by (simp add: algebra_simps)
  finally show ?case
    by blast
qed

lemma bump_period:
  fixes m :: "'a::len word"
  assumes "m = 1 + 4 * p"
  shows "(bump m c ^^ 2 ^ LENGTH('a)) s = s"
proof -
  obtain q where "m ^ 2 ^ LENGTH('a) = 1 + 2 ^ (LENGTH('a) + 2) * q"
    using power_of_unit [OF assms] by blast
  moreover obtain r where "geo m (2 ^ LENGTH('a)) = 2 ^ LENGTH('a) * (1 + 2 * r)"
    using geo_two_power [OF assms] by blast
  ultimately show ?thesis
    by (simp add: bump_funpow power_add)
qed

lemma lcg_advance_funpow: "lcg_advance s d m c = (bump m c ^^ unat d) s"
  by (simp add: lcg_advance_def advance_loop_result bump_funpow algebra_simps)

lemma lcg_advance_of_nat:
  fixes m :: "'a::len word"
  assumes "m = 1 + 4 * p"
  shows "lcg_advance s (of_nat n) m c = (bump m c ^^ n) s"
  using funpow_mod_eq [OF bump_period [OF assms, of c s], of n] by (simp add: lcg_advance_funpow unat_of_nat)

lemma multiplier_unit: "default_multiplier = 1 + 4 * 1591034055961698251"
  by (simp add: default_multiplier_def)

text \<open>Drawing a number and dropping it.\<close>

definition pcg_step :: "pcg32 \<Rightarrow> pcg32" where
  "pcg_step g = snd (pcg32_next g)"

lemma pcg32_next_eq: "pcg32_next g = (xsh_rr_output (pcg_state g), pcg_step g)"
  by (simp add: pcg_step_def pcg32_next_def base_generate0_def)

lemma next_funpow: "(pcg_step ^^ n) g = g\<lparr> pcg_state := (bump default_multiplier (pcg_inc g) ^^ n) (pcg_state g) \<rparr>"
  by (induction n) (simp_all add: pcg_step_def pcg32_next_def base_generate0_def)

text \<open>
  C30: jumping ahead is stepping.  The logarithmic jump by any number of steps gives the same
  generator as drawing that many numbers, and stepping back by the same count, which the
  code computes by jumping forward by the negated count, restores the
  generator; both hold across the wrap-around of the counter.
\<close>

theorem jump_equals_steps:
  "pcg32_advance (of_nat n) g = (pcg_step ^^ n) g \<and>
   backstep (of_nat n) ((pcg_step ^^ n) g) = g"
proof -
  let ?f = "bump default_multiplier (pcg_inc g)" and ?s = "pcg_state g"
  define P where "P = (2 :: nat) ^ LENGTH(64)"
  have P: "0 < P" "of_nat P = (0 :: u64)" "(?f ^^ P) ?s = ?s"
    by (simp add: P_def, simp add: P_def, unfold P_def, rule bump_period [OF multiplier_unit])
  have n: "- of_nat n = (of_nat (n * (P - 1)) :: u64)"
    using P(1,2) by (simp add: Suc_le_eq)
  have "n * (P - 1) + n = n * P"
    using P(1) by (cases P) simp_all
  then have "lcg_advance ((?f ^^ n) ?s) (- of_nat n) default_multiplier (pcg_inc g) = (?f ^^ (n * P)) ?s"
    unfolding n lcg_advance_of_nat [OF multiplier_unit] by (metis comp_apply funpow_add)
  also have "\<dots> = ?s"
    using funpow_mod_eq [OF P(3), of "n * P"] by simp
  finally show ?thesis
    by (simp add: next_funpow pcg32_advance_def backstep_def lcg_advance_of_nat [OF multiplier_unit])
qed

section \<open>The distance between two states\<close>

lemma low_plus_high: "take_bit k s + push_bit k w = take_bit k s OR push_bit k (w :: 'a::len word)"
proof -
  have "take_bit k s AND push_bit k w = 0"
    by (rule bit_word_eqI) (auto simp: bit_simps)
  then show ?thesis
    by (rule disjunctive_add_eq_or)
qed

lemma low_high: "take_bit k s + push_bit k (drop_bit k s) = (s :: 'a::len word)"
  using bits_ident [of k s] by (simp only: add.commute)

lemma plus_high: "s + push_bit k w = take_bit k s OR push_bit k (drop_bit k s + (w :: 'a::len word))"
proof -
  have "s + push_bit k w = (take_bit k s + push_bit k (drop_bit k s)) + push_bit k w"
    by (simp only: low_high)
  also have "\<dots> = take_bit k s + push_bit k (drop_bit k s + w)"
    by (simp add: push_bit_eq_mult algebra_simps)
  finally show ?thesis
    by (simp only: low_plus_high)
qed

lemma take_bit_shifted: "take_bit n (x + push_bit n z) = take_bit n (x :: 'a::len word)"
  unfolding plus_high by (rule bit_word_eqI) (auto simp: bit_simps)

lemma bit_add_power:
  fixes s :: "'a::len word"
  assumes "k < LENGTH('a)"
  shows "bit (s + 2 ^ k) k \<longleftrightarrow> \<not> bit s k"
proof -
  have "bit (s + push_bit k 1) k \<longleftrightarrow> odd (drop_bit k s + 1)"
    unfolding plus_high using assms by (simp add: bit_simps bit_0)
  moreover have "bit s k \<longleftrightarrow> odd (drop_bit k s)"
    by (simp add: bit_iff_odd_drop_bit)
  ultimately show ?thesis
    by (simp add: push_bit_eq_mult)
qed

text \<open>One step with the multiplier and increment of bit k changes bit k and keeps the bits below it.\<close>

lemma flip_bit_step:
  fixes s :: "'a::len word"
  assumes m: "m = 1 + 4 * p" and c: "c = 1 + 2 * t" and k: "k < LENGTH('a)"
  shows "take_bit k (s * m ^ 2 ^ k + c * geo m (2 ^ k)) = take_bit k s"
    and "bit (s * m ^ 2 ^ k + c * geo m (2 ^ k)) k \<longleftrightarrow> \<not> bit s k"
proof -
  obtain q where q: "m ^ 2 ^ k = 1 + 2 ^ (k + 2) * q"
    using power_of_unit [OF m] by blast
  obtain r where r: "geo m (2 ^ k) = 2 ^ k * (1 + 2 * r)"
    using geo_two_power [OF m] by blast
  define s' z where "s' = s * m ^ 2 ^ k + c * geo m (2 ^ k)" and "z = 2 * q * s + r + t + 2 * t * r"
  have low: "s' = s + push_bit k (1 + 2 * z)" and high: "s' = (s + 2 ^ k) + push_bit (Suc k) z"
    unfolding s'_def q r c z_def by (simp_all add: push_bit_eq_mult algebra_simps)
  show "take_bit k (s * m ^ 2 ^ k + c * geo m (2 ^ k)) = take_bit k s"
    unfolding s'_def [symmetric] low by (rule take_bit_shifted)
  have "bit s' k = bit (take_bit (Suc k) s') k"
    by (simp add: bit_take_bit_iff)
  also have "take_bit (Suc k) s' = take_bit (Suc k) (s + 2 ^ k)"
    unfolding high by (rule take_bit_shifted)
  finally show "bit (s * m ^ 2 ^ k + c * geo m (2 ^ k)) k \<longleftrightarrow> \<not> bit s k"
    unfolding s'_def [symmetric] by (simp add: bit_take_bit_iff bit_add_power [OF k])
qed

lemma and_power_eq:
  fixes x y :: "'a::len word"
  assumes "k < LENGTH('a)"
  shows "x AND 2 ^ k = y AND 2 ^ k \<longleftrightarrow> bit x k = bit y k"
proof
  assume "x AND 2 ^ k = y AND 2 ^ k"
  then have "bit (x AND 2 ^ k) k = bit (y AND 2 ^ k) k"
    by simp
  then show "bit x k = bit y k"
    using assms by (simp add: bit_simps)
next
  assume "bit x k = bit y k"
  then show "x AND 2 ^ k = y AND 2 ^ k"
    by (intro bit_word_eqI) (auto simp: bit_simps)
qed

lemma or_power:
  fixes d :: "'a::len word"
  assumes "unat d < 2 ^ k" and "k < LENGTH('a)"
  shows "unat (d OR 2 ^ k) = unat d + 2 ^ k"
proof -
  have "take_bit k d = d"
    using assms(1) by (simp add: word_unat_eq_iff unsigned_take_bit_eq take_bit_nat_eq_self)
  then have "d OR 2 ^ k = d + 2 ^ k"
    using low_plus_high [of k d 1] by (simp add: push_bit_eq_mult)
  moreover have "unat d + 2 ^ k < 2 ^ LENGTH('a)"
    using assms power_increasing [of "Suc k" "LENGTH('a)" "2 :: nat"] by simp
  ultimately show ?thesis
    using assms(2) by (simp add: unat_word_ariths unat_pow2)
qed

lemma distance_loop_result:
  fixes s :: "'a::len word"
  assumes m: "m = 1 + 4 * p" and c: "c = 1 + 2 * t"
  shows "k \<le> LENGTH('a) \<Longrightarrow> take_bit k cur = take_bit k new \<Longrightarrow> cur = (bump m c ^^ unat d) s \<Longrightarrow> unat d < 2 ^ k \<Longrightarrow>
    \<exists>d'. distance_loop (- 1) cur new (m ^ 2 ^ k) (c * geo m (2 ^ k)) (2 ^ k) d = Some d' \<and> (bump m c ^^ unat d') s = new"
proof (induction "LENGTH('a) - k" arbitrary: k cur d)
  case 0
  then have "cur = new"
    by (simp add: take_bit_word_eq_self)
  with 0 show ?case
    by (subst distance_loop.simps) simp
next
  case (Suc n)
  have k: "k < LENGTH('a)"
    using Suc.hyps(2) by simp
  define differ cur' d' where "differ = (bit cur k \<noteq> bit new k)"
    and "cur' = (if differ then cur * m ^ 2 ^ k + c * geo m (2 ^ k) else cur)" and "d' = (if differ then d OR 2 ^ k else d)"
  have bits: "take_bit k cur' = take_bit k new" "bit cur' k = bit new k"
    using flip_bit_step [OF m c k, of cur] Suc.prems(2) by (auto simp: cur'_def differ_def)
  have same: "take_bit (Suc k) cur' = take_bit (Suc k) new"
  proof (rule bit_word_eqI)
    show "bit (take_bit (Suc k) cur') j = bit (take_bit (Suc k) new) j" for j
      using arg_cong [OF bits(1), of "\<lambda>x. bit x j"] bits(2) by (auto simp: bit_take_bit_iff less_Suc_eq)
  qed
  have "cur' = (if differ then (bump m c ^^ 2 ^ k) cur else cur)"
    by (simp add: cur'_def bump_funpow mult.commute)
  then have "cur' = (if differ then (bump m c ^^ (2 ^ k + unat d)) s else (bump m c ^^ unat d) s)"
    unfolding Suc.prems(3) funpow_add comp_def .
  then have steps: "cur' = (bump m c ^^ unat d') s" "unat d' < 2 ^ Suc k"
    using Suc.prems(4) or_power [OF Suc.prems(4) k] by (cases differ; simp add: d'_def add.commute)+
  have mult: "m ^ 2 ^ k * m ^ 2 ^ k = m ^ 2 ^ Suc k" "(m ^ 2 ^ k + 1) * (c * geo m (2 ^ k)) = c * geo m (2 ^ Suc k)"
    using geo_double [of m "2 ^ k"] by (simp_all add: mult_2 power_add algebra_simps)
  have double: "(2 :: 'a word) ^ Suc k = push_bit 1 (2 ^ k)"
    by (simp add: push_bit_eq_mult)
  show ?case
  proof (cases "cur = new")
    case True
    then show ?thesis
      using Suc.prems(3) by (subst distance_loop.simps) simp
  next
    case False
    have "distance_loop (- 1) cur new (m ^ 2 ^ k) (c * geo m (2 ^ k)) (2 ^ k) d =
      distance_loop (- 1) cur' new (m ^ 2 ^ Suc k) (c * geo m (2 ^ Suc k)) (2 ^ Suc k) d'"
      unfolding mult [symmetric] double using False bits(2)
      by (subst distance_loop.simps, cases differ)
        (simp_all add: Let_def and_power_eq [OF k] cur'_def d'_def differ_def)
    then show ?thesis
      using Suc.hyps(1) [of "Suc k" cur' d'] Suc.hyps(2) k same steps by simp
  qed
qed

lemma lcg_distance_result:
  fixes s :: "'a::len word"
  assumes m: "m = 1 + 4 * p" and c: "odd c"
  shows "\<exists>d. lcg_distance s new m c (- 1) = Some d \<and> lcg_advance s d m c = new"
proof -
  obtain t where t: "c = 1 + 2 * t"
    using c by (metis oddE add.commute)
  show ?thesis
    using distance_loop_result [OF m t, of 0 s new 0 s] c by (cases "c = 0") (auto simp: lcg_distance_def lcg_advance_funpow)
qed

text \<open>
  C28: the distance between two states is found.  On any stream the search ends without
  failing its assertion, whatever the two states, and jumping ahead by the number it returns
  leads from the first state to the second.  In particular every state is reached from every other:
  the generator has the full period.
\<close>

theorem distance_leads_there:
  assumes "odd (pcg_inc g)"
  shows "\<exists>d. pcg32_distance g t = Some d \<and> pcg32_advance d g = g\<lparr> pcg_state := t \<rparr>"
  using lcg_distance_result [OF multiplier_unit assms, of "pcg_state g" t] by (auto simp: pcg32_distance_def pcg32_advance_def)

theorem distance_leads_there_witness:
  "\<exists>d. pcg32_distance (pcg32_seed 1) 0 = Some d \<and> wrapped (pcg32_advance d (pcg32_seed 1))"
proof -
  have "odd (pcg_inc (pcg32_seed 1))"
    by (simp add: pcg32_seed_def default_increment_def)
  from distance_leads_there [OF this, of 0] show ?thesis
    by (auto simp: wrapped_def)
qed

section \<open>Bounded numbers\<close>

lemma unat_threshold:
  assumes "b \<noteq> 0"
  shows "unat (threshold b) = 2 ^ 32 mod unat b"
proof -
  have b: "0 < unat b" "unat b < 2 ^ 32"
    using assms unsigned_less [of b] by (simp_all add: unat_gt_0)
  have "- b = of_nat (2 ^ 32 - unat b)"
    using b by simp
  then have "unat (- b) = 2 ^ 32 - unat b"
    using b by (simp only:) (rule unat_of_nat_less, simp)
  then have "unat (threshold b) = (2 ^ 32 - unat b) mod unat b"
    by (simp add: threshold_def unat_mod)
  then show ?thesis
    using b by (simp add: le_mod_geq [of "unat b"])
qed

lemma block_one:
  fixes a b q :: nat
  assumes "q < b"
  shows "card {x \<in> {a..<a + b}. x mod b = q} = 1"
proof (induction a)
  case 0
  have "{x \<in> {0..<0 + b}. x mod b = q} = {q}"
    using assms by auto
  then show ?case by simp
next
  case (Suc a)
  let ?S = "{x \<in> {a..<a + b}. x mod b = q}" and ?T = "{x \<in> {Suc a..<Suc a + b}. x mod b = q}"
  show ?case
  proof (cases "a mod b = q")
    case True
    have "?T = insert (a + b) (?S - {a})"
      using True assms by (auto simp: less_Suc_eq)
    then show ?thesis
      using Suc True assms by (simp add: card_insert_if)
  next
    case False
    have "?T = ?S"
      using False assms by (auto simp: less_Suc_eq le_Suc_eq Suc_le_eq order_le_less)
    then show ?thesis
      using Suc by simp
  qed
qed

lemma blocks:
  fixes a b q :: nat
  assumes "q < b"
  shows "card {x \<in> {a..<a + n * b}. x mod b = q} = n"
proof (induction n)
  case (Suc n)
  have "{x \<in> {a..<a + Suc n * b}. x mod b = q} =
    {x \<in> {a..<a + n * b}. x mod b = q} \<union> {x \<in> {a + n * b..<a + n * b + b}. x mod b = q}"
    by auto
  then show ?case
    using Suc block_one [OF assms, of "a + n * b"] by (simp add: card_Un_disjoint disjoint_iff)
qed simp

lemma unbiased:
  fixes b q :: u32
  assumes "q < b"
  shows "card {x. threshold b \<le> x \<and> x mod b = q} = 2 ^ 32 div unat b"
proof -
  define K B Q N T where "K = (2 :: nat) ^ 32" and "B = unat b" and "Q = unat q" and "N = K div B" and "T = K mod B"
  let ?S = "{x. threshold b \<le> x \<and> x mod b = q}"
  have b: "Q < B" "b \<noteq> 0"
    using assms by (auto simp: word_less_nat_alt B_def Q_def)
  have t: "unat (threshold b) = T"
    using unat_threshold [OF b(2)] by (simp only: T_def K_def B_def)
  have range: "T + N * B = K"
    unfolding N_def T_def by (rule mod_div_mult_eq)
  have less: "unat x < K" for x :: u32
    using unsigned_less [of x] by (simp add: K_def)
  have of_nat: "unat (of_nat x :: u32) = x" if "x < K" for x
    using that by (intro unat_of_nat_less) (simp add: K_def)
  have mem: "x \<in> ?S \<longleftrightarrow> T \<le> unat x \<and> unat x mod B = Q" for x
    by (simp add: word_le_nat_alt t word_unat_eq_iff [of "x mod b"] unat_mod B_def Q_def)
  have "unat ` ?S = {x \<in> {T..<T + N * B}. x mod B = Q}"
  proof (intro set_eqI iffI)
    show "y \<in> {x \<in> {T..<T + N * B}. x mod B = Q}" if "y \<in> unat ` ?S" for y
      using that mem less unfolding range by auto
    show "y \<in> unat ` ?S" if "y \<in> {x \<in> {T..<T + N * B}. x mod B = Q}" for y
      using that mem [of "of_nat y"] of_nat [of y] unfolding range
      by (intro image_eqI [of _ _ "of_nat y"]) auto
  qed
  moreover have "inj_on unat ?S"
    by (simp add: inj_on_def word_unat_eq_iff)
  ultimately have "card ?S = N"
    using blocks [OF b(1), of T N] by (simp add: card_image [symmetric])
  then show ?thesis
    by (simp only: N_def K_def B_def)
qed

lemma bounded_loop_first:
  assumes "threshold b \<le> fst (pcg32_next ((pcg_step ^^ n) g))" and "\<forall>j < n. \<not> threshold b \<le> fst (pcg32_next ((pcg_step ^^ j) g))"
  shows "bounded_loop b g = Some (fst (pcg32_next ((pcg_step ^^ n) g)) mod b, (pcg_step ^^ Suc n) g)"
  using assms
proof (induction n arbitrary: g)
  case 0
  then show ?case
    by (subst bounded_loop.simps) (simp add: pcg32_next_eq)
next
  case (Suc n)
  have "\<not> threshold b \<le> fst (pcg32_next g)"
    using Suc.prems(2) by auto
  then have "bounded_loop b g = bounded_loop b (pcg_step g)"
    by (subst bounded_loop.simps) (simp add: pcg32_next_eq)
  also have "\<dots> = Some (fst (pcg32_next ((pcg_step ^^ n) (pcg_step g))) mod b, (pcg_step ^^ Suc n) (pcg_step g))"
    using Suc.prems by (intro Suc.IH) (auto simp: funpow_swap1 dest: spec [of _ "Suc _"])
  finally show ?case
    by (simp add: funpow_swap1)
qed

text \<open>A state whose output is the largest number.\<close>

lemma top_output: "xsh_rr_output 0x7fffe0000000000 = - 1"
  by code_simp

lemma bounded_rand_first:
  assumes "odd (pcg_inc g)" and "b \<noteq> 0"
  shows "\<exists>k. bounded_rand g b = Some (fst (pcg32_next ((pcg_step ^^ k) g)) mod b, (pcg_step ^^ Suc k) g) \<and>
    threshold b \<le> fst (pcg32_next ((pcg_step ^^ k) g)) \<and> (\<forall>j < k. fst (pcg32_next ((pcg_step ^^ j) g)) < threshold b)"
proof -
  let ?ok = "\<lambda>n. threshold b \<le> fst (pcg32_next ((pcg_step ^^ n) g))"
  obtain d where "lcg_advance (pcg_state g) d default_multiplier (pcg_inc g) = 0x7fffe0000000000"
    using lcg_distance_result [OF multiplier_unit assms(1)] by blast
  then have "pcg_state ((pcg_step ^^ unat d) g) = 0x7fffe0000000000"
    by (simp add: next_funpow lcg_advance_funpow)
  then have "?ok (unat d)"
    by (simp add: top_output pcg32_next_eq)
  then have k: "?ok (LEAST n. ?ok n)" "\<forall>j < (LEAST n. ?ok n). \<not> ?ok j"
    by (rule LeastI, blast dest: not_less_Least)
  show ?thesis
    using bounded_loop_first [OF k] k assms(2) by (intro exI [of _ "LEAST n. ?ok n"]) (simp add: bounded_rand_def not_le)
qed

lemma bounded_rand_total:
  assumes "odd (pcg_inc g)" and "b \<noteq> 0"
  shows "\<exists>k r. bounded_rand g b = Some (r, (pcg_step ^^ Suc k) g) \<and> r < b"
proof -
  have "r mod b < b" for r
    using assms(2) by (simp add: word_less_nat_alt unat_mod unat_gt_0)
  then show ?thesis
    using bounded_rand_first [OF assms] by blast
qed

text \<open>
  C29: a bounded number is drawn in finitely many steps and without bias.  On any stream and
  for any bound b but zero the rejection loop ends: it passes over the outputs of the
  generator below 2^32 mod b, and returns the first other output modulo b, which is below
  b, with the generator advanced just past that output.  Each number below b is the
  remainder of equally many of the outputs that are not passed over.
\<close>

theorem bounded_rand_returns:
  assumes "odd (pcg_inc g)" and "b \<noteq> 0"
  shows "(\<exists>k. let out = (\<lambda>j. fst (pcg32_next ((pcg_step ^^ j) g))) in
      bounded_rand g b = Some (out k mod b, (pcg_step ^^ Suc k) g) \<and> out k mod b < b \<and>
      2 ^ 32 mod unat b \<le> unat (out k) \<and> (\<forall>j < k. unat (out j) < 2 ^ 32 mod unat b)) \<and>
    (\<forall>q < b. card {x :: u32. 2 ^ 32 mod unat b \<le> unat x \<and> x mod b = q} = 2 ^ 32 div unat b)"
proof -
  have t: "threshold b \<le> x \<longleftrightarrow> 2 ^ 32 mod unat b \<le> unat x" for x
    using unat_threshold [OF assms(2)] by (simp add: word_le_nat_alt)
  have "x mod b < b" for x
    using assms(2) by (simp add: word_less_nat_alt unat_mod unat_gt_0)
  then have "\<exists>k. let out = (\<lambda>j. fst (pcg32_next ((pcg_step ^^ j) g))) in
      bounded_rand g b = Some (out k mod b, (pcg_step ^^ Suc k) g) \<and> out k mod b < b \<and>
      2 ^ 32 mod unat b \<le> unat (out k) \<and> (\<forall>j < k. unat (out j) < 2 ^ 32 mod unat b)"
    using bounded_rand_first [OF assms] unfolding Let_def not_le [symmetric] t by blast
  moreover have "\<forall>q < b. card {x :: u32. 2 ^ 32 mod unat b \<le> unat x \<and> x mod b = q} = 2 ^ 32 div unat b"
    using unbiased [of _ b] unfolding t by blast
  ultimately show ?thesis
    by blast
qed

theorem bounded_rand_returns_witness:
  "\<exists>k. bounded_rand (pcg32_seed 7) 6 = Some (fst (pcg32_next ((pcg_step ^^ k) (pcg32_seed 7))) mod 6, (pcg_step ^^ Suc k) (pcg32_seed 7)) \<and>
    4 \<le> unat (fst (pcg32_next ((pcg_step ^^ k) (pcg32_seed 7))))"
proof -
  have "odd (pcg_inc (pcg32_seed 7))"
    by (simp add: pcg32_seed_def default_increment_def)
  from bounded_rand_returns [OF this, of 6] show ?thesis
    by (auto simp: Let_def)
qed

section \<open>Shuffling\<close>

lemma mset_swap_list:
  assumes "i < length xs" "j < length xs"
  shows "mset (xs[i := xs ! j, j := xs ! i]) = mset xs"
  using assms mset_swap [of j xs i] by simp

text \<open>Every stream stays selectable: the operations keep the increment odd.\<close>

lemma odd_increment:
  "odd (pcg_inc (pcg32_seed s))" "odd (pcg_inc (pcg32_seed_stream s t))" "odd (pcg_inc (set_stream t g))"
  "odd (pcg_inc g) \<Longrightarrow> odd (pcg_inc (pcg_step g))" "odd (pcg_inc g) \<Longrightarrow> odd (pcg_inc (pcg32_advance d g))"
  by (simp_all add: pcg32_seed_def default_increment_def pcg32_seed_stream_def set_stream_def Let_def pcg_step_def pcg32_next_def
    base_generate0_def pcg32_advance_def even_or_iff)

lemma odd_increment_steps: "odd (pcg_inc g) \<Longrightarrow> odd (pcg_inc ((pcg_step ^^ n) g))"
  by (simp add: next_funpow)

lemma shuffle_permutes:
  assumes "odd (pcg_inc g)" and "n \<le> length xs" and "length xs < 2 ^ 32"
  shows "\<exists>ys g'. pcg_shuffle n xs g = Some (ys, g') \<and> mset ys = mset xs \<and> drop n ys = drop n xs"
  using assms
proof (induction n xs g rule: pcg_shuffle.induct)
  case (1 n xs g)
  have b: "unat (of_nat (n + 2) :: u32) = n + 2"
    using "1.prems" by (intro unat_of_nat_less) simp
  then have "(of_nat (n + 2) :: u32) \<noteq> 0"
    by (metis add_2_eq_Suc' nat.distinct(1) unat_0)
  from bounded_rand_total [OF "1.prems"(1) this] obtain k r where
    r: "bounded_rand g (of_nat (n + 2)) = Some (r, (pcg_step ^^ Suc k) g)" "r < of_nat (n + 2)"
    by blast
  have lt: "unat r < n + 2"
    using r(2) b by (simp add: word_less_nat_alt)
  let ?xs = "xs[unat r := xs ! (n + 1), n + 1 := xs ! unat r]"
  have get: "vec_get xs (unat r) = Some (xs ! unat r)" "vec_get xs (n + 1) = Some (xs ! (n + 1))"
    using lt "1.prems"(2) by (simp_all add: vec_get_def)
  have same: "mset ?xs = mset xs" "drop (n + 2) ?xs = drop (n + 2) xs"
    using lt "1.prems"(2) by (simp_all add: mset_swap_list drop_update_cancel)
  obtain ys g' where ys: "pcg_shuffle (Suc n) ?xs ((pcg_step ^^ Suc k) g) = Some (ys, g')" "mset ys = mset ?xs" "drop (Suc n) ys = drop (Suc n) ?xs"
    using "1.IH" [OF r(1) refl get] odd_increment_steps [OF "1.prems"(1)] "1.prems"(2,3) by fastforce
  have "drop (n + 2) ys = drop 1 (drop (Suc n) ys)" "drop (n + 2) ?xs = drop 1 (drop (Suc n) ?xs)"
    by (simp_all only: drop_drop) simp_all
  then have "drop (n + 2) ys = drop (n + 2) xs"
    using ys(3) same(2) by simp
  then show ?case
    using r(1) get ys(1,2) same(1) by simp
qed simp_all

end
