(* ===== verification/TrickRegs.thy ===== *)
theory TrickRegs
  imports Eam MemDevice Pcg
begin

text \<open>
  The register blocks of the trickbox (\<^verbatim>\<open>sysmod/trickbox\<close>): the interrupter, the debug
  request lines, the event memory, the programming of the exclusive monitor, the error
  reporting storage, the forwarding window and the transfer helper.  Each block sees every access to the
  trickbox and reacts to its own registers only; the locale \<^verbatim>\<open>trick_block\<close> states this
  contract.  Calls of the reference simulator answer through the parameter
  \<^verbatim>\<open>poke_rpc\<close>; messages logged as errors are events.
\<close>

section \<open>The block interface\<close>

locale trick_block =
  fixes regs :: "'s \<Rightarrow> u64 \<Rightarrow> bool"
    and inv :: "'s \<Rightarrow> bool"
    and readable :: "u64 \<Rightarrow> 's \<Rightarrow> bool"
    and accepts :: "u64 \<Rightarrow> data_t \<Rightarrow> 's \<Rightarrow> bool"
    and blk_read :: "u64 \<Rightarrow> nat \<Rightarrow> data_t \<Rightarrow> 's \<Rightarrow> (data_t \<times> 's \<times> 'e list) option"
    and blk_write :: "u64 \<Rightarrow> nat \<Rightarrow> data_t \<Rightarrow> 's \<Rightarrow> ('s \<times> 'e list) option"
  assumes read_miss: "\<not> regs s a \<Longrightarrow> blk_read a n data s = Some (data, s, [])"
    and write_miss: "\<not> regs s a \<Longrightarrow> 8 \<le> length data \<Longrightarrow> blk_write a n data s = Some (s, [])"
    and read_hit: "inv s \<Longrightarrow> 0 < n \<Longrightarrow> length data = n \<Longrightarrow> readable a s \<Longrightarrow> regs s a \<Longrightarrow>
      \<exists>data' s' evs. blk_read a n data s = Some (data', s', evs) \<and> length data' = n \<and> inv s' \<and> regs s' = regs s"
    and write_hit: "inv s \<Longrightarrow> 8 \<le> length data \<Longrightarrow> accepts a data s \<Longrightarrow> regs s a \<Longrightarrow>
      \<exists>s' evs. blk_write a n data s = Some (s', evs) \<and> inv s' \<and> regs s' = regs s"
begin

lemma block_read:
  assumes "inv s" and "0 < n" and "length data = n" and "regs s a \<Longrightarrow> readable a s"
  shows "\<exists>data' s' evs. blk_read a n data s = Some (data', s', evs) \<and> length data' = n \<and> inv s' \<and>
    regs s' = regs s \<and> (\<not> regs s a \<longrightarrow> data' = data \<and> s' = s \<and> evs = [])"
  using assms read_hit [OF assms(1-3)] by (cases "regs s a") (fastforce simp: read_miss)+

lemma block_write:
  assumes "inv s" and "8 \<le> length data" and "regs s a \<Longrightarrow> accepts a data s"
  shows "\<exists>s' evs. blk_write a n data s = Some (s', evs) \<and> inv s' \<and> regs s' = regs s \<and>
    (\<not> regs s a \<longrightarrow> s' = s \<and> evs = [])"
  using assms write_hit [OF assms(1,2)] by (cases "regs s a") (fastforce simp: write_miss)+

end

section \<open>Interrupter\<close>

record interrupter =
  it_id :: device_id
  it_base :: u64
  it_hart_count :: u32
  it_enable :: bool
  it_scratch :: "u64 list"

datatype it_event = Directed_msi u64 u64 | Nmi_deassert u32 | Mti_deassert u32 | It_error u64 u64

definition interrupter_new :: "u64 \<Rightarrow> u32 \<Rightarrow> interrupter" where
  "interrupter_new addr harts = \<lparr> it_id = \<lparr> dv_tag = ''interrupter'', dv_addr = addr, dv_size = 0x50000 \<rparr>,
     it_base = addr, it_hart_count = harts, it_enable = False, it_scratch = replicate 256 0 \<rparr>"

definition intr_enable_read :: "interrupter \<Rightarrow> bool" where
  "intr_enable_read s = it_enable s"

definition interrupter_read :: "u64 \<Rightarrow> nat \<Rightarrow> data_t \<Rightarrow> interrupter \<Rightarrow> (data_t \<times> interrupter \<times> it_event list) option" where
  "interrupter_read addr len data s =
     (let base = it_base s + 0x2000; i = unat ((addr - base) div 8) in
      if base \<le> addr \<and> addr < base + 0x1000 \<and> i < 256 then do {
        v \<leftarrow> vec_get (it_scratch s) i;
        data \<leftarrow> serializeInt v len data;
        Some (data, s, [])
      } else Some (data, s, []))"

definition interrupter_write :: "u64 \<Rightarrow> nat \<Rightarrow> data_t \<Rightarrow> interrupter \<Rightarrow> (interrupter \<times> it_event list) option" where
  "interrupter_write addr len data s =
     (if \<not> has_addr (it_id s) addr then Some (s, [])
      else do {
        t_data \<leftarrow> deserializeInt data;
        let base = it_base s; nmi_base = base + 0x5000; mti_base = base + 0x6000;
            span = ucast (it_hart_count s) * 0x100 in
        if addr = base then Some (s, [Directed_msi (t_data AND 0xfff) t_data])
        else if base < addr \<and> addr < base + 0x1000 then Some (s, [])
        else if base + 0x2000 \<le> addr \<and> addr < base + 0x3000 then
          (let i = unat ((addr - (base + 0x2000)) div 8) in
           if i < 256 then do {
             m \<leftarrow> vec_set (it_scratch s) i t_data;
             Some (s\<lparr> it_scratch := m \<rparr>, [])
           } else Some (s, []))
        else if addr = base + 0x4000 then Some (s, [])
        else if addr = base + 0x4040 then Some (s\<lparr> it_enable := t_data \<noteq> 0 \<rparr>, [])
        else if nmi_base \<le> addr \<and> addr \<le> nmi_base + span then Some (s, [Nmi_deassert (ucast ((addr - nmi_base) div 0x100))])
        else if mti_base \<le> addr \<and> addr \<le> mti_base + span then Some (s, [Mti_deassert (ucast ((addr - mti_base) div 0x100))])
        else Some (s, [It_error addr t_data])
      })"

section \<open>Debug requests\<close>

record debug_req_vld =
  dr_id :: device_id
  assert_addr :: u64
  deassert_addr :: u64
  dr_hart_count :: u32
  req_mask :: u64

datatype dr_event = Debug_request u64 bool | Dr_unknown u64 u64 | Dr_hart_range u64

definition debug_req_vld_reset :: "debug_req_vld \<Rightarrow> debug_req_vld" where
  "debug_req_vld_reset s = s\<lparr> req_mask := 0 \<rparr>"

definition debug_req_vld_new :: "u64 \<Rightarrow> u32 \<Rightarrow> debug_req_vld" where
  "debug_req_vld_new addr harts = debug_req_vld_reset
     \<lparr> dr_id = \<lparr> dv_tag = ''debug_req_vld'', dv_addr = addr, dv_size = 0x1000 \<rparr>, assert_addr = addr,
       deassert_addr = addr + 0x8, dr_hart_count = harts, req_mask = 0 \<rparr>"

text \<open>Shifting one by 64 or more is undefined.\<close>

definition hart_bit :: "u64 \<Rightarrow> u64 option" where
  "hart_bit h = (if h < 64 then Some (shl64 1 (unat h)) else None)"

definition debug_req_vld_write :: "u64 \<Rightarrow> nat \<Rightarrow> data_t \<Rightarrow> debug_req_vld \<Rightarrow> (debug_req_vld \<times> dr_event list) option" where
  "debug_req_vld_write addr len data s =
     (if \<not> has_addr (dr_id s) addr then Some (s, [])
      else do {
        t_data \<leftarrow> deserializeInt data;
        if addr \<noteq> assert_addr s \<and> addr \<noteq> deassert_addr s then Some (s, [Dr_unknown addr t_data])
        else
          let set = (addr = assert_addr s); h = t_data AND 0xff in
          if ucast (dr_hart_count s) \<le> h then Some (s, [Dr_hart_range h])
          else do {
            b \<leftarrow> hart_bit h;
            Some (s\<lparr> req_mask := (if set then req_mask s OR b else req_mask s AND NOT b) \<rparr>, [Debug_request h set])
          }
      })"

definition debug_req_vld_read :: "u64 \<Rightarrow> nat \<Rightarrow> data_t \<Rightarrow> debug_req_vld \<Rightarrow> (data_t \<times> debug_req_vld \<times> dr_event list) option" where
  "debug_req_vld_read addr len data s =
     (if has_addr (dr_id s) addr \<and> addr = assert_addr s then do {
        data \<leftarrow> serializeInt (req_mask s) len data;
        Some (data, s, [])
      } else Some (data, s, []))"

section \<open>Event memory\<close>

record evt_trigger =
  et_id :: device_id
  tboxmem_base :: u64
  tboxmem :: "u64 list"

definition evt_trigger_new :: "u64 \<Rightarrow> evt_trigger" where
  "evt_trigger_new addr = \<lparr> et_id = \<lparr> dv_tag = ''evt_trigger'', dv_addr = addr, dv_size = 0x1000 \<rparr>,
     tboxmem_base = addr, tboxmem = replicate 1024 0 \<rparr>"

definition evt_trigger_write :: "u64 \<Rightarrow> nat \<Rightarrow> data_t \<Rightarrow> evt_trigger \<Rightarrow> (evt_trigger \<times> unit list) option" where
  "evt_trigger_write addr len data s =
     (if \<not> has_addr (et_id s) addr then Some (s, [])
      else do {
        t_data \<leftarrow> deserializeInt data;
        let i = unat ((addr - tboxmem_base s) div 8) in
        if i < 1024 then do {
          m \<leftarrow> vec_set (tboxmem s) i t_data;
          Some (s\<lparr> tboxmem := m \<rparr>, [])
        } else Some (s, [])
      })"

definition evt_trigger_read :: "u64 \<Rightarrow> nat \<Rightarrow> data_t \<Rightarrow> evt_trigger \<Rightarrow> (data_t \<times> evt_trigger \<times> unit list) option" where
  "evt_trigger_read addr len data s =
     (if \<not> has_addr (et_id s) addr then Some (data, s, [])
      else do {
        let i = unat ((addr - tboxmem_base s) div 8) in do {
        d \<leftarrow> (if i < 1024 then vec_get (tboxmem s) i else Some 0);
        data \<leftarrow> serializeInt d len data;
        Some (data, s, [])
      }})"

section \<open>Programming of the exclusive monitor\<close>

text \<open>The monitor is one object of the process; the helper forwards every value to it.\<close>

record eam_helper =
  eh_id :: device_id
  eh_base :: u64
  fail_addr :: u64
  fail_cnt :: u64
  fail_en :: bool
  eh_monitor :: eam

definition FAIL_ADDR_OFFSET :: u64 where
  "FAIL_ADDR_OFFSET = 0x100"

definition FAIL_CNT_OFFSET :: u64 where
  "FAIL_CNT_OFFSET = 0x120"

definition FAIL_EN_OFFSET :: u64 where
  "FAIL_EN_OFFSET = 0x140"

definition eam_helper_reset :: "eam_helper \<Rightarrow> eam_helper" where
  "eam_helper_reset s = s\<lparr> fail_addr := 0, fail_cnt := 0, fail_en := False \<rparr>"

definition eam_helper_new :: "u64 \<Rightarrow> eam \<Rightarrow> eam_helper" where
  "eam_helper_new addr mon = eam_helper_reset
     \<lparr> eh_id = \<lparr> dv_tag = ''eam_helper'', dv_addr = addr, dv_size = 0x1000 \<rparr>, eh_base = addr,
       fail_addr = 0, fail_cnt = 0, fail_en = False, eh_monitor = mon \<rparr>"

definition set_fail_addr :: "u64 \<Rightarrow> eam_helper \<Rightarrow> eam_helper" where
  "set_fail_addr v s = s\<lparr> fail_addr := v, eh_monitor := set_tb_fail_addr v (eh_monitor s) \<rparr>"

definition set_fail_cnt :: "u64 \<Rightarrow> eam_helper \<Rightarrow> eam_helper" where
  "set_fail_cnt v s = s\<lparr> fail_cnt := v, eh_monitor := set_tb_fail_cnt v (eh_monitor s) \<rparr>"

definition set_fail_en :: "bool \<Rightarrow> eam_helper \<Rightarrow> eam_helper" where
  "set_fail_en v s = s\<lparr> fail_en := v, eh_monitor := set_tb_fail_en v (eh_monitor s) \<rparr>"

definition eam_helper_read :: "u64 \<Rightarrow> nat \<Rightarrow> data_t \<Rightarrow> eam_helper \<Rightarrow> (data_t \<times> eam_helper \<times> unit list) option" where
  "eam_helper_read addr len data s =
     (let off = addr - eh_base s; ret = (\<lambda>v :: u64. do { data \<leftarrow> serializeInt v len data; Some (data, s, []) }) in
      if \<not> has_addr (eh_id s) addr then Some (data, s, [])
      else if off = FAIL_ADDR_OFFSET then ret (fail_addr s)
      else if off = FAIL_CNT_OFFSET then ret (fail_cnt s)
      else if off = FAIL_EN_OFFSET then ret (if fail_en s then 1 else 0)
      else Some (data, s, []))"

text \<open>The decoder of this helper stops at the end of short data.\<close>

definition eam_deserializeInt :: "data_t \<Rightarrow> u64 option" where
  "eam_deserializeInt data = deserialize_loop data 0 (min 8 (length data)) 0"

definition eam_helper_write :: "u64 \<Rightarrow> nat \<Rightarrow> data_t \<Rightarrow> eam_helper \<Rightarrow> (eam_helper \<times> unit list) option" where
  "eam_helper_write addr len data s =
     (if \<not> has_addr (eh_id s) addr then Some (s, [])
      else do {
        t_data \<leftarrow> eam_deserializeInt data;
        let off = addr - eh_base s in
        Some (if off = FAIL_ADDR_OFFSET then set_fail_addr t_data s
              else if off = FAIL_CNT_OFFSET then set_fail_cnt t_data s
              else if off = FAIL_EN_OFFSET then set_fail_en (t_data AND 1 \<noteq> 0) s
              else s, [])
      })"

section \<open>Error reporting storage\<close>

record 'm ras_helper =
  rh_id :: device_id
  rh_base :: u64
  rh_mem :: 'm
  local64BStorage :: "u64 list"

text \<open>The storage array is not initialised by the constructor: its first contents are an argument.\<close>

definition ras_helper_new :: "u64 \<Rightarrow> 'm \<Rightarrow> u64 list \<Rightarrow> 'm ras_helper" where
  "ras_helper_new addr m garbage = \<lparr> rh_id = \<lparr> dv_tag = ''ras_helper'', dv_addr = addr, dv_size = 0x800 \<rparr>,
     rh_base = addr, rh_mem = m, local64BStorage = garbage \<rparr>"

definition ras_helper_read :: "'m mem_manager \<Rightarrow> u64 \<Rightarrow> nat \<Rightarrow> data_t \<Rightarrow> 'm ras_helper \<Rightarrow>
    (data_t \<times> 'm ras_helper \<times> unit list) option" where
  "ras_helper_read mm addr len data s =
     (if \<not> has_addr (rh_id s) addr then Some (data, s, [])
      else map_option (\<lambda>data. (data, s, [])) (mem_backdoor_read mm addr len data (rh_mem s)))"

definition ras_helper_backdoor_read :: "u64 \<Rightarrow> 'm ras_helper \<Rightarrow> u64 option option" where
  "ras_helper_backdoor_read addr s =
     (if \<not> has_addr (rh_id s) addr then Some None
      else map_option Some (vec_get (local64BStorage s) (unat ((addr - rh_base s) div 8))))"

text \<open>Eight byte writes to consecutive addresses.\<close>

definition mem_write8 :: "'m mem_manager \<Rightarrow> u64 \<Rightarrow> data_t \<Rightarrow> 'm \<Rightarrow> 'm option" where
  "mem_write8 mm addr data m = write_loop mm addr data (replicate 8 True) 0 8 m"

definition ras_helper_backdoor_write :: "'m mem_manager \<Rightarrow> u64 \<Rightarrow> u64 \<Rightarrow> 'm ras_helper \<Rightarrow> (bool \<times> 'm ras_helper) option" where
  "ras_helper_backdoor_write mm addr v s =
     (if \<not> has_addr (rh_id s) addr then Some (False, s)
      else do {
        local_data \<leftarrow> serializeInt v 8 (replicate 8 0);
        m \<leftarrow> mem_write8 mm addr local_data (rh_mem s);
        st \<leftarrow> vec_set (local64BStorage s) (unat ((addr - rh_base s) div 8)) v;
        Some (True, s\<lparr> rh_mem := m, local64BStorage := st \<rparr>)
      })"

definition ras_helper_write :: "'m mem_manager \<Rightarrow> u64 \<Rightarrow> nat \<Rightarrow> data_t \<Rightarrow> 'm ras_helper \<Rightarrow>
    ('m ras_helper \<times> unit list) option" where
  "ras_helper_write mm addr len data s =
     (if \<not> has_addr (rh_id s) addr then Some (s, [])
      else do {
        t_data \<leftarrow> deserializeInt data;
        m \<leftarrow> mem_write8 mm addr data (rh_mem s);
        st \<leftarrow> vec_set (local64BStorage s) (unat ((addr - rh_base s) div 8)) t_data;
        Some (s\<lparr> rh_mem := m, local64BStorage := st \<rparr>, [])
      })"

section \<open>Forwarding window\<close>

record post_si =
  ps_id :: device_id
  ps_base :: u64

datatype ps_event = Pcietc_write u64 u64 nat data_t | Pcietc_read u64 u64 nat

definition post_si_new :: "u64 \<Rightarrow> post_si" where
  "post_si_new addr = \<lparr> ps_id = \<lparr> dv_tag = ''post_si_pcietc_helper'', dv_addr = addr, dv_size = 0xc00000 \<rparr>, ps_base = addr \<rparr>"

text \<open>The overlay driver that answers the call is outside: \<^verbatim>\<open>rpc\<close> is what it leaves in the data.\<close>

definition post_si_read :: "(u64 \<Rightarrow> u64 \<Rightarrow> nat \<Rightarrow> data_t \<Rightarrow> data_t) \<Rightarrow> u64 \<Rightarrow> nat \<Rightarrow> data_t \<Rightarrow> post_si \<Rightarrow>
    (data_t \<times> post_si \<times> ps_event list) option" where
  "post_si_read rpc addr len data s =
     (if \<not> has_addr (ps_id s) addr then Some (data, s, [])
      else let off = addr - ps_base s in
        Some (rpc addr off len (replicate len 0), s, [Pcietc_read addr off len]))"

definition post_si_write :: "u64 \<Rightarrow> nat \<Rightarrow> data_t \<Rightarrow> post_si \<Rightarrow> (post_si \<times> ps_event list) option" where
  "post_si_write addr len data s =
     (if \<not> has_addr (ps_id s) addr then Some (s, [])
      else Some (s, [Pcietc_write addr (addr - ps_base s) len data]))"

section \<open>Transfer helper\<close>

text \<open>
  \<^verbatim>\<open>poke_rpc\<close> is the answer of the simulator client to a poke of some bytes: whether the call went
  through and whether the poke was valid; failures count only when they are checked.
\<close>

record poke_env =
  poke_check :: bool
  poke_rpc :: "u64 \<Rightarrow> nat \<Rightarrow> u64 \<Rightarrow> bool \<times> bool"

definition poke_failed :: "poke_env \<Rightarrow> u64 \<Rightarrow> nat \<Rightarrow> u64 \<Rightarrow> bool" where
  "poke_failed e a n v \<longleftrightarrow> \<not> (fst (poke_rpc e a n v) \<and> snd (poke_rpc e a n v)) \<and> poke_check e"

record 'm uc_helper =
  uc_id :: device_id
  uc_base :: u64
  uc_status :: u64
  uc_addr :: u64
  uc_size :: u64
  uc_trigger :: u64
  uc_read_flag :: u8
  uc_mem :: 'm
  uc_rng :: pcg32

datatype uc_event = Uc_poke u64 nat u64 | Uc_store u64 u8 | Uc_read_req u64 | Uc_error | Uc_status_error

definition uc_helper_new :: "u64 \<Rightarrow> u64 \<Rightarrow> 'm \<Rightarrow> 'm uc_helper" where
  "uc_helper_new seed addr m = \<lparr> uc_id = \<lparr> dv_tag = ''uc_helper'', dv_addr = addr, dv_size = 0x1000 \<rparr>,
     uc_base = addr, uc_status = 0, uc_addr = 0x90a0000, uc_size = 2, uc_trigger = 0, uc_read_flag = 0,
     uc_mem = m, uc_rng = pcg32_seed seed \<rparr>"

definition convertToUInt64 :: "data_t \<Rightarrow> u64 option" where
  "convertToUInt64 vec = (if length vec \<noteq> 8 then None else deserialize_loop vec 0 8 0)"

fun store_bytes :: "'m mem_manager \<Rightarrow> u64 \<Rightarrow> data_t \<Rightarrow> nat \<Rightarrow> nat \<Rightarrow> 'm \<Rightarrow> 'm option" where
  "store_bytes mm base data j 0 m = Some m"
| "store_bytes mm base data j (Suc k) m = do {
     b \<leftarrow> vec_get data j;
     store_bytes mm base data (Suc j) k (mm_write mm (base + of_nat j) [b] m)
   }"

definition update_mem_model :: "poke_env \<Rightarrow> 'm mem_manager \<Rightarrow> nat \<Rightarrow> data_t \<Rightarrow> 'm uc_helper \<Rightarrow>
    ('m uc_helper \<times> uc_event list) option" where
  "update_mem_model e mm len data s = do {
     m \<leftarrow> store_bytes mm (uc_base s) data 0 len (uc_mem s);
     let s = s\<lparr> uc_mem := m \<rparr> in do {
     w \<leftarrow> convertToUInt64 data;
     Some (if poke_failed e (uc_base s) 8 w then (s, [Uc_poke (uc_base s) 8 w, Uc_error])
           else (s\<lparr> uc_read_flag := 1 \<rparr>, [Uc_poke (uc_base s) 8 w]))
   }}"

definition uc_helper_read :: "'m mem_manager \<Rightarrow> u64 \<Rightarrow> nat \<Rightarrow> data_t \<Rightarrow> 'm uc_helper \<Rightarrow>
    (data_t \<times> 'm uc_helper \<times> uc_event list) option" where
  "uc_helper_read mm addr len data s =
     (if \<not> has_addr (uc_id s) addr then Some (data, s, [])
      else map_option (\<lambda>data. (data, s, [])) (mem_backdoor_read mm addr len data (uc_mem s)))"

text \<open>The fill loop: it stops early when a checked poke does not go through.\<close>

fun uc_fill :: "poke_env \<Rightarrow> u64 \<Rightarrow> nat \<Rightarrow> nat \<Rightarrow> pcg32 \<Rightarrow> bool \<times> pcg32 \<times> uc_event list" where
  "uc_fill e a i 0 g = (True, g, [])"
| "uc_fill e a i (Suc k) g =
     (let (r, g) = pcg32_next g; b = ucast (r AND 0xff); x = a + of_nat i in
      if \<not> fst (poke_rpc e x 1 (ucast b)) \<and> poke_check e then (False, g, [Uc_poke x 1 (ucast b), Uc_error])
      else let (ok, g, evs) = uc_fill e a (Suc i) k g in (ok, g, Uc_poke x 1 (ucast b) # Uc_store x b # evs))"

text \<open>
  The platform answers a read request while the request is signalled: \<^verbatim>\<open>answer\<close> is the data it
  sends back, if any.  Without an answer, or when the poke of the answer fails, the
  polling loop never ends.
\<close>

definition uc_backdoor_read :: "poke_env \<Rightarrow> 'm mem_manager \<Rightarrow> (u64 \<Rightarrow> data_t option) \<Rightarrow> 'm uc_helper \<Rightarrow>
    ('m uc_helper \<times> uc_event list) option" where
  "uc_backdoor_read e mm answer s = do {
     data \<leftarrow> answer (uc_addr s);
     (s', evs) \<leftarrow> update_mem_model e mm 8 data (s\<lparr> uc_read_flag := 0 \<rparr>);
     if uc_read_flag s' = 0 then None else Some (s', Uc_read_req (uc_addr s) # evs)
   }"

definition uc_fill_area :: "poke_env \<Rightarrow> 'm mem_manager \<Rightarrow> 'm uc_helper \<Rightarrow> 'm uc_helper \<times> uc_event list" where
  "uc_fill_area e mm s =
     (let s = s\<lparr> uc_trigger := 0 \<rparr>; (ok, g, evs) = uc_fill e (uc_addr s) 0 (unat (uc_size s)) (uc_rng s);
          s = s\<lparr> uc_rng := g \<rparr> in
      if \<not> ok then (s, evs)
      else
        let s = s\<lparr> uc_trigger := 1, uc_mem := mm_write mm (uc_base s) [0xff] (uc_mem s) \<rparr> in
        (s, evs @ Uc_poke (uc_base s) 1 0xff #
           (if \<not> fst (poke_rpc e (uc_base s) 1 0xff) \<and> poke_check e then [Uc_error] else [])))"

definition uc_helper_write :: "poke_env \<Rightarrow> 'm mem_manager \<Rightarrow> (u64 \<Rightarrow> data_t option) \<Rightarrow> u64 \<Rightarrow> nat \<Rightarrow> data_t \<Rightarrow> 'm uc_helper \<Rightarrow>
    ('m uc_helper \<times> uc_event list) option" where
  "uc_helper_write e mm answer addr len data s =
     (if \<not> has_addr (uc_id s) addr then Some (s, [])
      else do {
        t_data \<leftarrow> deserializeInt data;
        let base = uc_base s in
        if addr = base then
          Some (s\<lparr> uc_status := t_data AND 1 \<rparr>, if 0 < t_data then [Uc_status_error] else [])
        else if addr = base + 0x100 then
          Some (s\<lparr> uc_addr := (if bit t_data 55 then t_data AND NOT (push_bit 55 1) else t_data) \<rparr>, [])
        else if addr = base + 0x200 then Some (s\<lparr> uc_size := t_data \<rparr>, [])
        else if addr = base + 0x300 then Some (uc_fill_area e mm s)
        else if addr = base + 0x400 then uc_backdoor_read e mm answer s
        else if base + 0x500 \<le> addr \<and> addr \<le> base + 0x600 then do {
          m \<leftarrow> mem_write8 mm addr data (uc_mem s);
          Some (s\<lparr> uc_mem := m \<rparr>, [])
        }
        else Some (s, [])
      })"

section \<open>The blocks keep their contract\<close>

lemma word_data: "8 \<le> length data \<Longrightarrow> \<exists>v :: u64. deserializeInt data = Some v"
  using deserializeInt_Some [of data, where 'a = 64] by simp

lemma mem_write8_ok:
  assumes "mem_laws mm" and "8 \<le> length data"
  shows "\<exists>m'. mem_write8 mm addr data m = Some m' \<and>
    (\<forall>b. mem_at mm m' b = (if unat (b - addr) < 8 then data ! unat (b - addr) else mem_at mm m b))"
  using write_loop_mem [OF assms(1), of 0 8 "replicate 8 True" data addr m] assms(2)
  by (auto simp: mem_write8_def Let_def)

lemma backdoor_read_ok:
  assumes "mem_laws mm" and "length data = n"
  shows "\<exists>data'. mem_backdoor_read mm addr n data m = Some data' \<and> length data' = n \<and>
    (\<forall>i < n. data' ! i = mem_at mm m (addr + of_nat i))"
  using assms by (simp add: mem_backdoor_read_def mem_laws_read)

definition it_regs :: "interrupter \<Rightarrow> u64 \<Rightarrow> bool" where
  "it_regs s a \<longleftrightarrow> has_addr (it_id s) a \<or> (it_base s + 0x2000 \<le> a \<and> a < it_base s + 0x2000 + 0x1000)"

interpretation it_block: trick_block it_regs "\<lambda>s. length (it_scratch s) = 256" "\<lambda>_ _. True" "\<lambda>_ _ _. True"
  interrupter_read interrupter_write
proof
  show "interrupter_read a n data s = Some (data, s, [])" if "\<not> it_regs s a" for s a n data
    using that by (auto simp: interrupter_read_def it_regs_def Let_def)
  show "interrupter_write a n data s = Some (s, [])" if "\<not> it_regs s a" for s a n data
    using that by (simp add: interrupter_write_def it_regs_def)
  show "\<exists>data' s' evs. interrupter_read a n data s = Some (data', s', evs) \<and> length data' = n \<and>
      length (it_scratch s') = 256 \<and> it_regs s' = it_regs s"
    if "length (it_scratch s) = 256" "length data = n" for s a n data
    using that by (auto simp: interrupter_read_def Let_def byte_simps)
  show "\<exists>s' evs. interrupter_write a n data s = Some (s', evs) \<and> length (it_scratch s') = 256 \<and> it_regs s' = it_regs s"
    if "length (it_scratch s) = 256" "8 \<le> length data" for s a n data
    using that word_data [of data] by (auto simp: interrupter_write_def Let_def it_regs_def fun_eq_iff)
qed

lemma hart_in_mask: "\<exists>b. hart_bit h = Some b" if "h < ucast (dr_hart_count s)" "dr_hart_count s \<le> 64"
proof -
  have "unat (dr_hart_count s) \<le> 64"
    using that(2) by (simp add: word_le_nat_alt)
  with that(1) have "h < 64"
    by (simp add: word_less_nat_alt unat_ucast_u32_u64)
  then show ?thesis
    by (simp add: hart_bit_def)
qed

interpretation dr_block: trick_block "\<lambda>s. has_addr (dr_id s)" "\<lambda>s. dr_hart_count s \<le> 64" "\<lambda>_ _. True" "\<lambda>_ _ _. True"
  debug_req_vld_read debug_req_vld_write
proof
  show "\<exists>s' evs. debug_req_vld_write a n data s = Some (s', evs) \<and> dr_hart_count s' \<le> 64 \<and>
      has_addr (dr_id s') = has_addr (dr_id s)"
    if "dr_hart_count s \<le> 64" "8 \<le> length data" for s a n data
    using that word_data [of data] hart_in_mask [of _ s]
    by (fastforce simp: debug_req_vld_write_def Let_def not_le)
qed (auto simp: debug_req_vld_read_def debug_req_vld_write_def byte_simps)

interpretation et_block: trick_block "\<lambda>s. has_addr (et_id s)" "\<lambda>s. length (tboxmem s) = 1024" "\<lambda>_ _. True" "\<lambda>_ _ _. True"
  evt_trigger_read evt_trigger_write
proof
  show "\<exists>s' evs. evt_trigger_write a n data s = Some (s', evs) \<and> length (tboxmem s') = 1024 \<and>
      has_addr (et_id s') = has_addr (et_id s)"
    if "length (tboxmem s) = 1024" "8 \<le> length data" for s a n data
    using that word_data [of data] by (auto simp: evt_trigger_write_def Let_def)
qed (auto simp: evt_trigger_read_def evt_trigger_write_def byte_simps Let_def)

lemma eam_word_data: "\<exists>v. eam_deserializeInt data = Some v"
  using bit_deserialize_loop [of 0 "min 8 (length data)" data "0 :: u64"] by (auto simp: eam_deserializeInt_def)

interpretation eh_block: trick_block "\<lambda>s. has_addr (eh_id s)" "\<lambda>_. True" "\<lambda>_ _. True" "\<lambda>_ _ _. True"
  eam_helper_read eam_helper_write
proof
  show "\<exists>s' evs. eam_helper_write a n data s = Some (s', evs) \<and> True \<and> has_addr (eh_id s') = has_addr (eh_id s)"
    for s a n data
    using eam_word_data [of data]
    by (auto simp: eam_helper_write_def Let_def set_fail_addr_def set_fail_cnt_def set_fail_en_def)
qed (auto simp: eam_helper_read_def eam_helper_write_def byte_simps Let_def)

definition rh_inv :: "'m mem_manager \<Rightarrow> 'm ras_helper \<Rightarrow> bool" where
  "rh_inv mm s \<longleftrightarrow> mem_laws mm \<and> length (local64BStorage s) = 256 \<and> dv_addr (rh_id s) = rh_base s \<and> dv_size (rh_id s) = 0x800"

lemma rh_slot: "unat ((a - rh_base s) div 8) < 256" if "has_addr (rh_id s) a" "rh_inv mm s"
proof -
  have "unat (a - rh_base s) < 0x800"
    using that by (simp add: has_addr_def rh_inv_def) unat_arith
  then show ?thesis
    by (simp add: unat_div)
qed

interpretation rh_block: trick_block "\<lambda>s. has_addr (rh_id s)" "rh_inv mm" "\<lambda>_ _. True" "\<lambda>_ _ _. True"
  "ras_helper_read mm" "ras_helper_write mm" for mm
proof
  show "\<exists>data' s' evs. ras_helper_read mm a n data s = Some (data', s', evs) \<and> length data' = n \<and> rh_inv mm s' \<and>
      has_addr (rh_id s') = has_addr (rh_id s)" if "rh_inv mm s" "length data = n" for s a n data
    using that backdoor_read_ok [of mm data n a "rh_mem s"] by (auto simp: ras_helper_read_def rh_inv_def)
  show "\<exists>s' evs. ras_helper_write mm a n data s = Some (s', evs) \<and> rh_inv mm s' \<and> has_addr (rh_id s') = has_addr (rh_id s)"
    if "rh_inv mm s" "8 \<le> length data" "has_addr (rh_id s) a" for s a n data
    using that word_data [of data] mem_write8_ok [of mm data a "rh_mem s"] rh_slot [of s a mm]
    by (auto simp: ras_helper_write_def rh_inv_def)
qed (auto simp: ras_helper_read_def ras_helper_write_def)

definition rpc_law :: "(u64 \<Rightarrow> u64 \<Rightarrow> nat \<Rightarrow> data_t \<Rightarrow> data_t) \<Rightarrow> bool" where
  "rpc_law rpc \<longleftrightarrow> (\<forall>a off n d. length (rpc a off n d) = length d)"

interpretation ps_block: trick_block "\<lambda>s. has_addr (ps_id s)" "\<lambda>_. rpc_law rpc" "\<lambda>_ _. True" "\<lambda>_ _ _. True"
  "post_si_read rpc" post_si_write for rpc
  by unfold_locales (auto simp: post_si_read_def post_si_write_def rpc_law_def Let_def)

section \<open>Transfers\<close>

lemma store_bytes_mem:
  assumes "mem_laws mm" and "j + k \<le> length data" and "j + k \<le> 2 ^ 64"
  shows "\<exists>m'. store_bytes mm base data j k m = Some m' \<and>
    (\<forall>b. mem_at mm m' b = (let i = unat (b - base) in if j \<le> i \<and> i < j + k then data ! i else mem_at mm m b))"
proof -
  have "write_loop mm base data (replicate (length data) True) j k m = store_bytes mm base data j k m"
    if "j + k \<le> length data" for j m
    using that by (induction k arbitrary: j m) simp_all
  moreover have "\<exists>m'. write_loop mm base data (replicate (length data) True) j k m = Some m' \<and>
    (\<forall>b. mem_at mm m' b = (let i = unat (b - base) in
       if j \<le> i \<and> i < j + k \<and> replicate (length data) True ! i then data ! i else mem_at mm m b))"
    using assms by (intro write_loop_mem) simp_all
  ultimately show ?thesis
    using assms(2) by (fastforce simp: Let_def)
qed

lemma update_mem_model_ok:
  assumes laws: "mem_laws mm" and len: "length data = 8"
  shows "\<exists>s' w evs. update_mem_model e mm 8 data s = Some (s', evs) \<and> deserializeInt data = Some w \<and>
    uc_id s' = uc_id s \<and> uc_base s' = uc_base s \<and> uc_addr s' = uc_addr s \<and>
    evs = Uc_poke (uc_base s) 8 w # (if poke_failed e (uc_base s) 8 w then [Uc_error] else []) \<and>
    (\<not> poke_failed e (uc_base s) 8 w \<longrightarrow> uc_read_flag s' = 1) \<and>
    (\<forall>b. mem_at mm (uc_mem s') b =
      (if unat (b - uc_base s) < 8 then data ! unat (b - uc_base s) else mem_at mm (uc_mem s) b))"
proof -
  obtain w :: u64 where w: "deserializeInt data = Some w"
    using word_data [of data] len by auto
  then have "convertToUInt64 data = Some w"
    using len by (simp add: convertToUInt64_def deserializeInt_def)
  then show ?thesis
    using w store_bytes_mem [OF laws, of 0 8 data "uc_base s" "uc_mem s"] len
    by (auto simp: update_mem_model_def Let_def)
qed

definition uc_accepts :: "poke_env \<Rightarrow> (u64 \<Rightarrow> data_t option) \<Rightarrow> u64 \<Rightarrow> data_t \<Rightarrow> 'm uc_helper \<Rightarrow> bool" where
  "uc_accepts e answer a data s \<longleftrightarrow> (a = uc_base s + 0x400 \<longrightarrow>
     (case answer (uc_addr s) of None \<Rightarrow> False
      | Some d \<Rightarrow> length d = 8 \<and> \<not> poke_failed e (uc_base s) 8 (the (deserializeInt d))))"

lemma uc_backdoor_read_ok:
  assumes "mem_laws mm" and "answer (uc_addr s) = Some d" and "length d = 8"
    and "\<not> poke_failed e (uc_base s) 8 (the (deserializeInt d))"
  shows "\<exists>s' w. uc_backdoor_read e mm answer s = Some (s', [Uc_read_req (uc_addr s), Uc_poke (uc_base s) 8 w]) \<and>
    deserializeInt d = Some w \<and> uc_id s' = uc_id s \<and> uc_base s' = uc_base s \<and>
    (\<forall>b. mem_at mm (uc_mem s') b =
      (if unat (b - uc_base s) < 8 then d ! unat (b - uc_base s) else mem_at mm (uc_mem s) b))"
  using update_mem_model_ok [OF assms(1,3), of e "s\<lparr> uc_read_flag := 0 \<rparr>"] assms(2,4)
  by (auto simp: uc_backdoor_read_def)

lemma uc_fill_area_id [simp]: "uc_id (fst (uc_fill_area e mm s)) = uc_id s" "uc_base (fst (uc_fill_area e mm s)) = uc_base s"
  by (simp_all add: uc_fill_area_def Let_def split: prod.split)

interpretation uc_block: trick_block "\<lambda>s. has_addr (uc_id s)" "\<lambda>_. mem_laws mm" "\<lambda>_ _. True" "uc_accepts e answer"
  "uc_helper_read mm" "uc_helper_write e mm answer" for e mm answer
proof
  show "\<exists>data' s' evs. uc_helper_read mm a n data s = Some (data', s', evs) \<and> length data' = n \<and> mem_laws mm \<and>
      has_addr (uc_id s') = has_addr (uc_id s)" if "mem_laws mm" "length data = n" for s a n data
    using that backdoor_read_ok [of mm data n a "uc_mem s"] by (auto simp: uc_helper_read_def)
  show "\<exists>s' evs. uc_helper_write e mm answer a n data s = Some (s', evs) \<and> mem_laws mm \<and> has_addr (uc_id s') = has_addr (uc_id s)"
    if "mem_laws mm" "8 \<le> length data" "uc_accepts e answer a data s" for s a n data
  proof (cases "has_addr (uc_id s) a \<and> a = uc_base s + 0x400")
    case True
    with that(3) obtain d where "answer (uc_addr s) = Some d" "length d = 8"
      "\<not> poke_failed e (uc_base s) 8 (the (deserializeInt d))"
      by (auto simp: uc_accepts_def split: option.splits)
    from uc_backdoor_read_ok [of mm answer s d e, OF that(1) this] show ?thesis
      using True word_data [OF that(2)] that(1) by (auto simp: uc_helper_write_def Let_def)
  next
    case False
    then show ?thesis
      using that word_data [of data] mem_write8_ok [of mm data a "uc_mem s"] uc_fill_area_id [of e mm s]
      by (cases "uc_fill_area e mm s") (auto simp: uc_helper_write_def Let_def)
  qed
qed (auto simp: uc_helper_read_def uc_helper_write_def)

text \<open>The bytes that the generator yields.\<close>

definition rand_byte :: "pcg32 \<Rightarrow> nat \<Rightarrow> u8" where
  "rand_byte g i = ucast (fst (pcg32_next ((pcg_step ^^ i) g)))"

lemma low_byte: "ucast (r AND 0xff :: u32) = (ucast r :: u8)"
proof -
  have m: "(0xff :: u32) = mask 8"
    by (simp add: mask_eq_exp_minus_1)
  show ?thesis
    unfolding m by (auto intro!: bit_word_eqI simp: bit_simps)
qed

lemma uc_fill_result:
  assumes "\<And>x v. poke_check e \<Longrightarrow> fst (poke_rpc e x 1 v)"
  shows "uc_fill e a i k g = (True, (pcg_step ^^ k) g,
    concat (map (\<lambda>j. [Uc_poke (a + of_nat (i + j)) 1 (ucast (rand_byte g j)), Uc_store (a + of_nat (i + j)) (rand_byte g j)]) [0..<k]))"
proof (induction k arbitrary: i g)
  case (Suc k)
  have shift: "rand_byte (pcg_step g) j = rand_byte g (Suc j)" for j
    by (simp add: rand_byte_def funpow_swap1)
  have upt: "[0..<Suc k] = 0 # map Suc [0..<k]"
    by (simp add: map_Suc_upt upt_conv_Cons del: upt_Suc)
  have zero: "ucast (fst (pcg32_next g)) = rand_byte g 0"
    by (simp add: rand_byte_def)
  show ?case
    using assms unfolding upt
    by (simp add: Suc.IH pcg32_next_eq low_byte shift zero [unfolded pcg32_next_eq fst_conv] funpow_swap1 comp_def Let_def
        algebra_simps del: upt_Suc) auto
qed simp

text \<open>
  C20: a triggered fill writes the same random bytes everywhere.  When the pokes go through, the
  area of the programmed size is filled in order: for every address one poke of the
  reference model and one store to the platform, both with the next byte of the
  generator; then the status byte is set in the helper's memory and in the reference model, and
  the generator has advanced once per byte.
\<close>

theorem fill_in_step:
  assumes "mem_laws mm" and "has_addr (uc_id s) (uc_base s + 0x300)" and "8 \<le> length data"
    and rpc: "\<And>x n v. poke_check e \<Longrightarrow> fst (poke_rpc e x n v)"
  shows "\<exists>s'. uc_helper_write e mm answer (uc_base s + 0x300) len data s = Some (s',
      concat (map (\<lambda>i. [Uc_poke (uc_addr s + of_nat i) 1 (ucast (rand_byte (uc_rng s) i)),
        Uc_store (uc_addr s + of_nat i) (rand_byte (uc_rng s) i)]) [0..<unat (uc_size s)]) @
      [Uc_poke (uc_base s) 1 0xff]) \<and>
    uc_rng s' = (pcg_step ^^ unat (uc_size s)) (uc_rng s) \<and> uc_trigger s' = 1 \<and>
    (\<forall>b. mem_at mm (uc_mem s') b = (if b = uc_base s then 0xff else mem_at mm (uc_mem s) b))"
proof -
  obtain w :: u64 where w: "deserializeInt data = Some w"
    using word_data [OF assms(3)] by blast
  have fill: "uc_fill e (uc_addr s) 0 (unat (uc_size s)) (uc_rng s) = (True, (pcg_step ^^ unat (uc_size s)) (uc_rng s),
    concat (map (\<lambda>i. [Uc_poke (uc_addr s + of_nat i) 1 (ucast (rand_byte (uc_rng s) i)),
      Uc_store (uc_addr s + of_nat i) (rand_byte (uc_rng s) i)]) [0..<unat (uc_size s)]))"
    using uc_fill_result [of e, OF rpc, of "uc_addr s" 0 "unat (uc_size s)" "uc_rng s"] by simp
  have base: "uc_base s + 0x300 \<noteq> uc_base s" "uc_base s + 0x300 \<noteq> uc_base s + c \<longleftrightarrow> c \<noteq> 0x300" for c
    by auto
  show ?thesis
    using assms(1,2) rpc by (auto simp: uc_helper_write_def w base uc_fill_area_def fill Let_def mem_laws_byte)
qed

definition sample_uc :: "(u64 \<Rightarrow> u8) uc_helper" where
  "sample_uc = (uc_helper_new 1 0x9080000 (\<lambda>_. 0))\<lparr> uc_addr := 0x80000000, uc_size := 4 \<rparr>"

theorem fill_in_step_witness:
  "\<exists>s' evs. uc_helper_write \<lparr> poke_check = True, poke_rpc = (\<lambda>_ _ _. (True, True)) \<rparr> fun_mem (\<lambda>_. None) 0x9080300 8
      (replicate 8 0) sample_uc = Some (s', evs) \<and> length evs = 9 \<and> mem_at fun_mem (uc_mem s') 0x9080000 = 0xff"
proof -
  have "has_addr (uc_id sample_uc) (uc_base sample_uc + 0x300)" "uc_base sample_uc = 0x9080000"
    "unat (uc_size sample_uc) = 4"
    by (simp_all add: sample_uc_def uc_helper_new_def has_addr_def)
  moreover have "[0..<4] = [0, 1, 2, 3]"
    by (simp add: upt_rec)
  ultimately show ?thesis
    using fill_in_step [OF fun_mem_laws, of sample_uc "replicate 8 0" "\<lparr> poke_check = True, poke_rpc = (\<lambda>_ _ _. (True, True)) \<rparr>"
        "\<lambda>_. None" 8] by auto
qed

section \<open>The debug request lines\<close>

fun dr_run :: "(u64 \<times> data_t) list \<Rightarrow> debug_req_vld \<Rightarrow> (debug_req_vld \<times> dr_event list) option" where
  "dr_run [] s = Some (s, [])"
| "dr_run ((a, data) # ws) s = do {
     (s, evs) \<leftarrow> debug_req_vld_write a (length data) data s;
     (s, evs') \<leftarrow> dr_run ws s;
     Some (s, evs @ evs')
   }"

text \<open>The lines a listener drives from the requests it hears.\<close>

fun drive_line :: "dr_event \<Rightarrow> (nat \<Rightarrow> bool) \<Rightarrow> nat \<Rightarrow> bool" where
  "drive_line (Debug_request h v) l = l(unat h := v)"
| "drive_line ev l = l"

lemma bit_hart_bit:
  assumes "hart_bit h = Some b"
  shows "bit b j \<longleftrightarrow> j = unat h" and "unat h < 64"
proof -
  show h: "unat h < 64"
    using assms by (simp add: hart_bit_def word_less_nat_alt split: if_splits)
  show "bit b j \<longleftrightarrow> j = unat h"
    using assms h by (auto simp: hart_bit_def shl64_def bit_simps split: if_splits)
qed

lemma dr_write_step:
  assumes "dr_hart_count s \<le> 64" and "8 \<le> length data"
  shows "\<exists>m evs. debug_req_vld_write a n data s = Some (s\<lparr> req_mask := m \<rparr>, evs) \<and>
    bit m = fold drive_line evs (bit (req_mask s)) \<and>
    (\<forall>h v. Debug_request h v \<in> set evs \<longrightarrow> h < ucast (dr_hart_count s))"
proof -
  obtain w :: u64 where w: "deserializeInt data = Some w"
    using word_data [OF assms(2)] by blast
  define h where "h = w AND 0xff"
  show ?thesis
  proof (cases "has_addr (dr_id s) a \<and> (a = assert_addr s \<or> a = deassert_addr s) \<and> h < ucast (dr_hart_count s)")
    case True
    then obtain b where b: "hart_bit h = Some b"
      using hart_in_mask [of h s] assms(1) by auto
    define m where "m = (if a = assert_addr s then req_mask s OR b else req_mask s AND NOT b)"
    have "bit m = (bit (req_mask s))(unat h := (a = assert_addr s))"
    proof
      fix j
      show "bit m j = ((bit (req_mask s))(unat h := (a = assert_addr s))) j"
        using bit_hart_bit(2) [OF b] by (cases "j = unat h")
          (auto simp: m_def bit_or_iff bit_and_iff bit_not_iff bit_hart_bit(1) [OF b] dest: bit_imp_le_length)
    qed
    moreover have "debug_req_vld_write a n data s = Some (s\<lparr> req_mask := m \<rparr>, [Debug_request h (a = assert_addr s)])"
      using True b w by (simp add: debug_req_vld_write_def m_def h_def [symmetric] Let_def not_le)
    ultimately show ?thesis
      using True by (intro exI [of _ m] exI [of _ "[Debug_request h (a = assert_addr s)]"]) simp
  next
    case False
    then have "debug_req_vld_write a n data s = Some (s, []) \<or> debug_req_vld_write a n data s = Some (s, [Dr_unknown a w]) \<or>
      debug_req_vld_write a n data s = Some (s, [Dr_hart_range h])"
      using w by (auto simp: debug_req_vld_write_def h_def [symmetric] Let_def not_le)
    then show ?thesis
      by (intro exI [of _ "req_mask s"]) auto
  qed
qed

lemma dr_run_lines:
  assumes "dr_hart_count s \<le> 64" and "\<forall>(a, data) \<in> set ws. 8 \<le> length data"
  shows "\<exists>m evs. dr_run ws s = Some (s\<lparr> req_mask := m \<rparr>, evs) \<and> bit m = fold drive_line evs (bit (req_mask s)) \<and>
    (\<forall>h v. Debug_request h v \<in> set evs \<longrightarrow> h < ucast (dr_hart_count s))"
  using assms
proof (induction ws arbitrary: s)
  case Nil
  show ?case
    by (rule exI [of _ "req_mask s"]) simp
next
  case (Cons w ws)
  obtain a data where w: "w = (a, data)"
    by fastforce
  from dr_write_step [of s data a "length data"] Cons.prems w obtain m e1 where
    1: "debug_req_vld_write a (length data) data s = Some (s\<lparr> req_mask := m \<rparr>, e1)"
      "bit m = fold drive_line e1 (bit (req_mask s))"
      "\<forall>h v. Debug_request h v \<in> set e1 \<longrightarrow> h < ucast (dr_hart_count s)"
    by auto
  from Cons.IH [of "s\<lparr> req_mask := m \<rparr>"] Cons.prems obtain m' e2 where
    "dr_run ws (s\<lparr> req_mask := m \<rparr>) = Some (s\<lparr> req_mask := m' \<rparr>, e2)" "bit m' = fold drive_line e2 (bit m)"
    "\<forall>h v. Debug_request h v \<in> set e2 \<longrightarrow> h < ucast (dr_hart_count s)"
    by auto
  then show ?case
    using 1 w by (intro exI [of _ m']) auto
qed

text \<open>
  C19: the debug request mask and the requests agree.  After any sequence of bus writes to
  a fresh device for at most 64 harts, the lines a listener drives from the signalled requests are the bits of
  the mask, a bus read of the assert register returns that mask, and no request names a
  hart that does not exist.
\<close>

theorem debug_lines_follow:
  assumes "harts \<le> 64" and "\<forall>(a, data) \<in> set ws. 8 \<le> length data"
  shows "\<exists>s' evs data'. dr_run ws (debug_req_vld_new base harts) = Some (s', evs) \<and>
    (\<forall>h < 64. bit (req_mask s') h = fold drive_line evs (\<lambda>_. False) h) \<and>
    (\<forall>h v. Debug_request h v \<in> set evs \<longrightarrow> h < ucast harts) \<and>
    (base < base + 0x1000 \<longrightarrow> debug_req_vld_read base 8 (replicate 8 0) s' = Some (data', s', []) \<and>
       deserializeInt data' = Some (req_mask s'))"
proof -
  let ?s = "debug_req_vld_new base harts"
  have new: "dr_hart_count ?s = harts" "bit (req_mask ?s) = (\<lambda>_. False)" "dr_id ?s = \<lparr> dv_tag = ''debug_req_vld'', dv_addr = base, dv_size = 0x1000 \<rparr>"
    "assert_addr ?s = base"
    by (simp_all add: debug_req_vld_new_def debug_req_vld_reset_def fun_eq_iff)
  from dr_run_lines [of ?s ws] assms obtain m evs where
    r: "dr_run ws ?s = Some (?s\<lparr> req_mask := m \<rparr>, evs)" "bit m = fold drive_line evs (\<lambda>_. False)"
      "\<forall>h v. Debug_request h v \<in> set evs \<longrightarrow> h < ucast harts"
    by (auto simp: new)
  have "base < base + 0x1000 \<Longrightarrow> debug_req_vld_read base 8 (replicate 8 0) (?s\<lparr> req_mask := m \<rparr>) =
      Some (map (byte_of m) [0..<8], ?s\<lparr> req_mask := m \<rparr>, [])"
    by (simp add: debug_req_vld_read_def new has_addr_def byte_simps)
  moreover have "deserializeInt (map (byte_of m) [0..<8]) = Some m"
    using deserializeInt_bytes [where n = 8 and x = m and ys = "[]"] by simp
  ultimately show ?thesis
    using r by (intro exI [of _ "?s\<lparr> req_mask := m \<rparr>"] exI [of _ evs] exI [of _ "map (byte_of m) [0..<8]"]) simp
qed

theorem debug_lines_follow_witness:
  "\<exists>s' evs. dr_run [(0x9058000, [3, 0, 0, 0, 0, 0, 0, 0]), (0x9058000, [1, 0, 0, 0, 0, 0, 0, 0]),
      (0x9058008, [3, 0, 0, 0, 0, 0, 0, 0])] (debug_req_vld_new 0x9058000 4) = Some (s', evs) \<and>
    (\<forall>h < 64. bit (req_mask s') h = fold drive_line evs (\<lambda>_. False) h)"
  using debug_lines_follow [of 4 "[(0x9058000, [3, 0, 0, 0, 0, 0, 0, 0]), (0x9058000, [1, 0, 0, 0, 0, 0, 0, 0]),
      (0x9058008, [3, 0, 0, 0, 0, 0, 0, 0])]" "0x9058000"] by auto

end
