(* ===== verification/Dma.thy ===== *)
theory Dma
  imports TrickRegs AxiMst
begin

text \<open>
  The direct memory access engine of the trickbox (\<^verbatim>\<open>sysmod/trickbox/dma.cpp\<close>): buffers of
  transactions that a program fills through registers and launches through a status register.
  A launched transaction is a task that sends its request to the manager and waits for
  the response; a forked task runs until its first wait, and \<^verbatim>\<open>dm_tasks\<close> holds the waiting
  ones.  A response wakes the oldest task that waits for its id.
\<close>

section \<open>Model\<close>

record dma_txn =
  dx_addr :: u64
  dx_data :: "u64 list"
  dx_size :: u64
  dx_cmd :: u8
  dx_status :: u8
  dx_virt :: bool
  dx_in_flight :: bool

definition dma_txn_new :: dma_txn where
  "dma_txn_new = \<lparr> dx_addr = 0, dx_data = replicate 8 0, dx_size = 0, dx_cmd = 0, dx_status = 0, dx_virt = False,
     dx_in_flight = False \<rparr>"

datatype dma_task = Write_wait u32 u64 data_t | Read_wait u32 u8

datatype dma_event = Dma_aw a_t | Dma_w w_t | Dma_ar a_t | Dma_poke u64 nat u64 | Dma_error

record dma =
  dm_id :: device_id
  dm_base :: u64
  dm_txns :: "u8 \<rightharpoonup> dma_txn"
  dm_key :: u8
  dm_write_vec :: data_t
  dm_write_strb :: strb_t
  dm_write_addr :: u64
  dm_write_size :: u8
  dm_read_addr :: u64
  dm_read_size :: u8
  dm_num_writes :: u64
  dm_axi_id :: u8
  dm_write_in_flight :: bool
  dm_read_in_flight :: bool
  dm_tasks :: "dma_task list"

text \<open>The constructor does not use its address for the register base, which stays at its default.\<close>

definition dma_new :: "u64 \<Rightarrow> dma" where
  "dma_new addr = \<lparr> dm_id = \<lparr> dv_tag = ''dma'', dv_addr = addr, dv_size = 0x2000 \<rparr>, dm_base = 0x9090000,
     dm_txns = Map.empty, dm_key = 0, dm_write_vec = [], dm_write_strb = [], dm_write_addr = 0, dm_write_size = 0,
     dm_read_addr = 0, dm_read_size = 0, dm_num_writes = 0, dm_axi_id = 0, dm_write_in_flight = False,
     dm_read_in_flight = False, dm_tasks = [] \<rparr>"

definition dma_addr_offset :: u64 where
  "dma_addr_offset = 0"

definition dma_data_offset :: u64 where
  "dma_data_offset = 0x200"

definition dma_size_offset :: u64 where
  "dma_size_offset = 0x1200"

definition dma_cmd_offset :: u64 where
  "dma_cmd_offset = 0x1240"

definition dma_virt_offset :: u64 where
  "dma_virt_offset = 0x1280"

definition dma_status_offset :: u64 where
  "dma_status_offset = 0x12c0"

lemmas dma_offsets = dma_addr_offset_def dma_data_offset_def dma_size_offset_def dma_cmd_offset_def
  dma_virt_offset_def dma_status_offset_def

text \<open>Access to the map inserts a zeroed transaction where there is none.\<close>

definition txn_at :: "u8 \<Rightarrow> dma \<Rightarrow> dma_txn" where
  "txn_at k s = (case dm_txns s k of None \<Rightarrow> dma_txn_new | Some x \<Rightarrow> x)"

definition upd_txn :: "u8 \<Rightarrow> (dma_txn \<Rightarrow> dma_txn) \<Rightarrow> dma \<Rightarrow> dma" where
  "upd_txn k f s = s\<lparr> dm_txns := (dm_txns s)(k \<mapsto> f (txn_at k s)) \<rparr>"

definition can_change :: "u8 \<Rightarrow> dma \<Rightarrow> bool" where
  "can_change k s \<longleftrightarrow> dm_txns s k = None \<or> \<not> dx_in_flight (txn_at k s)"

section \<open>Register reads\<close>

definition reg_read :: "bool \<Rightarrow> u8 \<Rightarrow> (dma_txn \<Rightarrow> u64) \<Rightarrow> nat \<Rightarrow> data_t \<times> dma \<times> dma_event list \<Rightarrow>
    (data_t \<times> dma \<times> dma_event list) option" where
  "reg_read hit k sel len = (\<lambda>(data, s, evs).
     if \<not> hit then Some (data, s, evs)
     else let s = s\<lparr> dm_key := k \<rparr> in
       (case dm_txns s k of
          None \<Rightarrow> Some (data, s, evs @ [Dma_error])
        | Some x \<Rightarrow> do { data \<leftarrow> serializeInt (sel x) len data; Some (data, s, evs) }))"

definition dma_read :: "u64 \<Rightarrow> nat \<Rightarrow> data_t \<Rightarrow> dma \<Rightarrow> (data_t \<times> dma \<times> dma_event list) option" where
  "dma_read addr len data s =
     (if \<not> has_addr (dm_id s) addr then Some (data, s, [])
      else
        let from = (\<lambda>off. dm_base s + off);
            status = reg_read (from dma_status_offset \<le> addr) (ucast (addr - from dma_status_offset)) (\<lambda>x. ucast (dx_status x)) len
        in do {
          x \<leftarrow> status (data, s, []);
          x \<leftarrow> reg_read (from dma_addr_offset \<le> addr \<and> addr < from dma_data_offset)
            (ucast ((addr - from dma_addr_offset) div 8)) dx_addr len x;
          x \<leftarrow> reg_read (from dma_data_offset \<le> addr \<and> addr < from dma_size_offset)
            (ucast ((addr - from dma_data_offset) div 64)) (\<lambda>x. dx_data x ! 0) len x;
          x \<leftarrow> reg_read (from dma_size_offset \<le> addr \<and> addr < from dma_cmd_offset)
            (ucast (addr - from dma_size_offset)) dx_size len x;
          x \<leftarrow> reg_read (from dma_cmd_offset \<le> addr \<and> addr < from dma_virt_offset)
            (ucast (addr - from dma_cmd_offset)) (\<lambda>x. ucast (dx_cmd x)) len x;
          x \<leftarrow> reg_read (from dma_virt_offset \<le> addr \<and> addr < from dma_status_offset)
            (ucast (addr - from dma_virt_offset)) (\<lambda>x. if dx_virt x then 1 else 0) len x;
          status x
        })"

section \<open>Requests\<close>

text \<open>\<^verbatim>\<open>log2\<close> of a byte, truncated; the logarithm of zero does not convert to an integer.\<close>

definition log2_size :: "nat \<Rightarrow> u8 option" where
  "log2_size n = (if n = 0 then None
     else Some (if n < 2 then 0 else if n < 4 then 1 else if n < 8 then 2 else if n < 16 then 3 else if n < 32 then 4
       else if n < 64 then 5 else if n < 128 then 6 else 7))"

definition allow_decerr :: "u64 \<Rightarrow> u8 \<Rightarrow> bool" where
  "allow_decerr addr sz \<longleftrightarrow> addr AND 3 \<noteq> 0 \<or> sz = 0 \<or> sz = 1 \<or> (addr AND 7 = 4 \<and> 3 \<le> sz)"

definition prot_of :: "u64 \<Rightarrow> u8" where
  "prot_of addr = (if bit addr 55 then 0 else 2)"

text \<open>A single beat with fixed burst and all other attributes zero.\<close>

definition one_beat :: "bool \<Rightarrow> u8 \<Rightarrow> u64 \<Rightarrow> u8 \<Rightarrow> u8 \<Rightarrow> u8 \<Rightarrow> a_t" where
  "one_beat w ident addr sz prot user = (a_of_no_id (ucast ident) (a_no_id_new w addr sz))
     \<lparr> a_burst := BURST_FIXED, a_prot := prot, a_atop := atop_decode 0, a_user := user,
       a_allow_decerr_resp := allow_decerr addr sz \<rparr>"

definition dma_blocking_write :: "u64 \<Rightarrow> dma \<Rightarrow> (dma \<times> dma_event list) option" where
  "dma_blocking_write addr s = do {
     sz \<leftarrow> log2_size (unat (dm_write_size s));
     let aw = one_beat True (dm_axi_id s) (dm_write_addr s) sz (prot_of (dm_write_addr s)) 8;
         n = unat (dm_write_size s) in
     if length (dm_write_vec s) < n \<or> length (dm_write_strb s) < n then None
     else Some (s\<lparr> dm_axi_id := dm_axi_id s + 1, dm_write_in_flight := True,
         dm_tasks := dm_tasks s @ [Write_wait (a_id aw) addr (dm_write_vec s)] \<rparr>,
       [Dma_aw aw, Dma_w \<lparr> w_data = take n (dm_write_vec s), w_strb = take n (dm_write_strb s), w_last = True \<rparr>])
   }"

definition dma_overlay_write :: "u64 \<Rightarrow> u8 \<Rightarrow> dma \<Rightarrow> (dma \<times> dma_event list) option" where
  "dma_overlay_write addr k s = do {
     (s, evs) \<leftarrow> dma_blocking_write addr s;
     Some (upd_txn k (\<lambda>x. x\<lparr> dx_in_flight := False, dx_status := 2 \<rparr>) s, evs)
   }"

definition dma_blocking_read :: "u64 \<Rightarrow> u8 \<Rightarrow> dma \<Rightarrow> (dma \<times> dma_event list) option" where
  "dma_blocking_read addr k s = do {
     sz \<leftarrow> log2_size (unat (dm_read_size s));
     let ar = one_beat False (dm_axi_id s) addr sz 2 0 in
     Some (s\<lparr> dm_axi_id := dm_axi_id s + 1, dm_read_in_flight := True,
         dm_tasks := dm_tasks s @ [Read_wait (a_id ar) k] \<rparr>, [Dma_ar ar])
   }"

text \<open>The first part of \<^verbatim>\<open>overlay_read\<close>, up to the wait for the response.\<close>

definition dma_overlay_read :: "u64 \<Rightarrow> u8 \<Rightarrow> dma \<Rightarrow> (dma \<times> dma_event list) option" where
  "dma_overlay_read addr k s =
     dma_blocking_read addr k (s\<lparr> dm_read_addr := addr, dm_key := k, dm_read_size := ucast (dx_size (txn_at k s)) \<rparr>)"

section \<open>Register writes\<close>

fun push_word :: "u64 \<Rightarrow> nat \<Rightarrow> data_t" where
  "push_word v 0 = []"
| "push_word v (Suc k) = ucast (v AND 0xff) # push_word (drop_bit 8 v) k"

fun push_words :: "u64 list \<Rightarrow> nat \<Rightarrow> data_t" where
  "push_words d 0 = []"
| "push_words d (Suc b) = push_word (d ! b) 8 @ push_words d b"

definition dma_payload :: "u64 \<Rightarrow> u64 list \<Rightarrow> data_t option" where
  "dma_payload sz d =
     (if sz = 1 then Some [ucast (d ! 0)]
      else if sz = 2 then Some (push_word (d ! 0) 2)
      else if sz = 4 then Some (push_word (d ! 0) 4)
      else if sz = 8 then Some (push_word (d ! 0) 8)
      else if sz = 16 then Some (push_words d 2)
      else if sz = 32 then Some (push_words d 4)
      else if sz = 64 then Some (push_words d 8)
      else None)"

definition launch_read :: "dma \<Rightarrow> (dma \<times> dma_event list) option" where
  "launch_read s =
     (let k = dm_key s; x = txn_at k s;
          s = upd_txn k (\<lambda>x. x\<lparr> dx_in_flight := True \<rparr>) (s\<lparr> dm_read_addr := dx_addr x, dm_read_size := ucast (dx_size x) \<rparr>)
      in dma_overlay_read (dm_read_addr s) k s)"

definition launch_write :: "dma \<Rightarrow> (dma \<times> dma_event list) option" where
  "launch_write s =
     (let k = dm_key s; x = txn_at k s; s = s\<lparr> dm_write_vec := [], dm_write_strb := [] \<rparr> in
      case dma_payload (dx_size x) (dx_data x) of
        None \<Rightarrow> Some (s, [Dma_error])
      | Some bytes \<Rightarrow>
          dma_overlay_write (dx_addr x) k (upd_txn k (\<lambda>x. x\<lparr> dx_in_flight := True \<rparr>)
            (s\<lparr> dm_write_vec := bytes, dm_write_strb := replicate (length bytes) True,
               dm_write_addr := dx_addr x, dm_write_size := ucast (dx_size x) \<rparr>)))"

definition launch :: "dma \<Rightarrow> (dma \<times> dma_event list) option" where
  "launch s =
     (if dx_status (txn_at (dm_key s) s) \<noteq> 1 then Some (s, [])
      else
        let s = upd_txn (dm_key s) (\<lambda>x. x\<lparr> dx_in_flight := True \<rparr>) s; cmd = dx_cmd (txn_at (dm_key s) s) in
        if cmd = 1 then launch_read s else if cmd = 2 then launch_write s else Some (s, []))"

definition change_txn :: "u8 \<Rightarrow> (dma_txn \<Rightarrow> dma_txn) \<Rightarrow> dma \<Rightarrow> dma \<times> dma_event list" where
  "change_txn k f s =
     (let s = s\<lparr> dm_key := k \<rparr> in if can_change k s then (upd_txn k f s, []) else (s, [Dma_error]))"

text \<open>The index of a data word is not reduced to its buffer; past the eighth word it is outside the array.\<close>

definition write_data_word :: "u64 \<Rightarrow> u64 \<Rightarrow> dma \<Rightarrow> (dma \<times> dma_event list) option" where
  "write_data_word off v s =
     (let k = ucast (off div 64); s = s\<lparr> dm_key := k \<rparr>; i = unat (ucast (off div 8) :: u8) in
      if \<not> can_change k s then Some (s, [Dma_error])
      else if 8 \<le> i then None
      else Some (upd_txn k (\<lambda>x. x\<lparr> dx_data := (dx_data x)[i := v] \<rparr>) s, []))"

definition write_cmd :: "u8 \<Rightarrow> u64 \<Rightarrow> dma \<Rightarrow> dma \<times> dma_event list" where
  "write_cmd k v s =
     (let s = s\<lparr> dm_key := k \<rparr> in
      if \<not> can_change k s then (s, [Dma_error])
      else if v = 1 then (upd_txn k (\<lambda>x. x\<lparr> dx_cmd := 1 \<rparr>) s, [])
      else if v = 2 then (upd_txn k (\<lambda>x. x\<lparr> dx_cmd := 2 \<rparr>) s, [])
      else (s, [Dma_error]))"

definition write_status :: "u64 \<Rightarrow> u64 \<Rightarrow> dma \<Rightarrow> (dma \<times> dma_event list) option" where
  "write_status off v s =
     (if 64 < off then Some (s, [Dma_error])
      else let (s, e) = change_txn (ucast off) (\<lambda>x. x\<lparr> dx_status := ucast v \<rparr>) s in do {
        (s, evs) \<leftarrow> launch s;
        Some (s, e @ evs)
      })"

definition dma_write :: "poke_env \<Rightarrow> u64 \<Rightarrow> nat \<Rightarrow> data_t \<Rightarrow> dma \<Rightarrow> (dma \<times> dma_event list) option" where
  "dma_write e addr len data s =
     (if \<not> has_addr (dm_id s) addr then Some (s, [])
      else do {
        t_data \<leftarrow> deserializeInt data;
        if poke_failed e addr 8 t_data then Some (s, [Dma_poke addr 8 t_data, Dma_error])
        else
          let from = (\<lambda>off. dm_base s + off); within = (\<lambda>lo hi. from lo \<le> addr \<and> addr < from hi); off = (\<lambda>lo. addr - from lo) in do {
          (s, evs) \<leftarrow>
            (if within dma_addr_offset dma_data_offset then
               Some (if off dma_addr_offset mod 8 \<noteq> 0
                 then (s\<lparr> dm_key := ucast (off dma_addr_offset div 8) \<rparr>, [Dma_error])
                 else change_txn (ucast (off dma_addr_offset div 8)) (\<lambda>x. x\<lparr> dx_addr := t_data \<rparr>) s)
             else if within dma_data_offset dma_size_offset then write_data_word (off dma_data_offset) t_data s
             else if within dma_size_offset dma_cmd_offset then
               Some (change_txn (ucast (off dma_size_offset)) (\<lambda>x. x\<lparr> dx_size := t_data \<rparr>) s)
             else if within dma_cmd_offset dma_virt_offset then Some (write_cmd (ucast (off dma_cmd_offset)) t_data s)
             else if within dma_virt_offset dma_status_offset then
               Some (change_txn (ucast (off dma_virt_offset)) (\<lambda>x. x\<lparr> dx_virt := (t_data = 1) \<rparr>) s)
             else if from dma_status_offset \<le> addr then write_status (off dma_status_offset) t_data s
             else Some (s, []));
          Some (s, Dma_poke addr 8 t_data # evs)
        }
      })"

section \<open>Responses\<close>

fun wake_write :: "u32 \<Rightarrow> dma_task list \<Rightarrow> ((u64 \<times> data_t) \<times> dma_task list) option" where
  "wake_write i [] = None"
| "wake_write i (Write_wait j addr vec # ts) =
     (if i = j then Some ((addr, vec), ts) else map_option (map_prod id ((#) (Write_wait j addr vec))) (wake_write i ts))"
| "wake_write i (q # ts) = map_option (map_prod id ((#) q)) (wake_write i ts)"

fun wake_read :: "u32 \<Rightarrow> dma_task list \<Rightarrow> (u8 \<times> dma_task list) option" where
  "wake_read i [] = None"
| "wake_read i (Read_wait j k # ts) =
     (if i = j then Some (k, ts) else map_option (map_prod id ((#) (Read_wait j k))) (wake_read i ts))"
| "wake_read i (q # ts) = map_option (map_prod id ((#) q)) (wake_read i ts)"

fun poke_bytes :: "poke_env \<Rightarrow> u64 \<Rightarrow> data_t \<Rightarrow> nat \<Rightarrow> nat \<Rightarrow> (bool \<times> dma_event list) option" where
  "poke_bytes e addr vec i 0 = Some (True, [])"
| "poke_bytes e addr vec i (Suc k) = do {
     b \<leftarrow> vec_get vec i;
     let a = addr + of_nat i in
     if poke_failed e a 1 (ucast b) then Some (False, [Dma_poke a 1 (ucast b), Dma_error])
     else do {
       (ok, evs) \<leftarrow> poke_bytes e addr vec (Suc i) k;
       Some (ok, Dma_poke a 1 (ucast b) # evs)
     }
   }"

text \<open>The rest of \<^verbatim>\<open>blocking_write\<close>: the size is the one of the write launched last.\<close>

definition dma_b :: "poke_env \<Rightarrow> b_t \<Rightarrow> dma \<Rightarrow> (dma \<times> dma_event list) option" where
  "dma_b e b s = (case wake_write (b_id b) (dm_tasks s) of
     None \<Rightarrow> Some (s, [])
   | Some ((addr, vec), ts) \<Rightarrow>
       let s = s\<lparr> dm_tasks := ts, dm_write_in_flight := False, dm_write_vec := [], dm_write_strb := [] \<rparr> in do {
       (ok, evs) \<leftarrow> poke_bytes e addr vec 0 (unat (dm_write_size s));
       Some (if ok then s\<lparr> dm_num_writes := dm_num_writes s + 1 \<rparr> else s, evs)
     })"

definition read_le :: "data_t \<Rightarrow> nat \<Rightarrow> nat \<Rightarrow> u64 option" where
  "read_le d off n = deserialize_loop (drop off d) 0 n 0"

definition read_be :: "data_t \<Rightarrow> nat \<Rightarrow> u64 option" where
  "read_be d off = deserialize_loop (rev (take 8 (drop off d))) 0 8 0"

definition poke_reg :: "poke_env \<Rightarrow> u64 \<Rightarrow> u64 \<Rightarrow> bool \<times> dma_event list" where
  "poke_reg e a v = (if poke_failed e a 8 v then (False, [Dma_poke a 8 v, Dma_error]) else (True, [Dma_poke a 8 v]))"

fun scatter_words :: "poke_env \<Rightarrow> u64 \<Rightarrow> data_t \<Rightarrow> nat \<Rightarrow> nat \<Rightarrow> dma_txn \<Rightarrow> (bool \<times> dma_txn \<times> dma_event list) option" where
  "scatter_words e a d off 0 x = Some (True, x, [])"
| "scatter_words e a d off (Suc b) x = do {
     v \<leftarrow> read_be d (off + b * 8);
     let x = x\<lparr> dx_data := (dx_data x)[b := v] \<rparr>; (ok, evs) = poke_reg e (a + of_nat (b * 8)) v in
     if \<not> ok then Some (False, x, evs)
     else do {
       (ok, x, evs') \<leftarrow> scatter_words e a d off b x;
       Some (ok, x, evs @ evs')
     }
   }"

text \<open>What \<^verbatim>\<open>handle_dma_read_request\<close> does with the response, by the size of the transaction.\<close>

definition scatter :: "poke_env \<Rightarrow> u64 \<Rightarrow> data_t \<Rightarrow> nat \<Rightarrow> dma_txn \<Rightarrow> (bool \<times> dma_txn \<times> dma_event list) option" where
  "scatter e a d off x =
     (let word = (\<lambda>n. do {
            v \<leftarrow> read_le d off n;
            let (ok, evs) = poke_reg e a v in
            Some (ok, if n = 4 \<and> \<not> ok then x else x\<lparr> dx_data := (dx_data x)[0 := v] \<rparr>, evs)
          });
          size = dx_size x in
      if size = 1 then do {
        b \<leftarrow> vec_get d off;
        let (ok, evs) = poke_reg e a 0 in
        Some (ok, x\<lparr> dx_data := (dx_data x)[0 := ucast b] \<rparr>, evs)
      }
      else if size = 2 then word 2 else if size = 4 then word 4 else if size = 8 then word 8
      else if size = 16 then scatter_words e a d off 2 x
      else if size = 32 then scatter_words e a d off 4 x
      else if size = 64 then scatter_words e a d off 8 x
      else Some (False, x, [Dma_error]))"

definition dma_r :: "poke_env \<Rightarrow> r_t \<Rightarrow> dma \<Rightarrow> (dma \<times> dma_event list) option" where
  "dma_r e r s = (case wake_read (r_id r) (dm_tasks s) of
     None \<Rightarrow> Some (s, [])
   | Some (k, ts) \<Rightarrow>
       let s = upd_txn k (\<lambda>x. x\<lparr> dx_in_flight := False, dx_status := 2 \<rparr>) (s\<lparr> dm_tasks := ts, dm_read_in_flight := False \<rparr>) in do {
       (ok, x, evs) \<leftarrow> scatter e (dm_base s + dma_addr_offset + ucast k * 8) (r_data r)
         (unat (dm_read_addr s AND 0x3f)) (txn_at k s);
       Some (upd_txn k (\<lambda>_. if ok then x\<lparr> dx_in_flight := False, dx_status := 2 \<rparr> else x) s, evs)
     })"

section \<open>The engine is a block\<close>

definition dma_inv :: "dma \<Rightarrow> bool" where
  "dma_inv s \<longleftrightarrow> (\<forall>k x. dm_txns s k = Some x \<longrightarrow> length (dx_data x) = 8)"

definition dma_accepts :: "u64 \<Rightarrow> data_t \<Rightarrow> dma \<Rightarrow> bool" where
  "dma_accepts a data s \<longleftrightarrow>
     (dm_base s + dma_data_offset \<le> a \<and> a < dm_base s + dma_size_offset \<longrightarrow>
        unat (ucast ((a - (dm_base s + dma_data_offset)) div 8) :: u8) < 8) \<and>
     (dm_base s + dma_status_offset \<le> a \<longrightarrow>
        ucast (dx_size (txn_at (ucast (a - (dm_base s + dma_status_offset))) s)) \<noteq> (0 :: u8))"

lemma txn_at_upd [simp]: "txn_at j (upd_txn k f s) = (if j = k then f (txn_at k s) else txn_at j s)"
  by (simp add: txn_at_def upd_txn_def)

lemma txn_at_keeps [simp]:
  "txn_at k (s\<lparr> dm_key := j \<rparr>) = txn_at k s" "txn_at k (s\<lparr> dm_tasks := ts \<rparr>) = txn_at k s"
  "txn_at k (s\<lparr> dm_write_vec := v \<rparr>) = txn_at k s" "txn_at k (s\<lparr> dm_write_strb := st \<rparr>) = txn_at k s"
  "txn_at k (s\<lparr> dm_write_addr := a \<rparr>) = txn_at k s" "txn_at k (s\<lparr> dm_write_size := z \<rparr>) = txn_at k s"
  "txn_at k (s\<lparr> dm_read_addr := a \<rparr>) = txn_at k s" "txn_at k (s\<lparr> dm_read_size := z \<rparr>) = txn_at k s"
  "txn_at k (s\<lparr> dm_axi_id := i \<rparr>) = txn_at k s" "txn_at k (s\<lparr> dm_num_writes := n \<rparr>) = txn_at k s"
  "txn_at k (s\<lparr> dm_write_in_flight := b \<rparr>) = txn_at k s" "txn_at k (s\<lparr> dm_read_in_flight := b \<rparr>) = txn_at k s"
  by (simp_all add: txn_at_def)

lemma upd_txn_keeps [simp]:
  "dm_id (upd_txn k f s) = dm_id s" "dm_base (upd_txn k f s) = dm_base s" "dm_key (upd_txn k f s) = dm_key s"
  "dm_tasks (upd_txn k f s) = dm_tasks s" "dm_axi_id (upd_txn k f s) = dm_axi_id s"
  "dm_write_vec (upd_txn k f s) = dm_write_vec s" "dm_write_strb (upd_txn k f s) = dm_write_strb s"
  "dm_write_size (upd_txn k f s) = dm_write_size s" "dm_write_addr (upd_txn k f s) = dm_write_addr s"
  "dm_read_size (upd_txn k f s) = dm_read_size s" "dm_read_addr (upd_txn k f s) = dm_read_addr s"
  by (simp_all add: upd_txn_def)

lemma txn_at_cong: "dm_txns s' = dm_txns s \<Longrightarrow> txn_at k s' = txn_at k s"
  by (simp add: txn_at_def)

lemma dma_inv_txn: "dma_inv s \<Longrightarrow> length (dx_data (txn_at k s)) = 8"
  by (auto simp: dma_inv_def txn_at_def dma_txn_new_def split: option.split)

lemma dma_inv_upd: "dma_inv s \<Longrightarrow> (\<And>x. length (dx_data x) = 8 \<Longrightarrow> length (dx_data (f x)) = 8) \<Longrightarrow> dma_inv (upd_txn k f s)"
  using dma_inv_txn [of s k] by (auto simp: dma_inv_def upd_txn_def split: if_splits)

lemma push_word_bytes: "push_word v n = map (byte_of v) [0..<n]"
proof (induction n arbitrary: v)
  case (Suc n)
  have m: "(0xff :: u64) = mask 8"
    by (simp add: mask_eq_exp_minus_1)
  have "ucast (v AND 0xff) = byte_of v 0"
    unfolding m by (auto intro!: bit_word_eqI simp: byte_of_def bit_simps)
  moreover have "byte_of (drop_bit 8 v) i = byte_of v (Suc i)" for i
    by (simp add: byte_of_def add.commute)
  moreover have "[0..<Suc n] = 0 # map Suc [0..<n]"
    by (simp add: map_Suc_upt upt_conv_Cons del: upt_Suc)
  ultimately show ?case
    by (simp add: Suc.IH comp_def del: upt_Suc)
qed simp

lemma length_push_words [simp]: "length (push_words d b) = 8 * b"
  by (induction b) (simp_all add: push_word_bytes)

lemma payload_length: "dma_payload n d = Some bytes \<Longrightarrow> length bytes = unat n \<and> 0 < unat n \<and> unat n \<le> 64"
  by (auto simp: dma_payload_def push_word_bytes split: if_splits)

definition dma_frame :: "dma \<Rightarrow> dma \<Rightarrow> bool" where
  "dma_frame s s' \<longleftrightarrow> dm_id s' = dm_id s \<and> dm_base s' = dm_base s \<and> (dma_inv s \<longrightarrow> dma_inv s')"

lemma dma_frame_trans: "dma_frame s s' \<Longrightarrow> dma_frame s' s'' \<Longrightarrow> dma_frame s s''"
  by (simp add: dma_frame_def)

lemma dma_frame_upd: "dma_frame s s' \<Longrightarrow> (\<And>x. length (dx_data x) = 8 \<Longrightarrow> length (dx_data (f x)) = 8) \<Longrightarrow>
    dma_frame s (upd_txn k f s')"
  unfolding dma_frame_def by (metis dma_inv_upd upd_txn_keeps(1,2))

lemma dma_frame_cong: "dm_id s' = dm_id s \<Longrightarrow> dm_base s' = dm_base s \<Longrightarrow> dm_txns s' = dm_txns s \<Longrightarrow> dma_frame s s'"
  by (simp add: dma_frame_def dma_inv_def)

lemma log2_size_Some: "0 < n \<Longrightarrow> \<exists>z. log2_size n = Some z"
  unfolding log2_size_def by (simp split del: if_split)

lemma one_beat_fields [simp]: "a_id (one_beat w i a z p u) = ucast i" "a_addr (one_beat w i a z p u) = a"
    "a_w (one_beat w i a z p u) = w" "a_size (one_beat w i a z p u) = z"
  by (simp_all add: one_beat_def a_of_no_id_def a_no_id_new_def a_base.defs a_t.defs)

lemma unat_to_byte: "unat n \<le> 255 \<Longrightarrow> unat (ucast (n :: u64) :: u8) = unat n"
  by (simp add: unsigned_ucast_eq take_bit_nat_eq_self)

lemma launch_write_result:
  assumes x: "x = txn_at (dm_key s) s" and pay: "dma_payload (dx_size x) (dx_data x) = Some bytes"
  shows "\<exists>s' aw. launch_write s = Some (s', [Dma_aw aw, Dma_w \<lparr> w_data = bytes, w_strb = replicate (length bytes) True, w_last = True \<rparr>]) \<and>
    a_id aw = ucast (dm_axi_id s) \<and> a_addr aw = dx_addr x \<and> dm_axi_id s' = dm_axi_id s + 1 \<and>
    dm_tasks s' = dm_tasks s @ [Write_wait (ucast (dm_axi_id s)) (dx_addr x) bytes] \<and> dm_write_size s' = ucast (dx_size x) \<and>
    dm_txns s' = (dm_txns s)(dm_key s \<mapsto> x\<lparr> dx_in_flight := False, dx_status := 2 \<rparr>) \<and> dm_id s' = dm_id s \<and> dm_base s' = dm_base s"
proof -
  have n: "length bytes = unat (dx_size x)" "0 < unat (dx_size x)" "unat (dx_size x) \<le> 64"
    using payload_length [OF pay] by simp_all
  obtain z where "log2_size (unat (dx_size x)) = Some z"
    using log2_size_Some n(2) by blast
  then show ?thesis
    using pay n unat_to_byte [of "dx_size x"]
    by (simp add: launch_write_def Let_def x [symmetric] dma_overlay_write_def dma_blocking_write_def)
      (simp add: upd_txn_def x txn_at_def)
qed

lemma launch_read_result:
  assumes x: "x = txn_at (dm_key s) s" and "ucast (dx_size x) \<noteq> (0 :: u8)"
  shows "\<exists>s' ar. launch_read s = Some (s', [Dma_ar ar]) \<and> a_id ar = ucast (dm_axi_id s) \<and> a_addr ar = dx_addr x \<and>
    dm_axi_id s' = dm_axi_id s + 1 \<and> dm_tasks s' = dm_tasks s @ [Read_wait (ucast (dm_axi_id s)) (dm_key s)] \<and>
    dm_read_addr s' = dx_addr x \<and> dm_txns s' = (dm_txns s)(dm_key s \<mapsto> x\<lparr> dx_in_flight := True \<rparr>) \<and>
    dm_id s' = dm_id s \<and> dm_base s' = dm_base s"
proof -
  have "0 < unat (ucast (dx_size x) :: u8)"
    using assms(2) by (simp add: unat_gt_0)
  then obtain z where "log2_size (unat (ucast (dx_size x) :: u8)) = Some z"
    using log2_size_Some by blast
  then show ?thesis
    by (simp add: launch_read_def Let_def x [symmetric] dma_overlay_read_def dma_blocking_read_def)
      (simp add: upd_txn_def x txn_at_def)
qed

lemma dma_frame_txns:
  assumes "dm_id s' = dm_id s" "dm_base s' = dm_base s" and "dm_txns s' = (dm_txns s)(k \<mapsto> x)"
    and "dma_inv s \<Longrightarrow> length (dx_data x) = 8"
  shows "dma_frame s s'"
  using assms by (auto simp: dma_frame_def dma_inv_def split: if_splits)

lemma launch_write_ok: "\<exists>s' evs. launch_write s = Some (s', evs) \<and> dma_frame s s'"
proof (cases "dma_payload (dx_size (txn_at (dm_key s) s)) (dx_data (txn_at (dm_key s) s))")
  case None
  then show ?thesis
    by (simp add: launch_write_def Let_def dma_frame_cong)
next
  case (Some bytes)
  from launch_write_result [OF refl this] obtain s' evs where "launch_write s = Some (s', evs)"
    "dm_txns s' = (dm_txns s)(dm_key s \<mapsto> (txn_at (dm_key s) s)\<lparr> dx_in_flight := False, dx_status := 2 \<rparr>)"
    "dm_id s' = dm_id s" "dm_base s' = dm_base s"
    by blast
  then show ?thesis
    using dma_frame_txns [of s' s] dma_inv_txn [of s "dm_key s"] by fastforce
qed

lemma launch_read_ok:
  assumes "ucast (dx_size (txn_at (dm_key s) s)) \<noteq> (0 :: u8)"
  shows "\<exists>s' evs. launch_read s = Some (s', evs) \<and> dma_frame s s'"
  using launch_read_result [OF refl assms] dma_frame_txns [of _ s] dma_inv_txn [of s "dm_key s"] by fastforce

lemma launch_ok:
  assumes "ucast (dx_size (txn_at (dm_key s) s)) \<noteq> (0 :: u8)"
  shows "\<exists>s' evs. launch s = Some (s', evs) \<and> dma_frame s s'"
proof -
  let ?s = "upd_txn (dm_key s) (\<lambda>x. x\<lparr> dx_in_flight := True \<rparr>) s"
  have f: "dma_frame s ?s"
    by (rule dma_frame_upd) (simp_all add: dma_frame_def)
  have "\<exists>s' evs. launch_read ?s = Some (s', evs) \<and> dma_frame ?s s'"
    using assms by (intro launch_read_ok) simp
  then show ?thesis
    using f launch_write_ok [of ?s] dma_frame_trans [OF f] by (fastforce simp: launch_def Let_def dma_frame_def)
qed

lemma change_txn_frame:
  assumes "\<And>x. length (dx_data x) = 8 \<Longrightarrow> length (dx_data (f x)) = 8"
  shows "dma_frame s (fst (change_txn k f s))"
proof -
  have "dma_frame s (s\<lparr> dm_key := k \<rparr>)"
    by (rule dma_frame_cong) simp_all
  then show ?thesis
    using dma_frame_upd [OF _ assms] by (simp add: change_txn_def Let_def)
qed

lemma write_cmd_frame: "dma_frame s (fst (write_cmd k v s))"
proof -
  have "dma_frame s (s\<lparr> dm_key := k \<rparr>)"
    by (rule dma_frame_cong) simp_all
  then show ?thesis
    by (simp add: write_cmd_def Let_def dma_frame_upd)
qed

lemma write_data_word_ok:
  assumes "unat (ucast (off div 8) :: u8) < 8"
  shows "\<exists>s' evs. write_data_word off v s = Some (s', evs) \<and> dma_frame s s'"
proof -
  have "dma_frame s (s\<lparr> dm_key := ucast (off div 64) \<rparr>)"
    by (rule dma_frame_cong) simp_all
  then show ?thesis
    using assms by (simp add: write_data_word_def Let_def dma_frame_upd)
qed

lemma write_status_ok:
  assumes "ucast (dx_size (txn_at (ucast off) s)) \<noteq> (0 :: u8)"
  shows "\<exists>s' evs. write_status off v s = Some (s', evs) \<and> dma_frame s s'"
proof (cases "64 < off")
  case False
  obtain s1 e where c: "change_txn (ucast off) (\<lambda>x. x\<lparr> dx_status := ucast v \<rparr>) s = (s1, e)"
    by fastforce
  have "dm_key s1 = ucast off" "dx_size (txn_at (ucast off) s1) = dx_size (txn_at (ucast off) s)"
    using c by (auto simp: change_txn_def Let_def split: if_splits)
  then obtain s2 evs where "launch s1 = Some (s2, evs)" "dma_frame s1 s2"
    using launch_ok [of s1] assms by auto
  moreover have "dma_frame s s1"
    using change_txn_frame [of "\<lambda>x. x\<lparr> dx_status := ucast v \<rparr>" s "ucast off"] c by simp
  ultimately show ?thesis
    using False c dma_frame_trans by (auto simp: write_status_def)
qed (simp add: write_status_def dma_frame_def)

lemma dma_write_ok:
  assumes "8 \<le> length data" and acc: "dma_accepts a data s"
  shows "\<exists>s' evs. dma_write e a n data s = Some (s', evs) \<and> dma_frame s s'"
proof -
  obtain w :: u64 where w: "deserializeInt data = Some w"
    using word_data [OF assms(1)] by blast
  have key: "dma_frame s (s\<lparr> dm_key := k \<rparr>)" for k
    by (rule dma_frame_cong) simp_all
  let ?st = "a - (dm_base s + dma_status_offset)" and ?dw = "a - (dm_base s + dma_data_offset)"
  have c: "dma_frame s (fst (change_txn k (\<lambda>x. x\<lparr> dx_addr := w \<rparr>) s))" "dma_frame s (fst (change_txn k (\<lambda>x. x\<lparr> dx_size := w \<rparr>) s))"
    "dma_frame s (fst (change_txn k (\<lambda>x. x\<lparr> dx_virt := (w = 1) \<rparr>) s))" for k
    by (rule change_txn_frame, simp)+
  have st: "dm_base s + dma_status_offset \<le> a \<Longrightarrow> \<exists>s' evs. write_status ?st w s = Some (s', evs) \<and> dma_frame s s'"
    using write_status_ok [of ?st s w] acc by (simp add: dma_accepts_def)
  have dw: "dm_base s + dma_data_offset \<le> a \<and> a < dm_base s + dma_size_offset \<Longrightarrow>
      \<exists>s' evs. write_data_word ?dw w s = Some (s', evs) \<and> dma_frame s s'"
    using write_data_word_ok [of ?dw w s] acc by (simp add: dma_accepts_def)
  have refl: "dma_frame s s"
    by (simp add: dma_frame_def)
  note parts = key c st dw refl write_cmd_frame [of s]
  show ?thesis
    using parts by (auto simp: dma_write_def w Let_def case_prod_beta split: if_splits)
qed

lemma reg_read_ok:
  assumes "length data = n"
  shows "\<exists>data' s' evs'. reg_read hit k sel n (data, s, evs) = Some (data', s', evs') \<and> length data' = n \<and>
    dm_id s' = dm_id s \<and> dm_base s' = dm_base s \<and> dm_txns s' = dm_txns s"
  using assms by (auto simp: reg_read_def Let_def byte_simps split: option.split)

definition read_keeps :: "nat \<Rightarrow> dma \<Rightarrow> data_t \<times> dma \<times> dma_event list \<Rightarrow> bool" where
  "read_keeps n s x \<longleftrightarrow> length (fst x) = n \<and> dm_id (fst (snd x)) = dm_id s \<and> dm_base (fst (snd x)) = dm_base s \<and>
     dm_txns (fst (snd x)) = dm_txns s"

lemma reg_read_keeps: "read_keeps n s x \<Longrightarrow> \<exists>y. reg_read hit k sel n x = Some y \<and> read_keeps n s y"
  using reg_read_ok [of "fst x" n hit k sel "fst (snd x)" "snd (snd x)"] by (auto simp: read_keeps_def)

lemma bind_keeps:
  "\<exists>y. a = Some y \<and> P y \<Longrightarrow> (\<And>y. P y \<Longrightarrow> \<exists>z. f y = Some z \<and> P z) \<Longrightarrow> \<exists>z. Option.bind a f = Some z \<and> P z"
  by auto

lemma dma_read_ok:
  assumes "length data = n"
  shows "\<exists>x. dma_read a n data s = Some x \<and> read_keeps n s x"
proof (cases "has_addr (dm_id s) a")
  case True
  have start: "read_keeps n s (data, s, [])"
    using assms by (simp add: read_keeps_def)
  have hit: "\<not> \<not> has_addr (dm_id s) a"
    using True by simp
  show ?thesis
    unfolding dma_read_def Let_def if_not_P [OF hit]
    by (intro bind_keeps reg_read_keeps start; assumption)
qed (simp add: dma_read_def assms read_keeps_def)

interpretation dma_block: trick_block "\<lambda>s. has_addr (dm_id s)" dma_inv "\<lambda>_ _. True" dma_accepts dma_read "dma_write e" for e
proof
  show "\<exists>data' s' evs. dma_read a n data s = Some (data', s', evs) \<and> length data' = n \<and> dma_inv s' \<and>
      has_addr (dm_id s') = has_addr (dm_id s)" if "dma_inv s" "length data = n" for s a n data
    using dma_read_ok [OF that(2), of a s] that(1) by (auto simp: read_keeps_def dma_inv_def)
  show "\<exists>s' evs. dma_write e a n data s = Some (s', evs) \<and> dma_inv s' \<and> has_addr (dm_id s') = has_addr (dm_id s)"
    if "dma_inv s" "8 \<le> length data" "dma_accepts a data s" for s a n data
    using dma_write_ok [OF that(2,3), of e n] that(1) by (auto simp: dma_frame_def)
qed (simp_all add: dma_read_def dma_write_def)

section \<open>A copy through memory\<close>

lemma deserialize_prefix:
  assumes "n \<le> length d" and "n \<le> 8"
  shows "\<exists>v :: u64. deserialize_loop d 0 n 0 = Some v \<and> (\<forall>i. byte_of v i = (if i < n then d ! i else 0))"
proof -
  from bit_deserialize_loop [of 0 n d "0 :: u64"] assms obtain v :: u64 where
    v: "deserialize_loop d 0 n 0 = Some v" "\<And>j. bit v j = (j < 8 * n \<and> j < 64 \<and> bit (d ! (j div 8)) (j mod 8))"
    by auto
  have "byte_of v i = (if i < n then d ! i else 0)" for i
    using assms(2) by (intro bit_word_eqI) (auto simp: bit_byte_of v(2))
  with v(1) show ?thesis
    by blast
qed

lemma read_le_bytes:
  "off + n \<le> length d \<Longrightarrow> n \<le> 8 \<Longrightarrow>
   \<exists>v. read_le d off n = Some v \<and> (\<forall>i. byte_of v i = (if i < n then d ! (off + i) else 0))"
  using deserialize_prefix [of n "drop off d"] by (fastforce simp: read_le_def)

lemma read_be_bytes:
  "off + 8 \<le> length d \<Longrightarrow> \<exists>v. read_be d off = Some v \<and> (\<forall>i < 8. byte_of v i = d ! (off + (7 - i)))"
  using deserialize_prefix [of 8 "rev (take 8 (drop off d))"] by (auto simp: read_be_def rev_nth)

lemma push_words_nth: "b < n \<Longrightarrow> i < 8 \<Longrightarrow> push_words d n ! ((n - 1 - b) * 8 + i) = byte_of (d ! b) i"
proof (induction n)
  case (Suc n)
  show ?case
  proof (cases "b = n")
    case False
    then have "(Suc n - 1 - b) * 8 + i = 8 + ((n - 1 - b) * 8 + i)"
      using Suc.prems by (simp add: algebra_simps)
    then show ?thesis
      using Suc False by (simp add: push_word_bytes nth_append)
  qed (use Suc.prems in \<open>simp add: push_word_bytes nth_append\<close>)
qed simp

lemma scatter_words_result:
  assumes "\<And>a n v. \<not> poke_failed e a n v" and "off + B * 8 \<le> length d" and "B \<le> length (dx_data x)"
  shows "\<exists>w evs. scatter_words e a d off B x = Some (True, x\<lparr> dx_data := w \<rparr>, evs) \<and> length w = length (dx_data x) \<and>
    (\<forall>b < B. \<forall>i < 8. byte_of (w ! b) i = d ! (off + b * 8 + (7 - i))) \<and> (\<forall>b. B \<le> b \<longrightarrow> w ! b = dx_data x ! b)"
  using assms(2,3)
proof (induction B arbitrary: x)
  case 0
  show ?case
    by (rule exI [of _ "dx_data x"]) simp
next
  case (Suc B)
  from read_be_bytes [of "off + B * 8" d] Suc.prems obtain v where
    v: "read_be d (off + B * 8) = Some v" "\<And>i. i < 8 \<Longrightarrow> byte_of v i = d ! (off + B * 8 + (7 - i))"
    by auto
  let ?x = "x\<lparr> dx_data := (dx_data x)[B := v] \<rparr>"
  from Suc.IH [of ?x] Suc.prems obtain w evs where
    w: "scatter_words e a d off B ?x = Some (True, ?x\<lparr> dx_data := w \<rparr>, evs)" "length w = length (dx_data x)"
      "\<And>b i. b < B \<Longrightarrow> i < 8 \<Longrightarrow> byte_of (w ! b) i = d ! (off + b * 8 + (7 - i))"
      "\<And>b. B \<le> b \<Longrightarrow> w ! b = (dx_data x)[B := v] ! b"
    by auto
  have "w ! B = v"
    using w(4) [of B] Suc.prems by simp
  then have "\<forall>b < Suc B. \<forall>i < 8. byte_of (w ! b) i = d ! (off + b * 8 + (7 - i))"
    using w(3) v(2) by (metis less_Suc_eq)
  moreover have "\<forall>b. Suc B \<le> b \<longrightarrow> w ! b = dx_data x ! b"
    using w(4) by simp
  ultimately show ?case
    using w(1,2) v(1) assms(1) by (intro exI [of _ w]) (simp add: poke_reg_def)
qed

text \<open>
  What a buffer holds after reading back what another buffer wrote: up to a word the
  low bytes; beyond a word the words in reversed order, each with its bytes reversed.
\<close>

definition copied :: "nat \<Rightarrow> u64 list \<Rightarrow> u64 list \<Rightarrow> bool" where
  "copied n src dst \<longleftrightarrow>
     (if n \<le> 8 then \<forall>i. byte_of (dst ! 0) i = (if i < n then byte_of (src ! 0) i else 0)
      else \<forall>b < n div 8. \<forall>i < 8. byte_of (dst ! b) i = byte_of (src ! (n div 8 - 1 - b)) (7 - i))"

lemma copied_words:
  assumes "\<forall>b < B. \<forall>i < 8. byte_of (w ! b) i = line ! (off + b * 8 + (7 - i))" and "1 < B"
    and "\<And>j. j < B * 8 \<Longrightarrow> line ! (off + j) = push_words d B ! j"
  shows "copied (B * 8) d w"
proof -
  have "byte_of (w ! b) i = byte_of (d ! (B - 1 - b)) (7 - i)" if "b < B" "i < 8" for b i
  proof -
    have "b * 8 + (7 - i) < B * 8"
      using that by auto
    then have "line ! (off + b * 8 + (7 - i)) = push_words d B ! (b * 8 + (7 - i))"
      using assms(3) [of "b * 8 + (7 - i)"] by (simp add: add.assoc)
    moreover have "B - 1 - (B - 1 - b) = b"
      using that by simp
    ultimately show ?thesis
      using assms(1) that push_words_nth [of "B - 1 - b" B "7 - i" d] by simp
  qed
  then show ?thesis
    using assms(2) by (simp add: copied_def)
qed

lemma byte_of_low: "byte_of (ucast (b :: u8) :: u64) i = (if i = 0 then b else 0)"
proof (rule bit_word_eqI)
  fix j
  show "bit (byte_of (ucast b :: u64) i) j = bit (if i = 0 then b else 0) j" if "j < LENGTH(8)"
    using that by (auto simp: bit_byte_of bit_simps dest: bit_imp_le_length)
qed

lemma scatter_word:
  assumes "\<And>a n v. \<not> poke_failed e a n v" and "dx_size x = of_nat n" and "n = 2 \<or> n = 4 \<or> n = 8"
    and "off + n \<le> length line" and "\<And>j. j < n \<Longrightarrow> line ! (off + j) = byte_of (d ! 0) j" and "length (dx_data x) = 8"
  shows "\<exists>w evs. scatter e a line off x = Some (True, x\<lparr> dx_data := w \<rparr>, evs) \<and> length w = 8 \<and> copied n d w"
proof -
  have "n \<le> 8"
    using assms(3) by auto
  with read_le_bytes [of off n line] assms(4,5) obtain v where
    v: "read_le line off n = Some v" "\<forall>i. byte_of v i = (if i < n then byte_of (d ! 0) i else 0)"
    by auto
  have "scatter e a line off x = Some (True, x\<lparr> dx_data := (dx_data x)[0 := v] \<rparr>, [Dma_poke a 8 v])"
    using assms(1-3) v(1) by (auto simp: scatter_def Let_def poke_reg_def)
  then show ?thesis
    using v(2) assms(6) \<open>n \<le> 8\<close> by (auto simp: copied_def)
qed

lemma scatter_payload:
  assumes pok: "\<And>a n v. \<not> poke_failed e a n v" and pay: "dma_payload n d = Some bytes" and x: "dx_size x = n" "length (dx_data x) = 8"
    and line: "off + length bytes \<le> length line" "\<And>j. j < length bytes \<Longrightarrow> line ! (off + j) = bytes ! j"
  shows "\<exists>w evs. scatter e a line off x = Some (True, x\<lparr> dx_data := w \<rparr>, evs) \<and> length w = 8 \<and> copied (unat n) d w"
proof -
  have word: ?thesis if n: "n = of_nat m" "m = 2 \<or> m = 4 \<or> m = 8" "bytes = push_word (d ! 0) m" for m
  proof -
    have "unat n = m"
      using n(1,2) by auto
    then show ?thesis
      using scatter_word [of e x m off line d a] pok x line n by (auto simp: push_word_bytes)
  qed
  have words: ?thesis if n: "n = of_nat (B * 8)" "B = 2 \<or> B = 4 \<or> B = 8" "bytes = push_words d B" for B
  proof -
    have "off + B * 8 \<le> length line" "B \<le> length (dx_data x)"
      using line(1) n(2,3) x by auto
    from scatter_words_result [of e off B line x a, OF pok this] obtain w evs where
      w: "scatter_words e a line off B x = Some (True, x\<lparr> dx_data := w \<rparr>, evs)" "length w = 8"
        "\<forall>b < B. \<forall>i < 8. byte_of (w ! b) i = line ! (off + b * 8 + (7 - i))"
      using x(2) by auto
    have "copied (B * 8) d w"
      using w(3) n line(2) by (intro copied_words [of B w line off]) auto
    moreover have "unat n = B * 8"
      using n(1,2) by auto
    moreover have "scatter e a line off x = scatter_words e a line off B x"
      using n(1,2) x(1) by (auto simp: scatter_def Let_def)
    ultimately show ?thesis
      using w(1,2) by auto
  qed
  have byte: ?thesis if n: "n = 1" "bytes = [ucast (d ! 0)]"
  proof -
    have "vec_get line off = Some (ucast (d ! 0))"
      using line(1) line(2) [of 0] n by (simp add: vec_get_def)
    then have "scatter e a line off x = Some (True, x\<lparr> dx_data := (dx_data x)[0 := ucast (ucast (d ! 0) :: u8)] \<rparr>, [Dma_poke a 8 0])"
      using n x pok by (simp add: scatter_def Let_def poke_reg_def)
    moreover have "copied 1 d ((dx_data x)[0 := ucast (ucast (d ! 0) :: u8)])"
      using x(2) by (simp add: copied_def byte_of_low) (simp add: byte_of_def)
    ultimately show ?thesis
      using n x(2) by (intro exI [of _ "(dx_data x)[0 := ucast (ucast (d ! 0) :: u8)]"]) simp
  qed
  show ?thesis
    using pay word [of 2] word [of 4] word [of 8] words [of 2] words [of 4] words [of 8] byte
    by (auto simp: dma_payload_def split: if_splits)
qed

text \<open>
  A program sends one buffer and reads it back into another: it launches the write of the first
  and, once the response has come, the read of the second.  What lies between the
  engine and memory is not part of the engine: the read response is any line.
\<close>

definition status_reg :: "u8 \<Rightarrow> dma \<Rightarrow> u64" where
  "status_reg k s = dm_base s + dma_status_offset + ucast k"

definition launch_data :: data_t where
  "launch_data = map (byte_of (1 :: u64)) [0..<8]"

definition payload_beat :: "data_t \<Rightarrow> w_t" where
  "payload_beat bytes = \<lparr> w_data = bytes, w_strb = replicate (length bytes) True, w_last = True \<rparr>"

definition dma_placed :: "dma \<Rightarrow> bool" where
  "dma_placed s \<longleftrightarrow> dm_base s = 0x9090000 \<and> dv_addr (dm_id s) = 0x9090000 \<and> dv_size (dm_id s) = 0x2000"

lemma launch_word: "deserializeInt launch_data = Some (1 :: u64)"
  using deserializeInt_bytes [where n = 8 and x = "1 :: u64" and ys = "[]"] by (simp add: launch_data_def)

lemma status_write:
  assumes "dma_placed s" and "k \<le> 64" and "\<And>a n v. \<not> poke_failed e a n v" and "dm_txns s k = Some x" and "\<not> dx_in_flight x"
  shows "dma_write e (status_reg k s) 8 launch_data s = map_option (\<lambda>(s', evs). (s', Dma_poke (status_reg k s) 8 1 # evs))
    (let s' = s\<lparr> dm_key := k, dm_txns := (dm_txns s)(k \<mapsto> x\<lparr> dx_status := 1, dx_in_flight := True \<rparr>) \<rparr> in
     if dx_cmd x = 1 then launch_read s' else if dx_cmd x = 2 then launch_write s' else Some (s', []))"
proof -
  have k: "unat k \<le> 64" "unat (ucast k :: u64) = unat k" "ucast (ucast k :: u64) = k"
    using assms(2) by (simp_all add: word_le_nat_alt) (auto intro!: bit_word_eqI simp: bit_simps)
  have addr: "status_reg k s = 0x90912c0 + ucast k"
    using assms(1) by (simp add: status_reg_def dma_placed_def dma_offsets)
  have un: "unat (0x90912c0 + ucast k :: u64) = 0x90912c0 + unat k"
    using k by (subst unat_add_less) simp_all
  have st: "write_status (ucast k) 1 s =
    (let s' = s\<lparr> dm_key := k, dm_txns := (dm_txns s)(k \<mapsto> x\<lparr> dx_status := 1, dx_in_flight := True \<rparr>) \<rparr> in
     if dx_cmd x = 1 then launch_read s' else if dx_cmd x = 2 then launch_write s' else Some (s', []))"
    using k assms(4,5)
    by (simp add: write_status_def word_less_nat_alt change_txn_def can_change_def txn_at_def upd_txn_def launch_def Let_def)
  have "dma_write e (status_reg k s) 8 launch_data s =
      map_option (\<lambda>(s', evs). (s', Dma_poke (status_reg k s) 8 1 # evs)) (write_status (ucast k) 1 s)"
    using assms(1,3) un k(1,2)
    by (simp add: addr dma_write_def launch_word has_addr_def dma_placed_def word_le_nat_alt word_less_nat_alt Let_def dma_offsets
        map_option_case split: option.split)
  then show ?thesis
    by (simp only: st)
qed

lemma poke_bytes_result:
  assumes "\<And>a n v. \<not> poke_failed e a n v" and "i + k \<le> length vec"
  shows "poke_bytes e addr vec i k = Some (True, map (\<lambda>j. Dma_poke (addr + of_nat j) 1 (ucast (vec ! j))) [i..<i + k])"
  using assms(2)
proof (induction k arbitrary: i)
  case (Suc k)
  have "[i..<i + Suc k] = i # [Suc i..<Suc i + k]"
    by (simp add: upt_conv_Cons)
  with Suc assms(1) show ?case
    by simp
qed simp

definition copy_ready :: "u8 \<Rightarrow> dma_txn \<Rightarrow> u8 \<Rightarrow> dma_txn \<Rightarrow> dma \<Rightarrow> bool" where
  "copy_ready k x j y s \<longleftrightarrow> dma_placed s \<and> dm_tasks s = [] \<and> k \<le> 64 \<and> j \<le> 64 \<and> k \<noteq> j \<and>
     dm_txns s k = Some x \<and> dx_cmd x = 2 \<and> \<not> dx_in_flight x \<and>
     dm_txns s j = Some y \<and> dx_cmd y = 1 \<and> \<not> dx_in_flight y \<and> length (dx_data y) = 8 \<and>
     dx_addr y = dx_addr x \<and> dx_size y = dx_size x"

lemma copy_write_half:
  assumes r: "copy_ready k x j y s" and pay: "dma_payload (dx_size x) (dx_data x) = Some bytes" and pok: "\<And>a n v. \<not> poke_failed e a n v"
  shows "\<exists>s1 aw s2. dma_write e (status_reg k s) 8 launch_data s = Some (s1, [Dma_poke (status_reg k s) 8 1, Dma_aw aw, Dma_w (payload_beat bytes)]) \<and>
    a_addr aw = dx_addr x \<and> dm_txns s1 k = Some (x\<lparr> dx_in_flight := False, dx_status := 2 \<rparr>) \<and>
    dma_b e \<lparr> b_id = a_id aw, b_resp = q \<rparr> s1 = Some (s2, map (\<lambda>i. Dma_poke (dx_addr x + of_nat i) 1 (ucast (bytes ! i))) [0..<length bytes]) \<and>
    dma_placed s2 \<and> dm_tasks s2 = [] \<and> dm_txns s2 j = Some y"
proof -
  let ?x = "x\<lparr> dx_status := 1, dx_in_flight := True \<rparr>"
  let ?s = "s\<lparr> dm_key := k, dm_txns := (dm_txns s)(k \<mapsto> ?x) \<rparr>"
  have "?x = txn_at (dm_key ?s) ?s" "dma_payload (dx_size ?x) (dx_data ?x) = Some bytes"
    using pay by (simp_all add: txn_at_def)
  from launch_write_result [OF this] obtain s1 aw where
    s1: "launch_write ?s = Some (s1, [Dma_aw aw, Dma_w (payload_beat bytes)])"
      "a_id aw = ucast (dm_axi_id s)" "a_addr aw = dx_addr x" "dm_tasks s1 = [Write_wait (ucast (dm_axi_id s)) (dx_addr x) bytes]"
      "dm_write_size s1 = ucast (dx_size x)" "dm_txns s1 j = Some y" "dm_id s1 = dm_id s" "dm_base s1 = dm_base s"
      "dm_txns s1 k = Some (x\<lparr> dx_in_flight := False, dx_status := 2 \<rparr>)"
    using r by (auto simp: copy_ready_def payload_beat_def)
  have "unat (dm_write_size s1) = length bytes"
    using payload_length [OF pay] s1(5) by (simp add: unat_to_byte)
  moreover have "dma_write e (status_reg k s) 8 launch_data s = Some (s1, [Dma_poke (status_reg k s) 8 1, Dma_aw aw, Dma_w (payload_beat bytes)])"
    using status_write [of s k e x] r pok s1(1) by (simp add: copy_ready_def)
  ultimately show ?thesis
    using r s1 poke_bytes_result [of e 0 "length bytes" bytes "dx_addr x"] pok
    by (simp add: dma_b_def copy_ready_def dma_placed_def)
qed

lemma copy_read_half:
  assumes s: "dma_placed s" "dm_tasks s = []" "dm_txns s j = Some y" "j \<le> 64" "dx_cmd y = 1" "\<not> dx_in_flight y" "length (dx_data y) = 8"
    and pay: "dma_payload (dx_size y) d = Some bytes" and pok: "\<And>a n v. \<not> poke_failed e a n v"
    and line: "unat (dx_addr y AND 0x3f) + length bytes \<le> length line"
      "\<And>i. i < length bytes \<Longrightarrow> line ! (unat (dx_addr y AND 0x3f) + i) = bytes ! i"
  shows "\<exists>s1 ar s2 evs y'. dma_write e (status_reg j s) 8 launch_data s = Some (s1, [Dma_poke (status_reg j s) 8 1, Dma_ar ar]) \<and>
    a_addr ar = dx_addr y \<and> dma_r e \<lparr> r_id = a_id ar, r_resp = q, r_data = line, r_last = z \<rparr> s1 = Some (s2, evs) \<and> dm_tasks s2 = [] \<and>
    dm_txns s2 j = Some y' \<and> dx_status y' = 2 \<and> \<not> dx_in_flight y' \<and> copied (unat (dx_size y)) d (dx_data y')"
proof -
  let ?y = "y\<lparr> dx_status := 1, dx_in_flight := True \<rparr>"
  let ?s = "s\<lparr> dm_key := j, dm_txns := (dm_txns s)(j \<mapsto> ?y) \<rparr>"
  have n: "length bytes = unat (dx_size y)" "0 < unat (dx_size y)" "unat (dx_size y) \<le> 64"
    using payload_length [OF pay] by simp_all
  have "unat (ucast (dx_size y) :: u8) \<noteq> unat (0 :: u8)"
    using n unat_to_byte [of "dx_size y"] by simp
  then have "ucast (dx_size ?y) \<noteq> (0 :: u8)"
    by auto
  moreover have "?y = txn_at (dm_key ?s) ?s"
    by (simp add: txn_at_def)
  ultimately obtain s1 ar where
    s1: "launch_read ?s = Some (s1, [Dma_ar ar])" "a_id ar = ucast (dm_axi_id s)" "a_addr ar = dx_addr y"
      "dm_tasks s1 = [Read_wait (ucast (dm_axi_id s)) j]" "dm_read_addr s1 = dx_addr y" "dm_txns s1 j = Some ?y"
    using launch_read_result [of ?y ?s] s(2) by (auto simp: Let_def)
  have w: "dma_write e (status_reg j s) 8 launch_data s = Some (s1, [Dma_poke (status_reg j s) 8 1, Dma_ar ar])"
    using status_write [of s j e y] s pok s1(1) by simp
  let ?z = "y\<lparr> dx_in_flight := False, dx_status := 2 \<rparr>" and ?off = "unat (dx_addr y AND 0x3f)"
  obtain v evs where v: "scatter e (dm_base s1 + dma_addr_offset + ucast j * 8) line ?off ?z =
      Some (True, ?z\<lparr> dx_data := v \<rparr>, evs)" "copied (unat (dx_size y)) d v"
    using scatter_payload [OF pok pay, of ?z ?off line "dm_base s1 + dma_addr_offset + ucast j * 8"] s(7) line
    by auto
  have "\<exists>s2. dma_r e \<lparr> r_id = a_id ar, r_resp = q, r_data = line, r_last = z \<rparr> s1 = Some (s2, evs) \<and>
      dm_tasks s2 = [] \<and> dm_txns s2 j = Some (?z\<lparr> dx_data := v \<rparr>)"
    using s1 v(1) by (simp add: dma_r_def Let_def txn_at_def upd_txn_def)
  then show ?thesis
    using w v(2) s1(3) by fastforce
qed

lemma payload_beat_callback:
  assumes "0 < length bytes"
  shows "w_callback (payload_beat bytes) mst = None \<longleftrightarrow> length bytes < mst_data_width mst div 8"
  by (simp add: w_callback_def payload_beat_def Let_def)

text \<open>
  C13: sending a buffer and reading it back.  For an idle placed engine with one buffer set up to write
  and another to read the same bytes, launching the write emits one address packet with the
  buffer's address and one write beat with exactly the payload bytes, all strobed, and marks the
  buffer complete at once; any response with the packet's id then pokes the
  reference model with exactly these bytes.  Launching the read
  emits one address packet, and any response line that has the bytes at the address's offset
  in the line marks the second buffer complete with the low bytes of the first up to a word; for
  16, 32 and 64 bytes the words arrive in reversed order, each with its bytes reversed.
  The write beat is only as long as the payload: a manager of the AXI library reads past its end
  exactly when its data bus is wider than the payload.
\<close>

theorem dma_write_read_back:
  assumes r: "copy_ready k x j y s" and pay: "dma_payload (dx_size x) (dx_data x) = Some bytes" and pok: "\<And>a n v. \<not> poke_failed e a n v"
    and line: "unat (dx_addr x AND 0x3f) + length bytes \<le> length line"
      "\<And>i. i < length bytes \<Longrightarrow> line ! (unat (dx_addr x AND 0x3f) + i) = bytes ! i"
  shows "\<exists>s1 aw s2 s3 ar s4 evs y'.
    dma_write e (status_reg k s) 8 launch_data s = Some (s1, [Dma_poke (status_reg k s) 8 1, Dma_aw aw, Dma_w (payload_beat bytes)]) \<and>
    a_addr aw = dx_addr x \<and> dm_txns s1 k = Some (x\<lparr> dx_in_flight := False, dx_status := 2 \<rparr>) \<and>
    dma_b e \<lparr> b_id = a_id aw, b_resp = q \<rparr> s1 = Some (s2, map (\<lambda>i. Dma_poke (dx_addr x + of_nat i) 1 (ucast (bytes ! i))) [0..<length bytes]) \<and>
    dma_write e (status_reg j s2) 8 launch_data s2 = Some (s3, [Dma_poke (status_reg j s2) 8 1, Dma_ar ar]) \<and> a_addr ar = dx_addr x \<and>
    dma_r e \<lparr> r_id = a_id ar, r_resp = q', r_data = line, r_last = z \<rparr> s3 = Some (s4, evs) \<and> dm_tasks s4 = [] \<and>
    dm_txns s4 j = Some y' \<and> dx_status y' = 2 \<and> \<not> dx_in_flight y' \<and> copied (unat (dx_size x)) (dx_data x) (dx_data y') \<and>
    (w_callback (payload_beat bytes) mst = None \<longleftrightarrow> length bytes < mst_data_width mst div 8)"
proof -
  from copy_write_half [of k x j y s bytes e q, OF r pay pok] obtain s1 aw s2 where
    h: "dma_write e (status_reg k s) 8 launch_data s = Some (s1, [Dma_poke (status_reg k s) 8 1, Dma_aw aw, Dma_w (payload_beat bytes)])"
      "a_addr aw = dx_addr x" "dm_txns s1 k = Some (x\<lparr> dx_in_flight := False, dx_status := 2 \<rparr>)"
      "dma_b e \<lparr> b_id = a_id aw, b_resp = q \<rparr> s1 = Some (s2, map (\<lambda>i. Dma_poke (dx_addr x + of_nat i) 1 (ucast (bytes ! i))) [0..<length bytes])"
      "dma_placed s2" "dm_tasks s2 = []" "dm_txns s2 j = Some y"
    by blast
  have y: "j \<le> 64" "dx_cmd y = 1" "\<not> dx_in_flight y" "length (dx_data y) = 8" "dx_addr y = dx_addr x" "dx_size y = dx_size x"
    using r by (auto simp: copy_ready_def)
  have pos: "0 < length bytes"
    using payload_length [OF pay] by simp
  from copy_read_half [of s2 j y "dx_data x" bytes e line q' z, OF h(5-7) y(1-4) _ pok] pay line y(5,6) obtain s3 ar s4 evs y' where
    "dma_write e (status_reg j s2) 8 launch_data s2 = Some (s3, [Dma_poke (status_reg j s2) 8 1, Dma_ar ar])" "a_addr ar = dx_addr x"
    "dma_r e \<lparr> r_id = a_id ar, r_resp = q', r_data = line, r_last = z \<rparr> s3 = Some (s4, evs)" "dm_tasks s4 = []"
    "dm_txns s4 j = Some y'" "dx_status y' = 2" "\<not> dx_in_flight y'" "copied (unat (dx_size x)) (dx_data x) (dx_data y')"
    by auto
  with h(1-4) payload_beat_callback [OF pos] show ?thesis
    by blast
qed

definition sample_txn :: "u8 \<Rightarrow> u64 list \<Rightarrow> dma_txn" where
  "sample_txn cmd d = \<lparr> dx_addr = 0x80000010, dx_data = d, dx_size = 16, dx_cmd = cmd, dx_status = 0, dx_virt = False,
     dx_in_flight = False \<rparr>"

definition sample_dma :: dma where
  "sample_dma = (dma_new 0x9090000)\<lparr> dm_txns := [0 \<mapsto> sample_txn 2 [1, 2, 0, 0, 0, 0, 0, 0], 1 \<mapsto> sample_txn 1 (replicate 8 0)] \<rparr>"

theorem dma_write_read_back_witness:
  "\<exists>s1 aw evs s2 s3 ar s4 evs' y'.
    dma_write \<lparr> poke_check = True, poke_rpc = (\<lambda>_ _ _. (True, True)) \<rparr> (status_reg 0 sample_dma) 8 launch_data sample_dma =
      Some (s1, [Dma_poke (status_reg 0 sample_dma) 8 1, Dma_aw aw, Dma_w (payload_beat (push_words [1, 2, 0, 0, 0, 0, 0, 0] 2))]) \<and>
    dma_b \<lparr> poke_check = True, poke_rpc = (\<lambda>_ _ _. (True, True)) \<rparr> \<lparr> b_id = a_id aw, b_resp = RESP_OKAY \<rparr> s1 = Some (s2, evs) \<and>
    dma_write \<lparr> poke_check = True, poke_rpc = (\<lambda>_ _ _. (True, True)) \<rparr> (status_reg 1 s2) 8 launch_data s2 =
      Some (s3, [Dma_poke (status_reg 1 s2) 8 1, Dma_ar ar]) \<and>
    dma_r \<lparr> poke_check = True, poke_rpc = (\<lambda>_ _ _. (True, True)) \<rparr> \<lparr> r_id = a_id ar, r_resp = RESP_OKAY,
      r_data = replicate 16 0 @ push_words [1, 2, 0, 0, 0, 0, 0, 0] 2 @ replicate 32 0, r_last = True \<rparr> s3 = Some (s4, evs') \<and>
    dm_txns s4 1 = Some y' \<and> dx_status y' = 2 \<and> copied 16 [1, 2, 0, 0, 0, 0, 0, 0] (dx_data y')"
proof -
  let ?x = "sample_txn 2 [1, 2, 0, 0, 0, 0, 0, 0]" and ?y = "sample_txn 1 (replicate 8 0)"
  let ?w = "push_words [1, 2, 0, 0, 0, 0, 0, 0] 2" and ?e = "\<lparr> poke_check = True, poke_rpc = (\<lambda>_ _ _. (True, True)) \<rparr>"
  have r: "copy_ready 0 ?x 1 ?y sample_dma"
    by (simp add: copy_ready_def sample_dma_def sample_txn_def dma_new_def dma_placed_def)
  have pay: "dma_payload (dx_size ?x) (dx_data ?x) = Some ?w"
    by (simp add: sample_txn_def dma_payload_def)
  have pok: "\<not> poke_failed ?e a n v" for a n v
    by (simp add: poke_failed_def)
  have off: "unat (dx_addr ?x AND 0x3f) = 16" and len: "length ?w = 16"
    by (simp_all add: sample_txn_def)
  have ln: "unat (dx_addr ?x AND 0x3f) + length ?w \<le> length (replicate 16 0 @ ?w @ replicate 32 0)"
    "\<And>i. i < length ?w \<Longrightarrow> (replicate 16 0 @ ?w @ replicate 32 0) ! (unat (dx_addr ?x AND 0x3f) + i) = ?w ! i"
    unfolding off len by (simp_all add: nth_append len del: push_words.simps)
  from dma_write_read_back [of 0 ?x 1 ?y sample_dma ?w ?e, OF r pay pok ln, of RESP_OKAY RESP_OKAY True] show ?thesis
    by (simp add: sample_txn_def del: push_words.simps) blast
qed

end
