(* ===== verification/IoCoh.thy ===== *)
theory IoCoh
  imports Dma DeviceAddressMap
begin

text \<open>
  The coherent transfer helper of the trickbox (\<^verbatim>\<open>sysmod/trickbox/io_coh_helper.cpp\<close>): single
  writes, single reads and bursts of transactions, programmed through registers and sent
  through one of two managers.  As in \<^verbatim>\<open>Dma\<close>, a forked task runs until it waits, and a
  response on a manager wakes the oldest task that waits there for its id.  Locations
  of managers are numbers.
\<close>

section \<open>Model\<close>

record axi_txns =
  ax_addr :: u64
  ax_size :: u8
  ax_r0_w1 :: bool
  ax_wdata :: data_t

datatype ioc_task =
  Ioc_write nat u32 u64 data_t bool
| Ioc_read nat u32
| Ioc_burst_read nat u32 nat
| Ioc_burst_write nat u32 nat data_t bool

datatype ioc_event = Ioc_a nat a_t | Ioc_w nat w_t | Ioc_poke u64 nat u64 | Ioc_error

record ioc_env =
  ie_poke :: poke_env
  ie_map :: device_address_map
  ie_coherency_disable :: bool

record io_coh =
  ic_id :: device_id
  ic_base :: u64
  ic_loc_mmr :: nat
  ic_loc_ioc :: nat
  ic_status :: u64
  ic_addr :: u64
  ic_addr_burst :: u64
  ic_type_size :: u8
  ic_backdoor_data :: u64
  ic_type :: u64
  ic_size :: u64
  ic_read_counter :: u64
  ic_num_writes :: u64
  ic_num_reads :: u64
  ic_data0 :: u64
  ic_axi_id :: u8
  ic_user :: u8
  ic_blocking :: bool
  ic_write_in_flight :: bool
  ic_read_in_flight :: bool
  ic_burst_in_flight :: bool
  ic_wdata :: data_t
  ic_rdata :: data_t
  ic_txns :: "axi_txns list"
  ic_tasks :: "ioc_task list"

text \<open>The two manager locations come from optional attributes of the platform.\<close>

definition io_coh_new :: "nat option \<Rightarrow> nat option \<Rightarrow> nat \<Rightarrow> u64 \<Rightarrow> io_coh" where
  "io_coh_new mmr_attr ioc_attr def addr =
     (let mmr = (case mmr_attr of Some l \<Rightarrow> l | None \<Rightarrow> def); ioc = (case ioc_attr of Some l \<Rightarrow> l | None \<Rightarrow> mmr) in
      \<lparr> ic_id = \<lparr> dv_tag = ''io_coh_helper'', dv_addr = addr, dv_size = 0x1000 \<rparr>, ic_base = addr,
        ic_loc_mmr = mmr, ic_loc_ioc = ioc, ic_status = 0, ic_addr = 0x90a0000, ic_addr_burst = 0x90a0000,
        ic_type_size = 0, ic_backdoor_data = 0, ic_type = 0, ic_size = 0, ic_read_counter = 0, ic_num_writes = 0,
        ic_num_reads = 0, ic_data0 = 0, ic_axi_id = 12, ic_user = 0, ic_blocking = False, ic_write_in_flight = False,
        ic_read_in_flight = False, ic_burst_in_flight = False, ic_wdata = [], ic_rdata = [], ic_txns = [], ic_tasks = [] \<rparr>)"

definition is_mmr_window :: "device_address_map \<Rightarrow> u64 \<Rightarrow> bool" where
  "is_mmr_window m addr \<longleftrightarrow>
     (let lsb = unat (priv_level_start_bit m + priv_level_width m) in shr64 addr lsb = shr64 (mmr_base_addr m) lsb)"

definition mst_for_addr :: "device_address_map \<Rightarrow> u64 \<Rightarrow> io_coh \<Rightarrow> nat" where
  "mst_for_addr m addr s = (if is_mmr_window m addr then ic_loc_mmr s else ic_loc_ioc s)"

text \<open>
  \<^verbatim>\<open>log2\<close> of a size, truncated; the floor is exact for the sizes that a response can serve.
\<close>

fun log2_nat :: "nat \<Rightarrow> nat" where
  "log2_nat n = (if n < 2 then 0 else Suc (log2_nat (n div 2)))"

declare log2_nat.simps [simp del]

definition log2_word :: "u64 \<Rightarrow> u8 option" where
  "log2_word n = (if n = 0 then None else Some (of_nat (log2_nat (unat n))))"

definition ioc_beat :: "ioc_env \<Rightarrow> bool \<Rightarrow> u8 \<Rightarrow> u64 \<Rightarrow> u8 \<Rightarrow> u8 \<Rightarrow> a_t" where
  "ioc_beat c w ident addr sz user = (one_beat w ident addr sz (prot_of addr) user)
     \<lparr> a_exp_err_rsp := ie_coherency_disable c \<and> \<not> is_internal_device (ie_map c) addr 0 \<rparr>"

section \<open>Single writes\<close>

text \<open>The loop counter is a byte: a size above 255 never ends the loops below.\<close>

fun place_bytes :: "data_t \<Rightarrow> nat \<Rightarrow> nat \<Rightarrow> nat \<Rightarrow> data_t \<times> strb_t \<Rightarrow> (data_t \<times> strb_t) option" where
  "place_bytes src b i 0 ds = Some ds"
| "place_bytes src b i (Suc k) ds =
     (if i + b < 63 then do {
        v \<leftarrow> vec_get src i;
        d \<leftarrow> vec_set (fst ds) (i + b) v;
        st \<leftarrow> vec_set (snd ds) (i + b) True;
        place_bytes src b (Suc i) k (d, st)
      } else place_bytes src b (Suc i) k ds)"

definition gen_data_strb :: "u64 \<Rightarrow> io_coh \<Rightarrow> (data_t \<times> strb_t) option" where
  "gen_data_strb addr s =
     (if 255 < ic_size s then None
      else place_bytes (ic_wdata s) (unat (addr AND 0x3f)) 0 (unat (ic_size s)) (replicate 64 0, replicate 64 False))"

definition ioc_blocking_write :: "ioc_env \<Rightarrow> u64 \<Rightarrow> io_coh \<Rightarrow> (io_coh \<times> ioc_event list) option" where
  "ioc_blocking_write c addr s = do {
     sz \<leftarrow> log2_word (ic_size s);
     let a = ioc_beat c True (ic_axi_id s) addr sz (ic_user s OR 8); loc = mst_for_addr (ie_map c) addr s in do {
     (data, strb) \<leftarrow> gen_data_strb addr s;
     Some (s\<lparr> ic_axi_id := ic_axi_id s + 1, ic_write_in_flight := True,
         ic_tasks := ic_tasks s @ [Ioc_write loc (a_id a) addr data (a_allow_decerr_resp a \<or> a_exp_err_rsp a)] \<rparr>,
       [Ioc_a loc a, Ioc_w loc \<lparr> w_data = data, w_strb = strb, w_last = True \<rparr>])
   }}"

definition ioc_overlay_write :: "ioc_env \<Rightarrow> u64 \<Rightarrow> io_coh \<Rightarrow> (io_coh \<times> ioc_event list) option" where
  "ioc_overlay_write c addr s = ioc_blocking_write c addr s"

fun ioc_poke_bytes :: "poke_env \<Rightarrow> u64 \<Rightarrow> data_t \<Rightarrow> nat \<Rightarrow> nat \<Rightarrow> (bool \<times> ioc_event list) option" where
  "ioc_poke_bytes e addr vec i 0 = Some (True, [])"
| "ioc_poke_bytes e addr vec i (Suc k) = do {
     b \<leftarrow> vec_get vec i;
     let a = addr + of_nat i in
     if poke_failed e a 1 (ucast b) then Some (False, [Ioc_poke a 1 (ucast b), Ioc_error])
     else do {
       (ok, evs) \<leftarrow> ioc_poke_bytes e addr vec (Suc i) k;
       Some (ok, Ioc_poke a 1 (ucast b) # evs)
     }
   }"

definition ioc_write_resumed :: "ioc_env \<Rightarrow> u64 \<Rightarrow> data_t \<Rightarrow> bool \<Rightarrow> resp_t \<Rightarrow> io_coh \<Rightarrow> (io_coh \<times> ioc_event list) option" where
  "ioc_write_resumed c addr data tolerant resp s =
     (if \<not> tolerant \<and> resp \<noteq> RESP_OKAY then Some (s, [Ioc_error])
      else
        let s = s\<lparr> ic_write_in_flight := False \<rparr> in
        if resp \<noteq> RESP_OKAY then Some (s, [])
        else if 255 < ic_size s then None
        else do {
          (ok, evs) \<leftarrow> ioc_poke_bytes (ie_poke c) addr data 0 (unat (ic_size s));
          Some (if ok then s\<lparr> ic_num_writes := ic_num_writes s + 1 \<rparr> else s, evs)
        })"

section \<open>Single reads\<close>

definition ioc_blocking_read :: "ioc_env \<Rightarrow> u64 \<Rightarrow> io_coh \<Rightarrow> (io_coh \<times> ioc_event list) option" where
  "ioc_blocking_read c addr s = do {
     sz \<leftarrow> log2_word (ic_size s);
     let a = ioc_beat c False (ic_axi_id s) addr sz (ic_user s); loc = mst_for_addr (ie_map c) addr s in
     Some (s\<lparr> ic_axi_id := ic_axi_id s + 1, ic_read_in_flight := True, ic_rdata := [],
         ic_tasks := ic_tasks s @ [Ioc_read loc (a_id a)] \<rparr>, [Ioc_a loc a])
   }"

definition ioc_overlay_read :: "ioc_env \<Rightarrow> u64 \<Rightarrow> io_coh \<Rightarrow> (io_coh \<times> ioc_event list) option" where
  "ioc_overlay_read c addr s = ioc_blocking_read c addr s"

text \<open>The bytes of a response are appended from its first lane, as many as the size says.\<close>

definition take_response :: "data_t \<Rightarrow> io_coh \<Rightarrow> io_coh option" where
  "take_response data s =
     (let n = unat (ic_size s) in
      if length data < n then None
      else Some (s\<lparr> ic_backdoor_data := 0, ic_read_counter := 0, ic_rdata := ic_rdata s @ take n data,
        ic_read_in_flight := False, ic_num_reads := ic_num_reads s + 1 \<rparr>))"

section \<open>Bursts\<close>

text \<open>
  The inner loops of the write branch reuse the name of the loop counter, so that they index the
  list of transactions with the byte counter.
\<close>

fun burst_fill :: "axi_txns list \<Rightarrow> nat \<Rightarrow> nat \<Rightarrow> nat \<Rightarrow> data_t \<times> strb_t \<Rightarrow> (data_t \<times> strb_t) option" where
  "burst_fill txns b i 0 ds = None"
| "burst_fill txns b i (Suc k) ds = do {
     tx \<leftarrow> vec_get txns i;
     if unat (ax_size tx) \<le> i then Some ds
     else if i + b < 63 then do {
       v \<leftarrow> vec_get (ax_wdata tx) i;
       d \<leftarrow> vec_set (fst ds) (i + b) v;
       st \<leftarrow> vec_set (snd ds) (i + b) True;
       burst_fill txns b (Suc i) k (d, st)
     } else burst_fill txns b (Suc i) k ds
   }"

fun burst_pokes :: "ioc_env \<Rightarrow> axi_txns list \<Rightarrow> data_t \<Rightarrow> nat \<Rightarrow> nat \<Rightarrow> (bool \<times> ioc_event list) option" where
  "burst_pokes c txns data i 0 = Some (True, [])"
| "burst_pokes c txns data i (Suc k) = do {
     tx \<leftarrow> vec_get txns i;
     v \<leftarrow> vec_get data i;
     let a = ax_addr tx + of_nat i in
     if \<not> fst (poke_rpc (ie_poke c) a 1 (ucast v)) \<and> poke_check (ie_poke c)
     then Some (False, [Ioc_poke a 1 (ucast v), Ioc_error])
     else do {
       (ok, evs) \<leftarrow> burst_pokes c txns data (Suc i) k;
       Some (ok, Ioc_poke a 1 (ucast v) # evs)
     }
   }"

text \<open>The loop from transaction i on, with k transactions left, up to the next wait.\<close>

fun burst_run :: "ioc_env \<Rightarrow> nat \<Rightarrow> nat \<Rightarrow> io_coh \<Rightarrow> (io_coh \<times> ioc_event list) option" where
  "burst_run c i 0 s = Some (s\<lparr> ic_burst_in_flight := False \<rparr>, [])"
| "burst_run c i (Suc k) s = do {
     tx \<leftarrow> vec_get (ic_txns s) i;
     let a = ioc_beat c (ax_r0_w1 tx) (ic_axi_id s) (ax_addr tx) (ax_size tx) (ic_user s);
         loc = mst_for_addr (ie_map c) (ax_addr tx) s;
         tolerant = (a_allow_decerr_resp a \<or> a_exp_err_rsp a);
         s = s\<lparr> ic_axi_id := ic_axi_id s + 1, ic_read_in_flight := True, ic_rdata := [] \<rparr> in
     if \<not> ax_r0_w1 tx then
       Some (s\<lparr> ic_tasks := ic_tasks s @ [Ioc_burst_read loc (a_id a) i] \<rparr>, [Ioc_a loc a])
     else do {
       (data, strb) \<leftarrow> burst_fill (ic_txns s) (unat (ax_addr tx AND 0x3f)) 0 256 (replicate 64 0, replicate 64 False);
       let evs = [Ioc_a loc a, Ioc_w loc \<lparr> w_data = data, w_strb = strb, w_last = True \<rparr>] in
       if ic_blocking s then Some (s\<lparr> ic_tasks := ic_tasks s @ [Ioc_burst_write loc (a_id a) i data tolerant] \<rparr>, evs)
       else do {
         (s, evs') \<leftarrow> burst_run c (Suc i) k s;
         Some (s, evs @ evs')
       }
     }
   }"

definition drive_burst :: "ioc_env \<Rightarrow> io_coh \<Rightarrow> (io_coh \<times> ioc_event list) option" where
  "drive_burst c s = burst_run c 0 (length (ic_txns s)) (s\<lparr> ic_burst_in_flight := True \<rparr>)"

definition burst_next :: "ioc_env \<Rightarrow> nat \<Rightarrow> io_coh \<Rightarrow> (io_coh \<times> ioc_event list) option" where
  "burst_next c i s = burst_run c (Suc i) (length (ic_txns s) - Suc i) s"

definition burst_write_resumed :: "ioc_env \<Rightarrow> nat \<Rightarrow> data_t \<Rightarrow> bool \<Rightarrow> resp_t \<Rightarrow> io_coh \<Rightarrow> (io_coh \<times> ioc_event list) option" where
  "burst_write_resumed c i data tolerant resp s =
     (if \<not> tolerant \<and> resp \<noteq> RESP_OKAY then Some (s, [Ioc_error])
      else if resp \<noteq> RESP_OKAY then burst_next c i s
      else if 255 < ic_size s then None
      else do {
        (ok, evs) \<leftarrow> burst_pokes c (ic_txns s) data 0 (unat (ic_size s));
        if \<not> ok then Some (s, evs)
        else do {
          (s, evs') \<leftarrow> burst_next c i (s\<lparr> ic_num_writes := ic_num_writes s + 1 \<rparr>);
          Some (s, evs @ evs')
        }
      })"

section \<open>Responses\<close>

fun waits_r :: "nat \<Rightarrow> u32 \<Rightarrow> ioc_task \<Rightarrow> bool" where
  "waits_r loc i (Ioc_read l j) = (l = loc \<and> j = i)"
| "waits_r loc i (Ioc_burst_read l j _) = (l = loc \<and> j = i)"
| "waits_r loc i _ = False"

fun waits_b :: "nat \<Rightarrow> u32 \<Rightarrow> ioc_task \<Rightarrow> bool" where
  "waits_b loc i (Ioc_write l j _ _ _) = (l = loc \<and> j = i)"
| "waits_b loc i (Ioc_burst_write l j _ _ _) = (l = loc \<and> j = i)"
| "waits_b loc i _ = False"

definition wake :: "(ioc_task \<Rightarrow> bool) \<Rightarrow> io_coh \<Rightarrow> (ioc_task \<times> io_coh) option" where
  "wake P s = (case find P (ic_tasks s) of None \<Rightarrow> None | Some q \<Rightarrow> Some (q, s\<lparr> ic_tasks := remove1 q (ic_tasks s) \<rparr>))"

definition ioc_r :: "ioc_env \<Rightarrow> nat \<Rightarrow> r_t \<Rightarrow> io_coh \<Rightarrow> (io_coh \<times> ioc_event list) option" where
  "ioc_r c loc r s = (case wake (waits_r loc (r_id r)) s of
     Some (Ioc_read _ _, s) \<Rightarrow> map_option (\<lambda>s. (s, [])) (take_response (r_data r) s)
   | Some (Ioc_burst_read _ _ i, s) \<Rightarrow> do { s \<leftarrow> take_response (r_data r) s; burst_next c i s }
   | _ \<Rightarrow> Some (s, []))"

definition ioc_b :: "ioc_env \<Rightarrow> nat \<Rightarrow> b_t \<Rightarrow> io_coh \<Rightarrow> (io_coh \<times> ioc_event list) option" where
  "ioc_b c loc b s = (case wake (waits_b loc (b_id b)) s of
     Some (Ioc_write _ _ addr data tolerant, s) \<Rightarrow> ioc_write_resumed c addr data tolerant (b_resp b) s
   | Some (Ioc_burst_write _ _ i data tolerant, s) \<Rightarrow> burst_write_resumed c i data tolerant (b_resp b) s
   | _ \<Rightarrow> Some (s, []))"

section \<open>Registers\<close>

definition io_coh_read :: "u64 \<Rightarrow> nat \<Rightarrow> data_t \<Rightarrow> io_coh \<Rightarrow> (data_t \<times> io_coh \<times> ioc_event list) option" where
  "io_coh_read addr len data s =
     (let base = ic_base s; flag = (\<lambda>b. serializeInt (if b then 1 else 0 :: u64) len data) in
      if \<not> has_addr (ic_id s) addr then Some (data, s, [])
      else if addr = base + 0x500 then
        map_option (\<lambda>data. (data, s, []))
          (if ic_type s = 1 then flag (ic_read_in_flight s)
           else if ic_type s = 2 then flag (ic_burst_in_flight s) else Some data)
      else if addr = base + 0x580 then
        (if ic_read_counter s < ic_size s then do {
           v \<leftarrow> vec_get (ic_rdata s) (unat (ic_read_counter s));
           data \<leftarrow> vec_set data 0 v;
           Some (data, s\<lparr> ic_read_counter := ic_read_counter s + 1 \<rparr>, [])
         } else Some (data, s, [Ioc_error]))
      else if addr = base + 0x5b0 then map_option (\<lambda>data. (data, s, [])) (flag (ic_write_in_flight s))
      else Some (data, s, []))"

definition io_coh_trigger :: "ioc_env \<Rightarrow> io_coh \<Rightarrow> (io_coh \<times> ioc_event list) option" where
  "io_coh_trigger c s =
     (if ic_type s = 0 then
        (if length (ic_wdata s) \<noteq> unat (ic_size s) then Some (s, [Ioc_error]) else ioc_overlay_write c (ic_addr s) s)
      else if ic_type s = 1 then ioc_overlay_read c (ic_addr s) (s\<lparr> ic_backdoor_data := 0 \<rparr>)
      else if ic_type s = 2 then drive_burst c s
      else Some (s, []))"

definition latch_burst :: "io_coh \<Rightarrow> io_coh" where
  "latch_burst s = s\<lparr> ic_txns := ic_txns s @ [\<lparr> ax_addr = ic_addr_burst s, ax_size = ic_type_size s AND 0x0f,
     ax_r0_w1 = (drop_bit 8 (ic_type_size s) \<noteq> 0), ax_wdata = ic_wdata s \<rparr>] \<rparr>"

definition io_coh_write :: "ioc_env \<Rightarrow> u64 \<Rightarrow> nat \<Rightarrow> data_t \<Rightarrow> io_coh \<Rightarrow> (io_coh \<times> ioc_event list) option" where
  "io_coh_write c addr len data s =
     (if \<not> has_addr (ic_id s) addr then Some (s, [])
      else do {
        t_data \<leftarrow> deserializeInt data;
        let base = ic_base s in
        if addr = base then
          Some (s\<lparr> ic_status := t_data AND 1, ic_wdata := [] \<rparr>, if 0 < t_data then [Ioc_error] else [])
        else if addr = base + 0x080 then Some (latch_burst s, [])
        else if addr = base + 0x100 then Some (s\<lparr> ic_addr := t_data, ic_addr_burst := t_data \<rparr>, [])
        else if addr = base + 0x180 then Some (s\<lparr> ic_type_size := ucast t_data \<rparr>, [])
        else if addr = base + 0x200 then Some (s\<lparr> ic_data0 := t_data, ic_wdata := ic_wdata s @ [ucast t_data] \<rparr>, [])
        else if addr = base + 0x300 then
          Some (if t_data = 2 then s\<lparr> ic_type := t_data, ic_txns := [] \<rparr> else s\<lparr> ic_type := t_data \<rparr>, [])
        else if addr = base + 0x340 then Some (s\<lparr> ic_user := ucast (t_data AND 0xff) \<rparr>, [])
        else if addr = base + 0x380 then Some (s\<lparr> ic_blocking := (t_data \<noteq> 1) \<rparr>, [])
        else if addr = base + 0x400 then io_coh_trigger c s
        else if addr = base + 0x600 then Some (s\<lparr> ic_size := t_data \<rparr>, [])
        else Some (s, [])
      })"

section \<open>The helper is a block\<close>

definition ic_offsets :: "u64 list" where
  "ic_offsets = [0, 0x080, 0x100, 0x180, 0x200, 0x300, 0x340, 0x380, 0x400, 0x500, 0x580, 0x5b0, 0x600]"

definition ic_regs :: "io_coh \<Rightarrow> u64 \<Rightarrow> bool" where
  "ic_regs s a \<longleftrightarrow> has_addr (ic_id s) a \<and> a - ic_base s \<in> set ic_offsets"

definition only_reads :: "io_coh \<Rightarrow> bool" where
  "only_reads s \<longleftrightarrow> list_all (\<lambda>x. \<not> ax_r0_w1 x) (ic_txns s)"

definition ic_readable :: "u64 \<Rightarrow> io_coh \<Rightarrow> bool" where
  "ic_readable a s \<longleftrightarrow> (a = ic_base s + 0x580 \<longrightarrow> ic_read_counter s < ic_size s \<longrightarrow>
     unat (ic_read_counter s) < length (ic_rdata s))"

definition ic_accepts :: "u64 \<Rightarrow> data_t \<Rightarrow> io_coh \<Rightarrow> bool" where
  "ic_accepts a data s \<longleftrightarrow> (a = ic_base s + 0x400 \<longrightarrow>
     (ic_type s = 0 \<longrightarrow> length (ic_wdata s) = unat (ic_size s) \<longrightarrow> 0 < ic_size s \<and> ic_size s \<le> 255) \<and>
     (ic_type s = 1 \<longrightarrow> 0 < ic_size s))"

lemma offset_eq: "(a - base = c) = (a = base + c)" for a base c :: u64
  by (auto simp: algebra_simps)

lemma drop_byte: "drop_bit 8 (x :: u8) = 0"
  by (auto intro!: bit_word_eqI simp: bit_simps dest: bit_imp_le_length)

lemma place_bytes_result:
  assumes "i + k \<le> length src" and "length (fst ds) = 64" and "length (snd ds) = 64"
  shows "\<exists>d st. place_bytes src b i k ds = Some (d, st) \<and> length d = 64 \<and> length st = 64 \<and>
    (\<forall>l < 64. st ! l = (snd ds ! l \<or> (b + i \<le> l \<and> l < b + i + k \<and> l < 63)) \<and>
      d ! l = (if b + i \<le> l \<and> l < b + i + k \<and> l < 63 then src ! (l - b) else fst ds ! l))"
  using assms
proof (induction k arbitrary: i ds)
  case 0
  then show ?case
    by (cases ds) auto
next
  case (Suc k)
  show ?case
  proof (cases "i + b < 63")
    case True
    let ?ds = "((fst ds)[i + b := src ! i], (snd ds)[i + b := True])"
    obtain d st where r: "place_bytes src b (Suc i) k ?ds = Some (d, st)" "length d = 64" "length st = 64"
      "\<And>l. l < 64 \<Longrightarrow> st ! l = (snd ?ds ! l \<or> (b + Suc i \<le> l \<and> l < b + Suc i + k \<and> l < 63)) \<and>
        d ! l = (if b + Suc i \<le> l \<and> l < b + Suc i + k \<and> l < 63 then src ! (l - b) else fst ?ds ! l)"
      using Suc.IH [of "Suc i" ?ds] Suc.prems by auto
    have "st ! l = (snd ds ! l \<or> (b + i \<le> l \<and> l < b + i + Suc k \<and> l < 63)) \<and>
        d ! l = (if b + i \<le> l \<and> l < b + i + Suc k \<and> l < 63 then src ! (l - b) else fst ds ! l)" if "l < 64" for l
      using r(4) [OF that] that True Suc.prems by (cases "l = i + b") (auto simp: nth_list_update)
    then show ?thesis
      using r(1-3) True Suc.prems by simp
  next
    case False
    then obtain d st where r: "place_bytes src b (Suc i) k ds = Some (d, st)" "length d = 64" "length st = 64"
      "\<And>l. l < 64 \<Longrightarrow> st ! l = (snd ds ! l \<or> (b + Suc i \<le> l \<and> l < b + Suc i + k \<and> l < 63)) \<and>
        d ! l = (if b + Suc i \<le> l \<and> l < b + Suc i + k \<and> l < 63 then src ! (l - b) else fst ds ! l)"
      using Suc.IH [of "Suc i" ds] Suc.prems by auto
    with False show ?thesis
      by auto
  qed
qed

lemma gen_data_strb_result:
  assumes "ic_size s \<le> 255" and "length (ic_wdata s) = unat (ic_size s)" and "b = unat (addr AND 0x3f)"
  shows "\<exists>d st. gen_data_strb addr s = Some (d, st) \<and> length d = 64 \<and> length st = 64 \<and>
    (\<forall>l < 64. st ! l = (b \<le> l \<and> l < b + unat (ic_size s) \<and> l < 63) \<and> d ! l = (if st ! l then ic_wdata s ! (l - b) else 0))"
proof -
  have "\<not> 255 < ic_size s"
    using assms(1) by simp
  then show ?thesis
    using place_bytes_result [of 0 "unat (ic_size s)" "ic_wdata s" "(replicate 64 0, replicate 64 False)" b] assms
    by (fastforce simp: gen_data_strb_def)
qed

lemma ioc_beat_fields [simp]: "a_id (ioc_beat c w i a z u) = ucast i" "a_addr (ioc_beat c w i a z u) = a" "a_w (ioc_beat c w i a z u) = w"
  by (simp_all add: ioc_beat_def)

lemma log2_word_Some: "0 < n \<Longrightarrow> \<exists>z. log2_word n = Some z"
  by (auto simp: log2_word_def)

lemma burst_run_reads:
  assumes "only_reads s" and "i + k \<le> length (ic_txns s)"
  shows "\<exists>s' evs. burst_run c i k s = Some (s', evs) \<and> ic_txns s' = ic_txns s \<and> ic_id s' = ic_id s \<and> ic_base s' = ic_base s"
proof (cases k)
  case (Suc j)
  then have "\<not> ax_r0_w1 (ic_txns s ! i)"
    using assms by (auto simp: only_reads_def list_all_length)
  then show ?thesis
    using Suc assms(2) by (simp add: Let_def)
qed simp

lemma trigger_ok:
  assumes "only_reads s" and "ic_type s = 0 \<longrightarrow> length (ic_wdata s) = unat (ic_size s) \<longrightarrow> 0 < ic_size s \<and> ic_size s \<le> 255"
    and "ic_type s = 1 \<longrightarrow> 0 < ic_size s"
  shows "\<exists>s' evs. io_coh_trigger c s = Some (s', evs) \<and> ic_txns s' = ic_txns s \<and> ic_id s' = ic_id s \<and> ic_base s' = ic_base s"
proof -
  consider "ic_type s = 0" | "ic_type s = 1" | "ic_type s = 2" | "ic_type s \<notin> {0, 1, 2}"
    by blast
  then show ?thesis
  proof cases
    case 1
    show ?thesis
    proof (cases "length (ic_wdata s) = unat (ic_size s)")
      case True
      with 1 assms(2) obtain z where "log2_word (ic_size s) = Some z" and le: "ic_size s \<le> 255"
        using log2_word_Some by blast
      then show ?thesis
        using 1 True gen_data_strb_result [OF le True refl, of "ic_addr s"]
        by (auto simp: io_coh_trigger_def ioc_overlay_write_def ioc_blocking_write_def Let_def)
    qed (use 1 in \<open>simp add: io_coh_trigger_def\<close>)
  next
    case 2
    then obtain z where "log2_word (ic_size s) = Some z"
      using assms(3) log2_word_Some by blast
    with 2 show ?thesis
      by (simp add: io_coh_trigger_def ioc_overlay_read_def ioc_blocking_read_def Let_def)
  next
    case 3
    have "only_reads (s\<lparr> ic_burst_in_flight := True \<rparr>)"
      using assms(1) by (simp add: only_reads_def)
    from burst_run_reads [OF this, of 0 "length (ic_txns s)" c] 3 show ?thesis
      by (simp add: io_coh_trigger_def drive_burst_def)
  qed (simp add: io_coh_trigger_def)
qed

lemma io_coh_write_ok:
  assumes "only_reads s" and "8 \<le> length data" and "ic_accepts a data s"
  shows "\<exists>s' evs. io_coh_write c a n data s = Some (s', evs) \<and> only_reads s' \<and> ic_id s' = ic_id s \<and> ic_base s' = ic_base s"
proof -
  obtain w :: u64 where w: "deserializeInt data = Some w"
    using word_data [OF assms(2)] by blast
  show ?thesis
  proof (cases "has_addr (ic_id s) a \<and> a = ic_base s + 0x400")
    case True
    then obtain s' evs where "io_coh_trigger c s = Some (s', evs)" "ic_txns s' = ic_txns s" "ic_id s' = ic_id s" "ic_base s' = ic_base s"
      using trigger_ok [OF assms(1), of c] assms(3) by (auto simp: ic_accepts_def)
    then show ?thesis
      using True w assms(1) by (simp add: io_coh_write_def Let_def only_reads_def)
  next
    case False
    then show ?thesis
      using w assms(1) by (auto simp: io_coh_write_def Let_def only_reads_def latch_burst_def drop_byte)
  qed
qed

lemma io_coh_read_ok:
  assumes "ic_readable a s" and "0 < n" and "length data = n"
  shows "\<exists>data' s' evs. io_coh_read a n data s = Some (data', s', evs) \<and> length data' = n \<and> ic_txns s' = ic_txns s \<and>
    ic_id s' = ic_id s \<and> ic_base s' = ic_base s"
  using assms by (auto simp: io_coh_read_def ic_readable_def Let_def byte_simps)

interpretation ioc_block: trick_block ic_regs only_reads ic_readable ic_accepts io_coh_read "io_coh_write c" for c
proof
  show "io_coh_read a n data s = Some (data, s, [])" if "\<not> ic_regs s a" for s a n data
    using that by (auto simp: io_coh_read_def ic_regs_def ic_offsets_def offset_eq Let_def)
  show "io_coh_write c a n data s = Some (s, [])" if "\<not> ic_regs s a" "8 \<le> length data" for s a n data
    using that word_data [of data] by (auto simp: io_coh_write_def ic_regs_def ic_offsets_def offset_eq Let_def)
  show "\<exists>data' s' evs. io_coh_read a n data s = Some (data', s', evs) \<and> length data' = n \<and> only_reads s' \<and> ic_regs s' = ic_regs s"
    if "only_reads s" "0 < n" "length data = n" "ic_readable a s" for s a n data
    using io_coh_read_ok [OF that(4,2,3)] that(1) by (auto simp: only_reads_def ic_regs_def fun_eq_iff)
  show "\<exists>s' evs. io_coh_write c a n data s = Some (s', evs) \<and> only_reads s' \<and> ic_regs s' = ic_regs s"
    if "only_reads s" "8 \<le> length data" "ic_accepts a data s" for s a n data
    using io_coh_write_ok [OF that, of c n] by (auto simp: ic_regs_def fun_eq_iff)
qed

section \<open>Transfers\<close>

lemma ioc_poke_bytes_result:
  assumes "\<And>a n v. \<not> poke_failed e a n v" and "i + k \<le> length vec"
  shows "ioc_poke_bytes e addr vec i k = Some (True, map (\<lambda>j. Ioc_poke (addr + of_nat j) 1 (ucast (vec ! j))) [i..<i + k])"
  using assms(2)
proof (induction k arbitrary: i)
  case (Suc k)
  have "[i..<i + Suc k] = i # [Suc i..<Suc i + k]"
    by (simp add: upt_conv_Cons)
  with Suc assms(1) show ?case
    by simp
qed simp

lemma trigger_reg: "has_addr (ic_id s) (ic_base s + 0x400) \<Longrightarrow> deserializeInt data = Some (w :: u64) \<Longrightarrow>
    io_coh_write c (ic_base s + 0x400) n data s = io_coh_trigger c s"
  by (simp add: io_coh_write_def Let_def)

text \<open>
  C21: what a single write puts on the bus and in the reference model.  A triggered write of as
  many bytes as were programmed sends one beat that carries byte i on lane b + i, where b is
  the offset of the address in its line, for every lane below 63 and enables no
  other lane; the last lane of a line is never written.  When the response is good, the reference model is
  poked at the address onwards with the bytes of the lanes from lane zero, which are the programmed
  bytes exactly when the address is at the start of a line.
\<close>

theorem write_beat_and_pokes:
  assumes "has_addr (ic_id s) (ic_base s + 0x400)" and "8 \<le> length data" and "ic_type s = 0" and "ic_tasks s = []"
    and n: "length (ic_wdata s) = unat (ic_size s)" "0 < ic_size s" "ic_size s \<le> 64"
    and b: "b = unat (ic_addr s AND 0x3f)" and pok: "\<And>a n v. \<not> poke_failed (ie_poke c) a n v"
  shows "\<exists>loc a w s1 s2. io_coh_write c (ic_base s + 0x400) len data s = Some (s1, [Ioc_a loc a, Ioc_w loc w]) \<and>
    a_addr a = ic_addr s \<and> length (w_data w) = 64 \<and> length (w_strb w) = 64 \<and>
    (\<forall>l < 64. w_strb w ! l = (b \<le> l \<and> l < b + unat (ic_size s) \<and> l < 63) \<and>
      w_data w ! l = (if w_strb w ! l then ic_wdata s ! (l - b) else 0)) \<and>
    ioc_b c loc \<lparr> b_id = a_id a, b_resp = RESP_OKAY \<rparr> s1 =
      Some (s2, map (\<lambda>i. Ioc_poke (ic_addr s + of_nat i) 1 (ucast (w_data w ! i))) [0..<unat (ic_size s)]) \<and>
    ic_num_writes s2 = ic_num_writes s + 1 \<and> \<not> ic_write_in_flight s2 \<and> ic_tasks s2 = []"
proof -
  obtain v :: u64 where v: "deserializeInt data = Some v"
    using word_data [OF assms(2)] by blast
  obtain z where z: "log2_word (ic_size s) = Some z"
    using log2_word_Some [OF n(2)] by blast
  have le: "ic_size s \<le> 255" "\<not> 255 < ic_size s" "unat (ic_size s) \<le> 64"
    using n(3) by (simp_all add: word_le_nat_alt word_less_nat_alt)
  from gen_data_strb_result [OF le(1) n(1) b] obtain d st where
    g: "gen_data_strb (ic_addr s) s = Some (d, st)" "length d = 64" "length st = 64"
      "\<forall>l < 64. st ! l = (b \<le> l \<and> l < b + unat (ic_size s) \<and> l < 63) \<and> d ! l = (if st ! l then ic_wdata s ! (l - b) else 0)"
    by blast
  define a where "a = ioc_beat c True (ic_axi_id s) (ic_addr s) z (ic_user s OR 8)"
  define loc where "loc = mst_for_addr (ie_map c) (ic_addr s) s"
  define s1 where "s1 = s\<lparr> ic_axi_id := ic_axi_id s + 1, ic_write_in_flight := True,
      ic_tasks := [Ioc_write loc (a_id a) (ic_addr s) d (a_allow_decerr_resp a \<or> a_exp_err_rsp a)] \<rparr>"
  have "io_coh_write c (ic_base s + 0x400) len data s =
      Some (s1, [Ioc_a loc a, Ioc_w loc \<lparr> w_data = d, w_strb = st, w_last = True \<rparr>])"
    unfolding trigger_reg [OF assms(1) v] using assms(3,4) n(1) z g(1)
    by (simp add: io_coh_trigger_def ioc_overlay_write_def ioc_blocking_write_def a_def loc_def s1_def Let_def)
  moreover obtain s2 where "ioc_b c loc \<lparr> b_id = a_id a, b_resp = RESP_OKAY \<rparr> s1 =
      Some (s2, map (\<lambda>i. Ioc_poke (ic_addr s + of_nat i) 1 (ucast (d ! i))) [0..<unat (ic_size s)])"
      "ic_num_writes s2 = ic_num_writes s + 1" "\<not> ic_write_in_flight s2" "ic_tasks s2 = []"
    using le(2,3) g(2) ioc_poke_bytes_result [of "ie_poke c" 0 "unat (ic_size s)" d "ic_addr s", OF pok]
    by (simp add: ioc_b_def wake_def s1_def ioc_write_resumed_def Let_def)
  ultimately show ?thesis
    using g(2-4) by - (rule exI [of _ loc], rule exI [of _ a], rule exI [of _ "\<lparr> w_data = d, w_strb = st, w_last = True \<rparr>"],
      rule exI [of _ s1], rule exI [of _ s2], simp add: a_def)
qed

definition sample_ioc :: io_coh where
  "sample_ioc = (io_coh_new None None 1 0x9089000)\<lparr> ic_addr := 0x80000004, ic_size := 2, ic_wdata := [7, 8] \<rparr>"

definition sample_ioc_env :: ioc_env where
  "sample_ioc_env = \<lparr> ie_poke = \<lparr> poke_check = True, poke_rpc = (\<lambda>_ _ _. (True, True)) \<rparr>, ie_map = device_address_map_default,
     ie_coherency_disable = False \<rparr>"

theorem write_beat_and_pokes_witness:
  "\<exists>loc a w s1. io_coh_write sample_ioc_env 0x9089400 8 (replicate 8 0) sample_ioc = Some (s1, [Ioc_a loc a, Ioc_w loc w]) \<and>
    w_strb w ! 4 \<and> w_data w ! 4 = 7 \<and> w_data w ! 5 = 8 \<and> \<not> w_strb w ! 6"
proof -
  have s: "has_addr (ic_id sample_ioc) (ic_base sample_ioc + 0x400)" "ic_type sample_ioc = 0" "ic_tasks sample_ioc = []"
    "length (ic_wdata sample_ioc) = unat (ic_size sample_ioc)" "0 < ic_size sample_ioc" "ic_size sample_ioc \<le> 64"
    "4 = unat (ic_addr sample_ioc AND 0x3f)" "ic_base sample_ioc + 0x400 = 0x9089400" "ic_wdata sample_ioc = [7, 8]"
    "unat (ic_size sample_ioc) = 2"
    by (simp_all add: sample_ioc_def io_coh_new_def has_addr_def)
  have "\<not> poke_failed (ie_poke sample_ioc_env) a n v" for a n v
    by (simp add: sample_ioc_env_def poke_failed_def)
  from write_beat_and_pokes [where data = "replicate 8 0" and len = 8, OF s(1) _ s(2-7) this] show ?thesis
    unfolding s(8-10) by fastforce
qed

text \<open>Repeated reads of the data register, one byte each.\<close>

fun drain :: "nat \<Rightarrow> io_coh \<Rightarrow> (data_t \<times> io_coh) option" where
  "drain 0 s = Some ([], s)"
| "drain (Suc k) s = do {
     (d, s, evs) \<leftarrow> io_coh_read (ic_base s + 0x580) 1 [0] s;
     (bs, s) \<leftarrow> drain k s;
     Some (hd d # bs, s)
   }"

lemma drain_result:
  assumes "has_addr (ic_id s) (ic_base s + 0x580)" and "unat (ic_read_counter s) = i" and "i + k \<le> unat (ic_size s)"
    and "unat (ic_size s) \<le> length (ic_rdata s)"
  shows "\<exists>s'. drain k s = Some (take k (drop i (ic_rdata s)), s') \<and> s' = s\<lparr> ic_read_counter := ic_read_counter s' \<rparr> \<and>
    unat (ic_read_counter s') = i + k"
  using assms
proof (induction k arbitrary: s i)
  case (Suc k)
  let ?s = "s\<lparr> ic_read_counter := ic_read_counter s + 1 \<rparr>"
  have c: "ic_read_counter s < ic_size s" "unat (ic_read_counter s + 1) = Suc i"
    using Suc.prems unat_less_u64 [of "ic_size s"] by (simp_all add: word_less_nat_alt unat_word_ariths)
  have "io_coh_read (ic_base s + 0x580) 1 [0] s = Some ([ic_rdata s ! i], ?s, [])"
    using Suc.prems c(1) by (simp add: io_coh_read_def Let_def)
  moreover obtain s' where "drain k ?s = Some (take k (drop (Suc i) (ic_rdata s)), s')"
      "s' = ?s\<lparr> ic_read_counter := ic_read_counter s' \<rparr>" "unat (ic_read_counter s') = Suc i + k"
    using Suc.IH [of ?s "Suc i"] Suc.prems c(2) by auto
  moreover have "take (Suc k) (drop i (ic_rdata s)) = ic_rdata s ! i # take k (drop (Suc i) (ic_rdata s))"
    using Suc.prems by (simp add: Cons_nth_drop_Suc [symmetric])
  ultimately show ?case
    by auto
qed simp

text \<open>
  C22: a single read returns the response byte by byte.  A triggered read of a programmed size sends
  one request; after its response the read is no longer in flight, the reads of the data register return the
  bytes of the response in order, as many as programmed, and one more read is reported as
  an error.
\<close>

theorem read_drains_response:
  assumes h: "has_addr (ic_id s) (ic_base s + 0x400)" "has_addr (ic_id s) (ic_base s + 0x580)" and "8 \<le> length data"
    and "ic_type s = 1" and "ic_tasks s = []" and "0 < ic_size s" and "unat (ic_size s) \<le> length line"
  shows "\<exists>loc a s1 s2 s3. io_coh_write c (ic_base s + 0x400) len data s = Some (s1, [Ioc_a loc a]) \<and> a_addr a = ic_addr s \<and>
    ioc_r c loc \<lparr> r_id = a_id a, r_resp = RESP_OKAY, r_data = line, r_last = True \<rparr> s1 = Some (s2, []) \<and>
    \<not> ic_read_in_flight s2 \<and> drain (unat (ic_size s)) s2 = Some (take (unat (ic_size s)) line, s3) \<and>
    io_coh_read (ic_base s + 0x580) 1 [0] s3 = Some ([0], s3, [Ioc_error])"
proof -
  obtain v :: u64 where v: "deserializeInt data = Some v"
    using word_data [OF assms(3)] by blast
  obtain z where z: "log2_word (ic_size s) = Some z"
    using log2_word_Some [OF assms(6)] by blast
  define a where "a = ioc_beat c False (ic_axi_id s) (ic_addr s) z (ic_user s)"
  define loc where "loc = mst_for_addr (ie_map c) (ic_addr s) (s\<lparr> ic_backdoor_data := 0 \<rparr>)"
  define s1 where "s1 = s\<lparr> ic_backdoor_data := 0, ic_axi_id := ic_axi_id s + 1, ic_read_in_flight := True, ic_rdata := [],
      ic_tasks := [Ioc_read loc (a_id a)] \<rparr>"
  have w: "io_coh_write c (ic_base s + 0x400) len data s = Some (s1, [Ioc_a loc a])"
    unfolding trigger_reg [OF h(1) v] using assms(4,5) z
    by (simp add: io_coh_trigger_def ioc_overlay_read_def ioc_blocking_read_def a_def loc_def s1_def Let_def)
  obtain s2 where s2: "ioc_r c loc \<lparr> r_id = a_id a, r_resp = RESP_OKAY, r_data = line, r_last = True \<rparr> s1 = Some (s2, [])"
    "\<not> ic_read_in_flight s2" "ic_rdata s2 = take (unat (ic_size s)) line" "ic_read_counter s2 = 0" "ic_size s2 = ic_size s"
    "ic_id s2 = ic_id s" "ic_base s2 = ic_base s"
    using assms(7) by (simp add: ioc_r_def wake_def s1_def take_response_def Let_def)
  from drain_result [of s2 0 "unat (ic_size s)"] s2 h(2) assms(7) obtain s3 where
    s3: "drain (unat (ic_size s)) s2 = Some (take (unat (ic_size s)) line, s3)"
      "s3 = s2\<lparr> ic_read_counter := ic_read_counter s3 \<rparr>" "unat (ic_read_counter s3) = unat (ic_size s)"
    by auto
  have "ic_id s3 = ic_id s" "ic_base s3 = ic_base s" "ic_size s3 = ic_size s"
    using s2(5-7) by (subst s3(2), simp)+
  moreover have "\<not> ic_read_counter s3 < ic_size s"
    using s3(3) by (simp add: word_less_nat_alt)
  ultimately have "io_coh_read (ic_base s + 0x580) 1 [0] s3 = Some ([0], s3, [Ioc_error])"
    using h(2) by (simp add: io_coh_read_def Let_def)
  then show ?thesis
    using w s2(1,2) s3(1) by - (rule exI [of _ loc], rule exI [of _ a], rule exI [of _ s1], rule exI [of _ s2], rule exI [of _ s3], simp add: a_def)
qed

theorem read_drains_response_witness:
  "\<exists>loc a s1 s2 s3. io_coh_write sample_ioc_env 0x9089400 8 (replicate 8 0) (sample_ioc\<lparr> ic_type := 1 \<rparr>) = Some (s1, [Ioc_a loc a]) \<and>
    ioc_r sample_ioc_env loc \<lparr> r_id = a_id a, r_resp = RESP_OKAY, r_data = [5, 6, 7], r_last = True \<rparr> s1 = Some (s2, []) \<and>
    drain 2 s2 = Some ([5, 6], s3)"
proof -
  let ?s = "sample_ioc\<lparr> ic_type := 1 \<rparr>"
  have s: "has_addr (ic_id ?s) (ic_base ?s + 0x400)" "has_addr (ic_id ?s) (ic_base ?s + 0x580)" "ic_type ?s = 1" "ic_tasks ?s = []"
    "0 < ic_size ?s" "unat (ic_size ?s) \<le> length [5 :: u8, 6, 7]" "ic_base ?s + 0x400 = 0x9089400" "unat (ic_size ?s) = 2"
    by (simp_all add: sample_ioc_def io_coh_new_def has_addr_def)
  from read_drains_response [where data = "replicate 8 0" and len = 8 and c = sample_ioc_env, OF s(1,2) _ s(3-6)] show ?thesis
    unfolding s(7,8) by auto
qed

end
