(* ===== verification/Debugger.thy ===== *)
theory Debugger
  imports TrickRegs "HOL-Library.Char_ord" "HOL-Library.List_Lexorder"
begin

text \<open>
  The debugger of the trickbox (\<^verbatim>\<open>sysmod/trickbox/debugger.h\<close>, \<^verbatim>\<open>debugger.cpp\<close>): it reads lists
  of debug module commands from files, on request or at random times, and drives them
  to the debug module, one per clock tick; checkpoints in a list are released later by command
  triggers.  Command files and the directory of templates are parameters; the file that
  survives a reset is part of the state, as its lines.
\<close>

section \<open>Model\<close>

record dmi_req =
  rq_func_bits :: u32
  rq_addr :: u32
  rq_op :: u32
  rq_data :: u32

datatype dbg_event = Dmi_write u32 u32 u32 | Dbg_error

record dbg_flags =
  random_dbg_entry :: bool
  random_dbg_start_delay :: int
  dbg_delay_min :: int
  dbg_delay_max :: int
  dbg_max_snippets :: int
  dbg_input_file_path :: string
  dbg_enable_cross :: bool
  dbg_rand_core :: bool
  dbg_num_harts :: u32
  dbg_mtime_sync :: bool

text \<open>\<^verbatim>\<open>dir_entries\<close> lists path, file name and whether it is a regular file; no list is an invalid directory.\<close>

record dbg_files =
  file_lines :: "string \<Rightarrow> string list option"
  dir_entries :: "(string \<times> string \<times> bool) list option"

record debugger =
  dg_id :: device_id
  command_exec_trigger :: u64
  file_load_trigger :: u64
  driver_status_addr :: u64
  driver_num_cmds_addr :: u64
  driver_warm_reset_addr :: u64
  dg_timer :: u64
  timer_advance :: u64
  dg_status :: u32
  commands_in_queue :: u32
  dg_warm_reset :: u32
  checkpoint_triggers_pending :: u64
  cmd_trigger_rand_debug :: u64
  rand_dbg_entry_cmd_trigger :: bool
  file_parsing_done :: bool
  t_data_buf :: u64
  dmi_cmd_q :: "dmi_req list"
  step_ahead_queue_on :: bool
  step_quit_queue_on :: bool
  step_instr_cnt :: u32
  sdtrig_halt_queue_on :: bool
  sdtrig_cause_queue_on :: bool
  sdtrig_disable_queue_on :: bool
  sdtrig_progbuf_queue_on :: bool
  timer_rand_debug :: u64
  dg_rng :: pcg32
  csvFilePaths :: "string list"
  file_idx :: u32
  file_loading_done :: bool
  snippets_driven :: u32
  file_parsing_in_progress :: bool
  cmd_trigger_in_progress :: bool
  dbg_snippets_name :: string
  dut_reset_req :: bool
  ndm_reset_occured :: bool
  cmd_exc_trig_rcv :: bool
  dg_clocks :: u64
  dg_divisor :: u64
  rand_core_idx :: u32
  model_check_bypass :: bool
  fl_warm_reset :: string
  fl_warm_reset_debug_hold :: string
  reset_state_file :: "string list"

section \<open>Command files\<close>

text \<open>A conversion of hexadecimal text: no result is an escaping exception, no value a caught one.\<close>

definition stoul16 :: "string \<Rightarrow> u64 option option" where
  "stoul16 s = (case strto 16 s of
     None \<Rightarrow> Some None
   | Some (neg, v) \<Rightarrow> if v < 2 ^ 64 then Some (Some (if neg then - of_nat v else of_nat v)) else None)"

definition lower_char :: "char \<Rightarrow> char" where
  "lower_char c = (let n = of_char c :: nat in if 65 \<le> n \<and> n \<le> 90 then char_of (n + 32) else c)"

definition clean_instr :: "string \<Rightarrow> string" where
  "clean_instr s = map lower_char (filter (\<lambda>c. \<not> is_space c) s)"

definition no_underscores :: "string \<Rightarrow> string" where
  "no_underscores s = filter (\<lambda>c. c \<noteq> CHR ''_'') s"

definition op_of :: "string \<Rightarrow> u32" where
  "op_of p = (if p = ''rd'' then 1 else if p = ''wr'' then 2 else if p = ''cp'' then 3 else if p = ''cs'' then 4 else 0)"

definition switch_queues :: "string \<Rightarrow> debugger \<Rightarrow> debugger" where
  "switch_queues instr s =
     (if instr = ''sdtrig_halt_queue_on'' then s\<lparr> sdtrig_halt_queue_on := True \<rparr>
      else if instr = ''sdtrig_halt_queue_off'' then s\<lparr> sdtrig_halt_queue_on := False \<rparr>
      else if instr = ''sdtrig_cause_queue_on'' then s\<lparr> sdtrig_cause_queue_on := True \<rparr>
      else if instr = ''sdtrig_cause_queue_off'' then s\<lparr> sdtrig_cause_queue_on := False \<rparr>
      else if instr = ''sdtrig_disable_queue_on'' then s\<lparr> sdtrig_disable_queue_on := True \<rparr>
      else if instr = ''sdtrig_disable_queue_off'' then s\<lparr> sdtrig_disable_queue_on := False \<rparr>
      else if instr = ''sdtrig_progbuf_queue_on'' then s\<lparr> sdtrig_progbuf_queue_on := True \<rparr>
      else if instr = ''sdtrig_progbuf_queue_off'' then s\<lparr> sdtrig_progbuf_queue_on := False \<rparr>
      else if instr = ''step_ahead_queue_on'' then s\<lparr> step_ahead_queue_on := True \<rparr>
      else if instr = ''step_ahead_queue_off'' then s\<lparr> step_ahead_queue_on := False \<rparr>
      else if instr = ''step_quit_queue_on'' then s\<lparr> step_quit_queue_on := True \<rparr>
      else if instr = ''step_quit_queue_off'' then s\<lparr> step_quit_queue_on := False \<rparr>
      else s)"

text \<open>The checks run one after the other, so a later queue wins.\<close>

definition func_bits_of :: "debugger \<Rightarrow> u32" where
  "func_bits_of s =
     (if sdtrig_progbuf_queue_on s then 6 else if sdtrig_disable_queue_on s then 7
      else if sdtrig_cause_queue_on s then 5 else if sdtrig_halt_queue_on s then 3
      else if step_quit_queue_on s then 4 else if step_ahead_queue_on s then 2 else 0)"

definition csr_addresses :: "u32 list" where
  "csr_addresses = [0xF11, 0xF12, 0xF13, 0xF14, 0x300, 0x301, 0x302, 0x303, 0x304, 0x305, 0x306, 0x310, 0x312]"

text \<open>The address field of a read or a write, and the data field of a write.\<close>

definition parse_addr :: "string list \<Rightarrow> u32 \<Rightarrow> (u32 \<times> dbg_event list) option" where
  "parse_addr row op =
     (if op = 1 \<or> op = 2 then do {
        f \<leftarrow> vec_get row 1;
        r \<leftarrow> stoul16 (no_underscores f);
        Some (case r of None \<Rightarrow> (0, [Dbg_error]) | Some v \<Rightarrow> (ucast v, []))
      } else Some (0, []))"

definition parse_data :: "dbg_flags \<Rightarrow> string list \<Rightarrow> u32 \<Rightarrow> u32 \<Rightarrow> debugger \<Rightarrow> (u32 \<times> dbg_event list) option" where
  "parse_data f row op addr s =
     (if op = 2 then do {
        fld \<leftarrow> vec_get row 2;
        r \<leftarrow> stoul16 (no_underscores fld);
        Some (case r of
            None \<Rightarrow> (0, [Dbg_error])
          | Some v \<Rightarrow> (if dbg_rand_core f \<and> addr = 0x10 then ucast v + push_bit 16 (rand_core_idx s) else ucast v, []))
      } else Some (0, []))"

definition enqueue_req :: "dmi_req \<Rightarrow> debugger \<Rightarrow> debugger" where
  "enqueue_req r s = s\<lparr> dmi_cmd_q := dmi_cmd_q s @ [r] \<rparr>"

definition custom_req :: "string \<Rightarrow> dmi_req \<Rightarrow> debugger \<Rightarrow> dmi_req \<times> debugger" where
  "custom_req instr r s =
     (if rq_op r = 4 \<and> instr = ''cs_csr_rand_read'' then
        (let (x, g) = pcg32_next (dg_rng s) in
         (r\<lparr> rq_op := 2, rq_addr := 0x17, rq_data := 0x00320000 + csr_addresses ! (unat x mod length csr_addresses) \<rparr>,
          s\<lparr> dg_rng := g \<rparr>))
      else (r, s))"

definition known_prefix :: "string \<Rightarrow> bool" where
  "known_prefix p \<longleftrightarrow> op_of p \<noteq> 0 \<or> p = ''sd'' \<or> p = ''st''"

definition parse_line :: "dbg_flags \<Rightarrow> string \<Rightarrow> debugger \<Rightarrow> (debugger \<times> dbg_event list) option" where
  "parse_line f line s = do {
     let row = getline_tokens CHR '','' line;
     fst_fld \<leftarrow> vec_get row 0;
     let instr = clean_instr fst_fld;
     let p = take 2 instr;
     if p = ''//'' then Some (s, [])
     else if instr = ''step_instr_cnt'' then do {
       fld \<leftarrow> vec_get row 1;
       r \<leftarrow> stoul16 fld;
       v \<leftarrow> r;
       let s = s\<lparr> step_instr_cnt := ucast v \<rparr>;
       Some (enqueue_req \<lparr> rq_func_bits = 1, rq_addr = 0, rq_op = 0, rq_data = step_instr_cnt s \<rparr> s, [])
     }
     else do {
       let s = (if p = ''sd'' \<or> p = ''st'' then switch_queues instr s else s);
       let e0 = (if known_prefix p then [] else [Dbg_error]);
       let op = op_of p;
       (addr, e1) \<leftarrow> parse_addr row op;
       (data, e2) \<leftarrow> parse_data f row op addr s;
       let (r, s) = custom_req instr \<lparr> rq_func_bits = func_bits_of s, rq_addr = addr, rq_op = op, rq_data = data \<rparr> s;
       Some (if rq_op r \<noteq> 0 then enqueue_req r s else s, e0 @ e1 @ e2)
     }
   }"

fun parse_lines :: "dbg_flags \<Rightarrow> string list \<Rightarrow> debugger \<Rightarrow> (debugger \<times> dbg_event list) option" where
  "parse_lines f [] s = Some (s, [])"
| "parse_lines f (l # ls) s = do {
     (s, e) \<leftarrow> parse_line f l s;
     (s, es) \<leftarrow> parse_lines f ls s;
     Some (s, e @ es)
   }"

fun contains_word :: "string \<Rightarrow> string \<Rightarrow> bool" where
  "contains_word w [] = (w = [])"
| "contains_word w (c # cs) = (take (length w) (c # cs) = w \<or> contains_word w cs)"

definition csv_name :: "string \<Rightarrow> string" where
  "csv_name path =
     (let b = rev (takeWhile (\<lambda>c. c \<noteq> CHR ''/'') (rev path)) in if 4 \<le> length b then take (length b - 4) b else b)"

definition checkpoint_req :: dmi_req where
  "checkpoint_req = \<lparr> rq_func_bits = 0, rq_addr = 0, rq_op = 3, rq_data = 0 \<rparr>"

definition parse_dmi_from_csv :: "dbg_flags \<Rightarrow> dbg_files \<Rightarrow> debugger \<Rightarrow> (debugger \<times> dbg_event list) option" where
  "parse_dmi_from_csv f fs s = do {
     file_name \<leftarrow> (if random_dbg_entry f then vec_get (csvFilePaths s) (unat (file_idx s)) else Some (dbg_input_file_path f));
     let s = s\<lparr> dbg_snippets_name := dbg_snippets_name s @ csv_name file_name \<rparr>;
     let s = (if contains_word ''ndm'' file_name
       then s\<lparr> model_check_bypass := True, fl_warm_reset := ''trigger'', snippets_driven := word_of_int (dbg_max_snippets f),
          fl_warm_reset_debug_hold := ''1:1'' \<rparr> else s);
     let (x, g) = pcg32_next (dg_rng s);
     if dbg_num_harts f = 0 then None
     else do {
       let s = s\<lparr> dg_rng := g, rand_core_idx := x mod dbg_num_harts f \<rparr>;
       (case file_lines fs file_name of
          None \<Rightarrow> Some (s, [Dbg_error])
        | Some ls \<Rightarrow> do {
            (s, evs) \<leftarrow> parse_lines f ls (s\<lparr> file_parsing_done := False \<rparr>);
            let s = (if random_dbg_entry f then enqueue_req checkpoint_req s else s);
            Some (s\<lparr> file_parsing_done := True \<rparr>, evs)
          })
     }
   }"

definition ends_with :: "string \<Rightarrow> string \<Rightarrow> bool" where
  "ends_with w s \<longleftrightarrow> length w \<le> length s \<and> drop (length s - length w) s = w"

definition is_template :: "dbg_flags \<Rightarrow> string \<Rightarrow> bool" where
  "is_template f name \<longleftrightarrow> ends_with ''.csv'' name \<and>
     \<not> (dbg_enable_cross f \<and> 14 < length name \<and> ends_with ''scratchpad.csv'' name) \<and>
     \<not> (dbg_mtime_sync f \<and> 13 < length name \<and> ends_with ''stopcount.csv'' name)"

definition get_all_csv_templates :: "dbg_flags \<Rightarrow> dbg_files \<Rightarrow> debugger \<Rightarrow> debugger option" where
  "get_all_csv_templates f fs s = do {
     es \<leftarrow> dir_entries fs;
     Some (s\<lparr> csvFilePaths := sort (csvFilePaths s @ map fst (filter (\<lambda>(_, name, regular). regular \<and> is_template f name) es)) \<rparr>)
   }"

section \<open>Driving commands\<close>

definition upper_dmi_data :: "dmi_req \<Rightarrow> u32" where
  "upper_dmi_data r = push_bit 27 (rq_func_bits r) OR push_bit 2 (rq_addr r) OR rq_op r"

definition drive_csv_dmi_cmds :: "debugger \<Rightarrow> debugger \<times> dbg_event list" where
  "drive_csv_dmi_cmds s =
     (if rand_dbg_entry_cmd_trigger s then
        (s\<lparr> rand_dbg_entry_cmd_trigger := False \<rparr>, [Dmi_write 0 0x80000000 0x0fffffff])
      else (case dmi_cmd_q s of
          [] \<Rightarrow> (s, [])
        | r # rs \<Rightarrow>
            (s\<lparr> dmi_cmd_q := rs,
               checkpoint_triggers_pending := checkpoint_triggers_pending s + (if rq_op r = 3 then 1 else 0) \<rparr>,
             [Dmi_write 0 (upper_dmi_data r) (rq_data r)])))"

section \<open>Random entry\<close>

text \<open>
  The delays are 32-bit integers; the span of the delays is the modulus of a draw, taken as
  an unsigned number, and must not be zero.
\<close>

definition draw_delay :: "dbg_flags \<Rightarrow> int \<Rightarrow> debugger \<Rightarrow> (u32 \<times> debugger) option" where
  "draw_delay f plus_min s =
     (let m = (word_of_int (dbg_delay_max f - dbg_delay_min f + 1) :: u32); (x, g) = pcg32_next (dg_rng s) in
      if m = 0 then None else Some (x mod m + word_of_int plus_min, s\<lparr> dg_rng := g \<rparr>))"

definition draw_file :: "debugger \<Rightarrow> debugger option" where
  "draw_file s =
     (let (x, g) = pcg32_next (dg_rng s) in
      if csvFilePaths s = [] then None
      else Some (s\<lparr> dg_rng := g, file_idx := of_nat (unat x mod length (csvFilePaths s)) \<rparr>))"

definition genNextCmdTriggerEvents :: "dbg_flags \<Rightarrow> debugger \<Rightarrow> debugger option" where
  "genNextCmdTriggerEvents f s = do {
     (n, s) \<leftarrow> draw_delay f (5 * dbg_delay_min f) s;
     Some (s\<lparr> cmd_trigger_rand_debug := dg_timer s + scast n * timer_advance s \<rparr>)
   }"

definition genNextDebugEvents :: "dbg_flags \<Rightarrow> debugger \<Rightarrow> debugger option" where
  "genNextDebugEvents f s =
     (if \<not> random_dbg_entry f then Some s
      else do {
        (n, s) \<leftarrow> draw_delay f (dbg_delay_min f) s;
        s \<leftarrow> draw_file (s\<lparr> timer_rand_debug := dg_timer s + scast n * timer_advance s \<rparr>);
        Some (s\<lparr> cmd_trigger_in_progress := False \<rparr>)
      })"

definition start_snippet :: "dbg_flags \<Rightarrow> dbg_files \<Rightarrow> debugger \<Rightarrow> (debugger \<times> dbg_event list) option" where
  "start_snippet f fs s =
     (if timer_rand_debug s \<le> dg_timer s \<and> checkpoint_triggers_pending s = 0 \<and> \<not> cmd_trigger_in_progress s \<and>
         \<not> file_parsing_in_progress s
      then do {
        (s, evs) \<leftarrow>
          (if snippets_driven s < word_of_int (dbg_max_snippets f) then do {
             (s, evs) \<leftarrow> parse_dmi_from_csv f fs s;
             Some (s\<lparr> snippets_driven := snippets_driven s + 1, file_parsing_in_progress := True \<rparr>, evs)
           } else Some (s, []));
        s \<leftarrow>
          (if file_parsing_done s \<and> file_parsing_in_progress s then do {
             s \<leftarrow> genNextCmdTriggerEvents f s;
             Some (s\<lparr> file_parsing_in_progress := False, cmd_trigger_in_progress := True \<rparr>)
           } else Some s);
        Some (s, evs)
      } else Some (s, []))"

definition release_checkpoint :: "dbg_flags \<Rightarrow> debugger \<Rightarrow> debugger option" where
  "release_checkpoint f s =
     (if cmd_trigger_rand_debug s \<le> dg_timer s \<and> dmi_cmd_q s = [] \<and> file_parsing_done s \<and> cmd_trigger_in_progress s then
        (if checkpoint_triggers_pending s = 0 then genNextDebugEvents f s
         else
           let s = s\<lparr> rand_dbg_entry_cmd_trigger := True, checkpoint_triggers_pending := checkpoint_triggers_pending s - 1 \<rparr> in
           if 0 < checkpoint_triggers_pending s then genNextCmdTriggerEvents f s else Some s)
      else Some s)"

definition checkDebugEvents :: "dbg_flags \<Rightarrow> dbg_files \<Rightarrow> debugger \<Rightarrow> (debugger \<times> dbg_event list) option" where
  "checkDebugEvents f fs s =
     (if \<not> random_dbg_entry f then Some (s, [])
      else do {
        (s, evs) \<leftarrow> start_snippet f fs s;
        s \<leftarrow> release_checkpoint f s;
        Some (s, evs)
      })"

definition dbg_tick :: "dbg_flags \<Rightarrow> dbg_files \<Rightarrow> u64 \<Rightarrow> debugger \<Rightarrow> (debugger \<times> dbg_event list) option" where
  "dbg_tick f fs advance s =
     (let s = s\<lparr> dg_timer := dg_timer s + advance, timer_advance := advance \<rparr> in
      if dg_timer s \<le> 5 * advance then Some (s, [])
      else do {
        (s, evs) \<leftarrow> checkDebugEvents f fs s;
        let (s, evs') =
          (if cmd_exc_trig_rcv s then
             (s\<lparr> cmd_exc_trig_rcv := False, t_data_buf := 0 \<rparr>,
              [Dmi_write 0 (ucast (drop_bit 32 (t_data_buf s))) (ucast (t_data_buf s AND 0xffffffff))])
           else drive_csv_dmi_cmds s);
        Some (s, evs @ evs')
      })"

section \<open>Resets\<close>

definition ndm_reset_line :: string where
  "ndm_reset_line = ''Ndm-Reset''"

definition first_line :: "string list \<Rightarrow> string" where
  "first_line ls = (case ls of [] \<Rightarrow> [] | l # _ \<Rightarrow> l)"

definition dbg_is_dut_reset_req :: "bool \<Rightarrow> u64 \<Rightarrow> u64 \<Rightarrow> debugger \<Rightarrow> debugger" where
  "dbg_is_dut_reset_req req clk dvs s =
     (let s = s\<lparr> dut_reset_req := req, dg_clocks := clk, dg_divisor := dvs \<rparr> in
      if req then s\<lparr> ndm_reset_occured := True, reset_state_file := reset_state_file s @ [ndm_reset_line] \<rparr> else s)"

definition dbg_reset :: "dbg_flags \<Rightarrow> dbg_files \<Rightarrow> debugger \<Rightarrow> debugger option" where
  "dbg_reset f fs s = do {
     let s = (if dut_reset_req s then s\<lparr> reset_state_file := reset_state_file s @ [ndm_reset_line] \<rparr> else s);
     let s = (if first_line (reset_state_file s) = ndm_reset_line
       then s\<lparr> snippets_driven := word_of_int (dbg_max_snippets f), ndm_reset_occured := True \<rparr> else s);
     if random_dbg_entry f \<and> \<not> ndm_reset_occured s then do {
       s \<leftarrow> get_all_csv_templates f fs s;
       (n, s) \<leftarrow> (if dbg_delay_min f \<noteq> 0 then draw_delay f (dbg_delay_min f) s else Some (0, s));
       s \<leftarrow> draw_file (s\<lparr> dg_timer := 0 \<rparr>);
       Some (s\<lparr> timer_rand_debug := dg_timer s + word_of_int (random_dbg_start_delay f) + ucast n * timer_advance s \<rparr>)
     } else Some s
   }"

text \<open>The three status words are not initialised: their first values are arguments.\<close>

definition debugger_new :: "dbg_flags \<Rightarrow> dbg_files \<Rightarrow> u64 \<Rightarrow> string list \<Rightarrow> u32 \<Rightarrow> u32 \<Rightarrow> u32 \<Rightarrow> u64 \<Rightarrow> debugger option" where
  "debugger_new f fs seed state_file g1 g2 g3 addr = do {
     let s = \<lparr> dg_id = \<lparr> dv_tag = ''debugger'', dv_addr = addr, dv_size = 0x20000 \<rparr>, command_exec_trigger = addr,
       file_load_trigger = addr + 0x10000, driver_status_addr = addr + 0x500, driver_num_cmds_addr = addr + 0x600,
       driver_warm_reset_addr = addr + 0x700, dg_timer = 0, timer_advance = 200, dg_status = g1, commands_in_queue = g2,
       dg_warm_reset = g3, checkpoint_triggers_pending = 0, cmd_trigger_rand_debug = 3000, rand_dbg_entry_cmd_trigger = False,
       file_parsing_done = False, t_data_buf = 0, dmi_cmd_q = [], step_ahead_queue_on = False, step_quit_queue_on = False,
       step_instr_cnt = 0, sdtrig_halt_queue_on = False, sdtrig_cause_queue_on = False, sdtrig_disable_queue_on = False,
       sdtrig_progbuf_queue_on = False, timer_rand_debug = 500, dg_rng = pcg32_seed seed, csvFilePaths = [], file_idx = 0,
       file_loading_done = False, snippets_driven = 0, file_parsing_in_progress = False, cmd_trigger_in_progress = False,
       dbg_snippets_name = [], dut_reset_req = False, ndm_reset_occured = False, cmd_exc_trig_rcv = False, dg_clocks = 0,
       dg_divisor = 0, rand_core_idx = 0, model_check_bypass = False, fl_warm_reset = ''off'', fl_warm_reset_debug_hold = ''0:1'',
       reset_state_file = state_file \<rparr>;
     s \<leftarrow> dbg_reset f fs s;
     Some (if first_line (reset_state_file s) = ndm_reset_line
       then s\<lparr> snippets_driven := word_of_int (dbg_max_snippets f), ndm_reset_occured := True, fl_warm_reset_debug_hold := ''1:1'' \<rparr>
       else s)
   }"

section \<open>Registers\<close>

definition update_dm_status :: "u32 \<Rightarrow> u32 \<Rightarrow> u32 \<Rightarrow> debugger \<Rightarrow> debugger" where
  "update_dm_status st cmds warm s = s\<lparr> dg_status := st, commands_in_queue := cmds, dg_warm_reset := warm \<rparr>"

definition debugger_read :: "u64 \<Rightarrow> nat \<Rightarrow> data_t \<Rightarrow> debugger \<Rightarrow> (data_t \<times> debugger \<times> dbg_event list) option" where
  "debugger_read addr len data s =
     (if \<not> has_addr (dg_id s) addr then Some (data, s, [])
      else do {
        data \<leftarrow> (if addr = driver_status_addr s then vec_set data 0 (ucast (dg_status s)) else Some data);
        data \<leftarrow> (if addr = driver_num_cmds_addr s then vec_set data 0 (ucast (commands_in_queue s)) else Some data);
        data \<leftarrow> (if addr = driver_warm_reset_addr s then vec_set data 0 (ucast (dg_warm_reset s)) else Some data);
        Some (data, s, [])
      })"

definition debugger_write :: "dbg_flags \<Rightarrow> dbg_files \<Rightarrow> u64 \<Rightarrow> nat \<Rightarrow> data_t \<Rightarrow> debugger \<Rightarrow>
    (debugger \<times> dbg_event list) option" where
  "debugger_write f fs addr len data s =
     (if \<not> has_addr (dg_id s) addr then Some (s, [])
      else do {
        t_data \<leftarrow> deserializeInt data;
        let s = (if addr = command_exec_trigger s \<and> \<not> random_dbg_entry f
          then s\<lparr> cmd_exc_trig_rcv := True, t_data_buf := t_data \<rparr> else s) in
        if addr = file_load_trigger s \<and> \<not> random_dbg_entry f \<and> \<not> ndm_reset_occured s
        then parse_dmi_from_csv f fs (s\<lparr> file_loading_done := True \<rparr>)
        else Some (s, [])
      })"

end
