(* ===== verification/Spec2Isabelle.thy ===== *)
theory Spec2Isabelle
  imports Axi AxiSw AxiMst MmrRouter Clint Aclint Htif MemDevice Memmap SmallDevices Sysmod Pcg IoCoh Debugger
begin

text \<open>
  This development verifies the software platform of \<^verbatim>\<open>rv_tester\<close>: the models of the bus,
  the exclusive monitor, the devices and the memory that a RISC-V design under test
  talks to during simulation.  Paths below are relative to \<^verbatim>\<open>src/src\<close>.

  \<^bold>\<open>The program.\<close>  A bus transactor (\<^verbatim>\<open>transactors/axi_sw/axi.cpp\<close>) takes AXI transactions from
  the design, splits bursts into beats, consults the exclusive access monitor
  (\<^verbatim>\<open>eam.cpp\<close>) and the error injection lists (\<^verbatim>\<open>common/bus_error_list.h\<close>), and sends
  byte requests to the platform (\<^verbatim>\<open>sysmod/sysmod.cpp\<close>).  The platform is composed from
  a memory map (\<^verbatim>\<open>common/memmap.h\<close>), routes each request to the device whose
  window has the address, distributes clock ticks, loads programs and keeps the memory
  of an instruction set simulator coherent with its own.

  \<^bold>\<open>Theories.\<close>
  \<^item> \<^verbatim>\<open>Prelude\<close>, \<^verbatim>\<open>Bytes\<close>, \<^verbatim>\<open>Strings\<close>: vectors with checked access, run-time shifts, the
    little-endian codecs of \<^verbatim>\<open>sysmod/io_device.h\<close>, and the number and list parsers of
    \<^verbatim>\<open>common/parser.hpp\<close> with the standard library functions they use.
  \<^item> \<^verbatim>\<open>BusErrorList\<close>, \<^verbatim>\<open>DeviceAddressMap\<close>: the error ranges with their counters and patterns; the
    address map of the internal devices.
  \<^item> \<^verbatim>\<open>AxiTypes\<close>, \<^verbatim>\<open>Eam\<close>, \<^verbatim>\<open>Axi\<close>: channel types, the exclusive monitor, the burst engine.  The
    locale \<^verbatim>\<open>excl_monitor\<close> states what the burst engine needs of a monitor.
  \<^item> \<^verbatim>\<open>AxiSw\<close>: the software end of the subordinate (\<^verbatim>\<open>axi_sw.h\<close>, \<^verbatim>\<open>axi_sw.cpp\<close>): the reorder window in
    front of the engine of \<^verbatim>\<open>Axi\<close> and the response FIFOs behind it.  \<^verbatim>\<open>deliver\<close> is the abstract
    meaning of one step of the window.
  \<^item> \<^verbatim>\<open>AxiMst\<close>, \<^verbatim>\<open>MmrRouter\<close>: the manager (\<^verbatim>\<open>axi_sw_mst.h\<close>) with its ids, queue and requests, and the
    device that sends register accesses back to the design through it
    (\<^verbatim>\<open>sysmod/mmr_txn_router\<close>).  The relation \<^verbatim>\<open>mst_reach\<close> has the histories of a manager.
  \<^item> \<^verbatim>\<open>Device\<close>: the request handlers every device shares (\<^verbatim>\<open>sysmod/device.h\<close>) and the locale
    \<^verbatim>\<open>mmio_device\<close>, the contract between a device and the bus: the invariant is kept and
    every accepted request is answered.  Every device theory interprets it.
  \<^item> \<^verbatim>\<open>Clint\<close>, \<^verbatim>\<open>Aclint\<close>, \<^verbatim>\<open>Htif\<close>, \<^verbatim>\<open>MemDevice\<close>, \<^verbatim>\<open>SmallDevices\<close>: the devices.  \<^verbatim>\<open>Aclint\<close> joins the
    C++ registers to the counters and handshakes of \<^verbatim>\<open>sysmod/aclint/aclint.sv\<close>.
  \<^item> \<^verbatim>\<open>Memmap\<close>, \<^verbatim>\<open>Sysmod\<close>: the memory map and the platform.
  \<^item> \<^verbatim>\<open>Pcg\<close>: the random generator \<^verbatim>\<open>pcg32\<close> (\<^verbatim>\<open>common/pcg_random.hpp\<close>, \<^verbatim>\<open>common/pcg_extras.hpp\<close>).
  \<^item> \<^verbatim>\<open>TrickRegs\<close>, \<^verbatim>\<open>Dma\<close>, \<^verbatim>\<open>IoCoh\<close>, \<^verbatim>\<open>Debugger\<close>: the blocks of the trickbox
    (\<^verbatim>\<open>sysmod/trickbox\<close>): the small register blocks, the DMA, the helper for coherent accesses
    and the driver of the debug module.  The locale \<^verbatim>\<open>trick_block\<close> is what the trickbox
    expects of a block.  A coroutine that waits for a response is a task in the state of
    its block, and the arrival of the response resumes it.

  \<^bold>\<open>Conventions.\<close>  An object is a record, a method a function that returns the updated record
  and the list of signals it emits; \<^const>\<open>None\<close> stands for undefined behaviour, a failed
  assertion or an escaping exception.  Integers are words of the width the code gives
  them; shift counts that are not constant are taken modulo the width.  Libraries are
  parameters: the page store (\<^verbatim>\<open>mem_manager\<close> with \<^verbatim>\<open>mem_laws\<close>), the simulator's memory
  (\<^verbatim>\<open>iss_laws\<close>), the interrupt controller, random numbers, the clock and files.
  Loops with a known bound recurse on the bound or on the queue they empty, so no model
  needs fuel; the two loops of split transfers, which can run forever when addresses wrap,
  are partial functions, and the theorems on them show that they end.

  \<^bold>\<open>Results.\<close>  Safety and atomicity of exclusive accesses; every transaction is answered with
  the right number of responses; the monitor sees every byte of a burst; interrupt lines follow
  the timers through any sequence of bus writes and clock edges; memory is a byte store
  and program images arrive in it; the composed platform has one responder per address exactly when the windows of its devices are disjoint;
  clock ticks are conserved; the simulator stays coherent after invalidations; the
  termination protocol waits for the last hart; the reorder window keeps streams and bursts
  together; ids on the wire are distinct; requests are cut into the right lanes and split
  transfers put together again; bus errors are injected by range and type in the configured rhythm; the
  trickbox blocks drive lines, fill memory, send and read buffers as their registers say.  A group of theorems records where the code
  does not do what its comments or its users expect (snapshots, bounds, ranges).

  \<^bold>\<open>Not modelled.\<close>  The comparison of retired instructions with the simulator
  (\<^verbatim>\<open>cosim\<close>), whose steps are calls of the simulator client; sockets, files, logging and signal
  handlers; the SystemVerilog wiring; random stimulus generation (\<^verbatim>\<open>interrupts\<close>); the container of the trickbox blocks; third-party
  headers in \<^verbatim>\<open>common\<close>.
\<close>

end
